(* ===== verification/Prelude.thy ===== *)
theory Prelude
  imports Main "HOL-Library.Char_ord" "HOL-Library.List_Lexorder" "HOL-Library.Sublist"
begin

text \<open>
  What every component of the development shares: the faults a C++ statement can end in, the
  result type that carries them, the named collections the component theories fill, the library
  routines of the C++ standard the program calls on character ranges (\<open>std::search\<close>,
  \<open>std::find\<close>, \<open>std::copy\<close> inside one array, \<open>isspace\<close>, \<open>snprintf\<close> and its decimal
  conversion), and generic facts on lists.
\<close>

section \<open>Faults and results\<close>

text \<open>
  A C++ statement can end the program instead of returning: a failed \<open>assert\<close> (the build files
  never define NDEBUG, so every assertion is live), \<open>abort()\<close> through \<open>LOG_FATAL\<close>, a null or
  out-of-range access, a signed overflow, a division by zero, a conversion of a double that does not
  fit the integer type, a thrown exception nobody catches.
  Each of these is a value, so that every error path of the source is a branch of the model.
\<close>

datatype fault =
    AssertFailed | Aborted | NullDeref | OutOfBounds | SignedOverflow | DivByZero
  | LengthError | BadFunctionCall | UseAfterFree | FloatCast | InvalidArgument | OutOfRange

type_synonym 'a res = "fault + 'a"

definition rbind :: "'a res \<Rightarrow> ('a \<Rightarrow> 'b res) \<Rightarrow> 'b res" where
  "rbind m f = (case m of Inl e \<Rightarrow> Inl e | Inr x \<Rightarrow> f x)"

definition rassert :: "bool \<Rightarrow> 'a res \<Rightarrow> 'a res" where
  "rassert p m = (if p then m else Inl AssertFailed)"

text \<open>The result of an operation on \<open>int\<close>.\<close>

definition in_int32 :: "int \<Rightarrow> bool" where
  "in_int32 x \<longleftrightarrow> - (2 ^ 31) \<le> x \<and> x < 2 ^ 31"

definition int32 :: "int \<Rightarrow> int res" where
  "int32 x = (if in_int32 x then Inr x else Inl SignedOverflow)"

named_theorems result_simps "evaluation of the result type"
named_theorems queue_simps "contents of byte queues after each operation"
named_theorems inv_intros "operations that preserve a component's invariant"

lemma rbind_simps [simp, result_simps]:
  "rbind (Inr x) f = f x" "rbind (Inl e) f = Inl e"
  by (simp_all add: rbind_def)

lemma rassert_simps [simp, result_simps]:
  "rassert True m = m" "rassert False m = Inl AssertFailed"
  by (simp_all add: rassert_def)

lemma rbind_Inr_iff [result_simps]: "rbind m f = Inr y \<longleftrightarrow> (\<exists>x. m = Inr x \<and> f x = Inr y)"
  by (cases m) auto

lemma rassert_Inr_iff [result_simps]: "rassert p m = Inr y \<longleftrightarrow> p \<and> m = Inr y"
  by (simp add: rassert_def)

lemma rbind_assoc: "rbind (rbind m f) g = rbind m (\<lambda>x. rbind (f x) g)"
  by (cases m) auto

section \<open>Ranges of a character array\<close>

text \<open>The elements at the offsets \<open>[i, j)\<close> of an array; offsets are \<open>ssize_t\<close> values.\<close>

definition slice :: "'a list \<Rightarrow> int \<Rightarrow> int \<Rightarrow> 'a list" where
  "slice xs i j = take (nat (j - i)) (drop (nat i) xs)"

lemma length_slice [simp]:
  "0 \<le> i \<Longrightarrow> i \<le> j \<Longrightarrow> j \<le> int (length xs) \<Longrightarrow> length (slice xs i j) = nat (j - i)"
  by (simp add: slice_def)

lemma slice_empty [simp]: "j \<le> i \<Longrightarrow> slice xs i j = []"
  by (simp add: slice_def)

lemma slice_split:
  assumes "0 \<le> i" "i \<le> j" "j \<le> k"
  shows "slice xs i k = slice xs i j @ slice xs j k"
proof -
  have "nat (k - i) = nat (j - i) + nat (k - j)" and "nat j = nat (j - i) + nat i"
    using assms by simp_all
  then show ?thesis by (simp add: slice_def take_add add.commute)
qed

lemma take_slice: "0 \<le> n \<Longrightarrow> n \<le> j - i \<Longrightarrow> take (nat n) (slice xs i j) = slice xs i (i + n)"
  by (simp add: slice_def min_def)

lemma drop_slice:
  assumes "0 \<le> n" "0 \<le> i"
  shows "drop (nat n) (slice xs i j) = slice xs (i + n) j"
proof -
  have "nat (j - (i + n)) = nat (j - i) - nat n" and "nat (i + n) = nat n + nat i"
    using assms by simp_all
  then show ?thesis by (simp add: slice_def drop_take add.commute)
qed

lemma slice_mid: "i = int (length xs) \<Longrightarrow> j = i + int (length ys) \<Longrightarrow> slice (xs @ ys @ zs) i j = ys"
  by (simp add: slice_def)

lemma slice_to_end: "j = int (length xs) \<Longrightarrow> slice xs i j = drop (nat i) xs"
  by (simp add: slice_def)

text \<open>Writing a block over the elements from offset \<open>i\<close>; out of the array's bounds it is a fault.\<close>

definition copy_in :: "'a list \<Rightarrow> int \<Rightarrow> 'a list \<Rightarrow> 'a list res" where
  "copy_in xs i ys =
     (if 0 \<le> i \<and> i + int (length ys) \<le> int (length xs)
      then Inr (take (nat i) xs @ ys @ drop (nat i + length ys) xs)
      else Inl OutOfBounds)"

definition read_range :: "'a list \<Rightarrow> int \<Rightarrow> int \<Rightarrow> 'a list res" where
  "read_range xs i n =
     (if n < 0 then Inl LengthError
      else if 0 \<le> i \<and> i + n \<le> int (length xs) then Inr (slice xs i (i + n))
      else Inl OutOfBounds)"

text \<open>
  \<open>std::copy(first, first + n, dest)\<close> inside one array, element by element from the front, which
  is what it does when the ranges overlap.
\<close>

fun copy_within :: "nat \<Rightarrow> nat \<Rightarrow> nat \<Rightarrow> 'a list \<Rightarrow> 'a list" where
  "copy_within 0 s d xs = xs"
| "copy_within (Suc n) s d xs = copy_within n (Suc s) (Suc d) (xs[d := xs ! s])"

lemma length_copy_within [simp]: "length (copy_within n s d xs) = length xs"
  by (induction n s d xs rule: copy_within.induct) auto

text \<open>Towards lower offsets the forward copy is right even where the ranges overlap.\<close>

lemma copy_within_down:
  assumes "d \<le> s" "s + n \<le> length xs"
  shows "copy_within n s d xs = take d xs @ take n (drop s xs) @ drop (d + n) xs"
  using assms
proof (induction n arbitrary: s d xs)
  case 0
  then show ?case by simp
next
  case (Suc n)
  let ?ys = "xs[d := xs ! s]"
  have "copy_within (Suc n) s d xs = take (Suc d) ?ys @ take n (drop (Suc s) ?ys) @ drop (Suc d + n) ?ys"
    using Suc.IH [of "Suc d" "Suc s" ?ys] Suc.prems by simp
  moreover have "take (Suc d) ?ys = take d xs @ [xs ! s]"
    using Suc.prems by (simp add: take_Suc_conv_app_nth)
  moreover have "drop (Suc s) ?ys = drop (Suc s) xs"
    using Suc.prems by simp
  moreover have "drop (Suc d + n) ?ys = drop (d + Suc n) xs"
    by simp
  moreover have "take (Suc n) (drop s xs) = xs ! s # take n (drop (Suc s) xs)"
  proof -
    from Suc.prems have "s < length xs" by simp
    then have "drop s xs = xs ! s # drop (Suc s) xs" by (simp add: Cons_nth_drop_Suc)
    then show ?thesis by simp
  qed
  ultimately show ?case by simp
qed

section \<open>Searching\<close>

text \<open>
  \<open>std::find\<close> and \<open>std::search\<close> on a range, as the distance from its begin; the distance of the
  end of the range stands for "not found", as the returned \<open>last\<close> does.
\<close>

fun std_find :: "'a \<Rightarrow> 'a list \<Rightarrow> nat" where
  "std_find x [] = 0"
| "std_find x (y # ys) = (if y = x then 0 else Suc (std_find x ys))"

fun std_search :: "'a list \<Rightarrow> 'a list \<Rightarrow> nat" where
  "std_search pat [] = 0"
| "std_search pat (y # ys) = (if prefix pat (y # ys) then 0 else Suc (std_search pat ys))"

lemma std_find_le: "std_find x ys \<le> length ys"
  by (induction ys) auto

lemma std_find_notin [simp]: "x \<notin> set ys \<Longrightarrow> std_find x ys = length ys"
  by (induction ys) auto

lemma std_find_append_in [simp]: "x \<notin> set ys \<Longrightarrow> std_find x (ys @ x # zs) = length ys"
  by (induction ys) auto

lemma std_find_less_iff: "std_find x ys < length ys \<longleftrightarrow> x \<in> set ys"
  by (induction ys) auto

lemma std_find_split:
  "std_find x ys < length ys \<Longrightarrow>
     ys = take (std_find x ys) ys @ x # drop (Suc (std_find x ys)) ys \<and> x \<notin> set (take (std_find x ys) ys)"
  by (induction ys) auto

lemma takeWhile_std_find: "takeWhile (\<lambda>c. c \<noteq> x) ys = take (std_find x ys) ys"
  by (induction ys) auto

lemma std_search_le: "std_search pat ys \<le> length ys"
  by (induction ys) auto

text \<open>The match is the first one: no proper offset before it is a match.\<close>

lemma std_search_found:
  "std_search pat ys < length ys \<Longrightarrow> prefix pat (drop (std_search pat ys) ys)"
  by (induction ys) auto

lemma std_search_first:
  "i < std_search pat ys \<Longrightarrow> \<not> prefix pat (drop i ys)"
proof (induction ys arbitrary: i)
  case Nil
  then show ?case by simp
next
  case (Cons y ys)
  then show ?case by (cases i) (auto split: if_splits)
qed

lemma std_search_eqI:
  assumes "k < length ys" "prefix pat (drop k ys)" "\<And>i. i < k \<Longrightarrow> \<not> prefix pat (drop i ys)"
  shows "std_search pat ys = k"
proof (rule linorder_cases)
  assume "std_search pat ys < k"
  with assms(1) have "prefix pat (drop (std_search pat ys) ys)"
    by (intro std_search_found) simp
  with assms(3) \<open>std_search pat ys < k\<close> show ?thesis by blast
next
  assume "k < std_search pat ys"
  with assms(2) show ?thesis using std_search_first by blast
qed

text \<open>A match found in a range stays the first match when the range is extended.\<close>

lemma std_search_extend:
  assumes found: "std_search pat ys < length ys"
  shows "std_search pat (ys @ zs) = std_search pat ys"
proof (rule std_search_eqI)
  let ?k = "std_search pat ys"
  have pre: "prefix pat (drop ?k ys)" using found by (rule std_search_found)
  then have len: "?k + length pat \<le> length ys"
    using prefix_length_le found by fastforce
  from found show "?k < length (ys @ zs)" by simp
  from pre found show "prefix pat (drop ?k (ys @ zs))" by (simp add: prefix_prefix)
  show "\<not> prefix pat (drop i (ys @ zs))" if "i < ?k" for i
  proof
    assume "prefix pat (drop i (ys @ zs))"
    moreover have "drop i (ys @ zs) = drop i ys @ zs" using that found by simp
    moreover have "length pat \<le> length (drop i ys)" using that len by simp
    ultimately have "prefix pat (drop i ys)"
      by (metis prefixI prefix_length_prefix)
    with that show False using std_search_first by blast
  qed
qed

end
