(* ===== verification/Formats.thy ===== *)
theory Formats
  imports Prelude "HOL-Library.Signed_Division"
begin

text \<open>
  The conversions of the C++ library the program prints with: \<open>%d\<close>, \<open>%04d\<close>-style padding,
  \<open>%zd\<close> and \<open>std::to_string\<close> in decimal, and \<open>snprintf\<close>, which keeps at most one byte less
  than the size of its buffer. Decimal printing is inverted by \<open>undec\<close>, and its length is
  bounded, so that the fixed-size buffers of the source can be shown large enough.
\<close>

definition digit :: "nat \<Rightarrow> char" where
  "digit d = char_of (48 + d)"

fun dec :: "nat \<Rightarrow> char list" where
  "dec n = (if n < 10 then [digit n] else dec (n div 10) @ [digit (n mod 10)])"

declare dec.simps [simp del]

definition undec :: "char list \<Rightarrow> nat" where
  "undec cs = foldl (\<lambda>a c. 10 * a + (of_char c - 48)) 0 cs"

definition is_digit :: "char \<Rightarrow> bool" where
  "is_digit c \<longleftrightarrow> 48 \<le> (of_char c :: nat) \<and> (of_char c :: nat) \<le> 57"

lemma of_char_digit [simp]: "d < 10 \<Longrightarrow> (of_char (digit d) :: nat) = 48 + d"
  by (simp add: digit_def of_char_of)

lemma is_digit_digit [simp]: "d < 10 \<Longrightarrow> is_digit (digit d)"
  by (simp add: is_digit_def)

lemma dec_small: "n < 10 \<Longrightarrow> dec n = [digit n]"
  by (simp add: dec.simps [of n])

lemma dec_large: "\<not> n < 10 \<Longrightarrow> dec n = dec (n div 10) @ [digit (n mod 10)]"
  by (simp add: dec.simps [of n])

lemma undec_snoc [simp]: "undec (cs @ [c]) = 10 * undec cs + (of_char c - 48)"
  by (simp add: undec_def)

lemma undec_dec [simp]: "undec (dec n) = n"
proof (induction n rule: dec.induct)
  case (1 n)
  show ?case
  proof (cases "n < 10")
    case True
    then show ?thesis by (simp add: dec_small undec_def)
  next
    case False
    with 1 show ?thesis by (simp add: dec_large)
  qed
qed

lemma dec_inj [simp]: "dec m = dec n \<longleftrightarrow> m = n"
  by (metis undec_dec)

lemma dec_digits: "c \<in> set (dec n) \<Longrightarrow> is_digit c"
proof (induction n rule: dec.induct)
  case (1 n)
  show ?case
  proof (cases "n < 10")
    case True
    with 1 show ?thesis by (simp add: dec_small)
  next
    case False
    with 1 show ?thesis by (auto simp: dec_large)
  qed
qed

lemma dec_not_Nil [simp]: "dec n \<noteq> []"
  by (cases "n < 10") (simp_all add: dec_small dec_large)

lemma length_dec_le: "n < 10 ^ k \<Longrightarrow> 0 < k \<Longrightarrow> length (dec n) \<le> k"
proof (induction k arbitrary: n)
  case 0
  then show ?case by simp
next
  case (Suc k)
  show ?case
  proof (cases "n < 10")
    case True
    then show ?thesis by (simp add: dec_small)
  next
    case False
    then have "0 < k" using Suc.prems by (cases k) auto
    moreover have "n div 10 < 10 ^ k" using Suc.prems by (simp add: less_mult_imp_div_less)
    ultimately show ?thesis using Suc.IH False by (simp add: dec_large)
  qed
qed

definition dec_int :: "int \<Rightarrow> char list" where
  "dec_int x = (if x < 0 then CHR ''-'' # dec (nat (- x)) else dec (nat x))"

definition pad_zero :: "nat \<Rightarrow> char list \<Rightarrow> char list" where
  "pad_zero w s = replicate (w - length s) (CHR ''0'') @ s"

text \<open>\<open>%0wd\<close>: the sign counts towards the width; \<open>%wd\<close> pads with spaces.\<close>

definition dec_int_zero :: "nat \<Rightarrow> int \<Rightarrow> char list" where
  "dec_int_zero w x =
     (if x < 0 then CHR ''-'' # pad_zero (w - 1) (dec (nat (- x))) else pad_zero w (dec (nat x)))"

definition dec_int_space :: "nat \<Rightarrow> int \<Rightarrow> char list" where
  "dec_int_space w x = (let s = dec_int x in replicate (w - length s) (CHR '' '') @ s)"

definition snprintf_buf :: "nat \<Rightarrow> char list \<Rightarrow> char list" where
  "snprintf_buf n s = take (n - 1) s"

lemma snprintf_fits: "length s < n \<Longrightarrow> snprintf_buf n s = s"
  by (simp add: snprintf_buf_def)

lemma undec_append: "undec (xs @ ys) = undec xs * 10 ^ length ys + undec ys"
proof (induction ys rule: rev_induct)
  case Nil
  then show ?case by (simp add: undec_def)
next
  case (snoc y ys)
  then show ?case by (simp add: append_assoc [symmetric] del: append_assoc)
qed

lemma undec_zeros: "undec (replicate n (CHR ''0'')) = 0"
  by (induction n) (simp_all add: replicate_append_same [symmetric] del: replicate_append_same,
      simp_all add: undec_def)

lemma undec_pad_zero [simp]: "undec (pad_zero w s) = undec s"
  by (simp add: pad_zero_def undec_append undec_zeros)

lemma length_pad_zero: "length (pad_zero w s) = max w (length s)"
  by (simp add: pad_zero_def)

end
