(* ===== verification/Timestamps.thy ===== *)
theory Timestamps
  imports Formats
begin

text \<open>
  \<open>Timestamp\<close> (winterfell/base/wf_timestamp.h, wf_timestamp.cc): microseconds since the epoch in
  an \<open>int64_t\<close>. Signed overflow is undefined in C++, so the arithmetic reports it as a fault.
  The clock (\<open>gettimeofday\<close>) and the calendar (\<open>gmtime_r\<close>) are inputs. \<open>addTime\<close>, which takes
  a \<open>double\<close>, is in the theory of the rate limiter's arithmetic.
\<close>

datatype Timestamp = Timestamp (microSecondsSinceEpoch: int)

definition kMicroSecondsPerSecond :: int where
  "kMicroSecondsPerSecond = 1000000"

definition in_int64 :: "int \<Rightarrow> bool" where
  "in_int64 x \<longleftrightarrow> - (2 ^ 63) \<le> x \<and> x < 2 ^ 63"

definition int64 :: "int \<Rightarrow> int res" where
  "int64 x = (if in_int64 x then Inr x else Inl SignedOverflow)"

definition Timestamp_ok :: "Timestamp \<Rightarrow> bool" where
  "Timestamp_ok t \<longleftrightarrow> in_int64 (microSecondsSinceEpoch t)"

definition ts_default :: Timestamp where
  "ts_default = Timestamp 0"

definition ts_valid :: "Timestamp \<Rightarrow> bool" where
  "ts_valid t \<longleftrightarrow> 0 \<le> microSecondsSinceEpoch t"

definition ts_invalid :: "Timestamp \<Rightarrow> bool" where
  "ts_invalid t \<longleftrightarrow> microSecondsSinceEpoch t < 0"

definition secondsSinceEpoch :: "Timestamp \<Rightarrow> int" where
  "secondsSinceEpoch t = microSecondsSinceEpoch t sdiv kMicroSecondsPerSecond"

definition ts_fromUnixTime :: "int \<Rightarrow> int \<Rightarrow> Timestamp res" where
  "ts_fromUnixTime t us =
     rbind (int64 (t * kMicroSecondsPerSecond)) (\<lambda>m.
     rbind (int64 (m + us)) (\<lambda>x. Inr (Timestamp x)))"

text \<open>\<open>now()\<close>, with what \<open>gettimeofday\<close> stored.\<close>

definition ts_now :: "int \<Rightarrow> int \<Rightarrow> Timestamp res" where
  "ts_now tv_sec tv_usec =
     rbind (int64 (tv_sec * kMicroSecondsPerSecond)) (\<lambda>m.
     rbind (int64 (m + tv_usec)) (\<lambda>x. Inr (Timestamp x)))"

definition ts_sub :: "Timestamp \<Rightarrow> Timestamp \<Rightarrow> Timestamp res" where
  "ts_sub t u =
     rbind (int64 (microSecondsSinceEpoch t - microSecondsSinceEpoch u)) (\<lambda>x. Inr (Timestamp x))"

definition ts_less :: "Timestamp \<Rightarrow> Timestamp \<Rightarrow> bool" where
  "ts_less t u \<longleftrightarrow> microSecondsSinceEpoch t < microSecondsSinceEpoch u"

definition ts_equal :: "Timestamp \<Rightarrow> Timestamp \<Rightarrow> bool" where
  "ts_equal t u \<longleftrightarrow> microSecondsSinceEpoch t = microSecondsSinceEpoch u"

text \<open>\<open>operator<\<close> and \<open>operator==\<close> make timestamps a linear order, so that the library's
  ordered containers and sorting lemmas apply to them.\<close>

instantiation Timestamp :: linorder
begin

definition less_Timestamp :: "Timestamp \<Rightarrow> Timestamp \<Rightarrow> bool" where
  "t < u \<longleftrightarrow> ts_less t u"

definition less_eq_Timestamp :: "Timestamp \<Rightarrow> Timestamp \<Rightarrow> bool" where
  "t \<le> u \<longleftrightarrow> ts_less t u \<or> ts_equal t u"

instance
  by standard
    (auto simp: less_Timestamp_def less_eq_Timestamp_def ts_less_def ts_equal_def Timestamp.expand)

end

lemma Timestamp_less_iff: "t < u \<longleftrightarrow> microSecondsSinceEpoch t < microSecondsSinceEpoch u"
  and Timestamp_le_iff: "t \<le> u \<longleftrightarrow> microSecondsSinceEpoch t \<le> microSecondsSinceEpoch u"
  by (auto simp: less_Timestamp_def less_eq_Timestamp_def ts_less_def ts_equal_def)

lemma Timestamp_less [simp]: "Timestamp a < Timestamp b \<longleftrightarrow> a < b"
  and Timestamp_le [simp]: "Timestamp a \<le> Timestamp b \<longleftrightarrow> a \<le> b"
  by (simp_all add: Timestamp_less_iff Timestamp_le_iff)

section \<open>Printing\<close>

definition ts_toString :: "Timestamp \<Rightarrow> char list" where
  "ts_toString t =
     (let seconds = microSecondsSinceEpoch t sdiv kMicroSecondsPerSecond;
          microseconds = microSecondsSinceEpoch t smod kMicroSecondsPerSecond
      in snprintf_buf 32 (dec_int seconds @ ''.'' @ dec_int_zero 6 microseconds))"

record tm =
  tm_year :: int
  tm_mon :: int
  tm_mday :: int
  tm_hour :: int
  tm_min :: int
  tm_sec :: int

text \<open>\<open>static_cast<int>\<close> of a wider value keeps the low 32 bits, as two's complement.\<close>

definition to_int32 :: "int \<Rightarrow> int" where
  "to_int32 x = signed_take_bit 31 x"

definition date_part :: "tm \<Rightarrow> char list" where
  "date_part tm =
     dec_int_space 4 (tm_year tm + 1900) @ dec_int_zero 2 (tm_mon tm + 1) @ dec_int_zero 2 (tm_mday tm)
     @ '' '' @ dec_int_zero 2 (tm_hour tm) @ '':'' @ dec_int_zero 2 (tm_min tm)
     @ '':'' @ dec_int_zero 2 (tm_sec tm)"

definition ts_toFormattedString :: "(int \<Rightarrow> tm) \<Rightarrow> bool \<Rightarrow> Timestamp \<Rightarrow> char list" where
  "ts_toFormattedString gmtime showMicroseconds t =
     (let seconds = microSecondsSinceEpoch t sdiv kMicroSecondsPerSecond;
          tm_time = gmtime seconds
      in if showMicroseconds then
           let microseconds = to_int32 (microSecondsSinceEpoch t sdiv kMicroSecondsPerSecond)
           in snprintf_buf 64 (date_part tm_time @ ''.'' @ dec_int_zero 6 microseconds)
         else snprintf_buf 64 (date_part tm_time))"

section \<open>Facts\<close>

lemma int64_ok [simp]: "in_int64 x \<Longrightarrow> int64 x = Inr x"
  by (simp add: int64_def)

lemma sdiv_nonneg: "0 \<le> a \<Longrightarrow> 0 < b \<Longrightarrow> a sdiv b = a div (b::int)"
  and smod_nonneg: "0 \<le> a \<Longrightarrow> 0 < b \<Longrightarrow> a smod b = a mod (b::int)"
  by (simp_all add: signed_divide_int_def signed_modulo_int_def sgn_if minus_div_mult_eq_mod)

lemma length_dec_int64:
  assumes "0 \<le> x" "x < 2 ^ 63"
  shows "length (dec (nat (x div 1000000))) \<le> 13"
proof -
  have "x div 1000000 < 10 ^ 13" using assms by (simp add: div_less_iff_less_mult)
  then have "nat (x div 1000000) < nat (10 ^ 13)" by (subst nat_less_eq_zless) (use assms in auto)
  then show ?thesis by (intro length_dec_le) (simp_all add: nat_power_eq)
qed

lemma toString_valid:
  assumes "ts_valid t" "Timestamp_ok t"
  shows "ts_toString t = dec (nat (microSecondsSinceEpoch t div 1000000)) @ ''.''
      @ pad_zero 6 (dec (nat (microSecondsSinceEpoch t mod 1000000)))"
proof -
  let ?u = "microSecondsSinceEpoch t"
  have u: "0 \<le> ?u" "?u < 2 ^ 63" using assms by (simp_all add: ts_valid_def Timestamp_ok_def in_int64_def)
  have "nat (?u mod 1000000) < 10 ^ 6" by simp
  then have l: "length (dec (nat (?u mod 1000000))) \<le> 6" by (rule length_dec_le) simp
  have "length (dec (nat (?u div 1000000)) @ ''.'' @ pad_zero 6 (dec (nat (?u mod 1000000)))) < 32"
    using length_dec_int64 [OF u] l by (simp add: length_pad_zero)
  moreover have "0 \<le> ?u mod 1000000" "0 \<le> ?u div 1000000"
    using u by (simp_all add: pos_imp_zdiv_nonneg_iff)
  ultimately show ?thesis using u
    by (simp add: ts_toString_def Let_def kMicroSecondsPerSecond_def sdiv_nonneg smod_nonneg
        dec_int_def dec_int_zero_def snprintf_fits not_less del: pos_mod_sign)
qed

text \<open>A valid timestamp is printed whole, as its seconds, a point and exactly six digits of
  microseconds: the 32-byte buffer never truncates it, so reading the two decimal numbers back
  gives the timestamp again.\<close>

theorem ts_toString_roundtrip:
  assumes "ts_valid t" "Timestamp_ok t"
  shows "\<exists>secs us. ts_toString t = secs @ ''.'' @ us \<and> length us = 6 \<and> length (ts_toString t) < 32
    \<and> t = Timestamp (int (undec secs) * kMicroSecondsPerSecond + int (undec us))"
proof -
  let ?u = "microSecondsSinceEpoch t"
  have u: "0 \<le> ?u" "?u < 2 ^ 63" using assms by (simp_all add: ts_valid_def Timestamp_ok_def in_int64_def)
  have "nat (?u mod 1000000) < 10 ^ 6" by simp
  then have l: "length (dec (nat (?u mod 1000000))) \<le> 6" by (rule length_dec_le) simp
  let ?secs = "dec (nat (?u div 1000000))" and ?us = "pad_zero 6 (dec (nat (?u mod 1000000)))"
  have str: "ts_toString t = ?secs @ ''.'' @ ?us" by (rule toString_valid [OF assms])
  moreover have "length ?us = 6" using l by (simp add: length_pad_zero)
  moreover have "length (ts_toString t) < 32"
    using length_dec_int64 [OF u] l by (simp add: str length_pad_zero)
  moreover have "t = Timestamp (int (undec ?secs) * kMicroSecondsPerSecond + int (undec ?us))"
    using u by (simp add: kMicroSecondsPerSecond_def pos_imp_zdiv_nonneg_iff)
  ultimately show ?thesis by blast
qed

theorem ts_toString_roundtrip_witness:
  "length (ts_toString (Timestamp 1673012515000042)) < 32"
  using ts_toString_roundtrip [of "Timestamp 1673012515000042"]
  by (auto simp: ts_valid_def Timestamp_ok_def in_int64_def)

text \<open>The "microseconds" that \<open>toFormattedString\<close> prints are not the microseconds. For every
  timestamp before 2038 the field after the point is the whole number of seconds since the epoch,
  so two times within the same second are printed alike.\<close>

theorem toFormattedString_prints_seconds:
  assumes "ts_valid t" "microSecondsSinceEpoch t < 2 ^ 31 * kMicroSecondsPerSecond"
    and "length (date_part (gmtime (secondsSinceEpoch t))) \<le> 50"
  shows "ts_toFormattedString gmtime True t =
    date_part (gmtime (secondsSinceEpoch t)) @ ''.'' @ pad_zero 6 (dec (nat (secondsSinceEpoch t)))"
proof -
  let ?s = "secondsSinceEpoch t"
  have s: "0 \<le> ?s" "?s < 2 ^ 31"
    using assms by (simp_all add: ts_valid_def secondsSinceEpoch_def kMicroSecondsPerSecond_def sdiv_nonneg
        pos_imp_zdiv_nonneg_iff div_less_iff_less_mult)
  then have c: "to_int32 ?s = ?s"
    by (simp add: to_int32_def signed_take_bit_int_eq_self_iff)
  have "nat ?s < 10 ^ 10" using s by (simp add: nat_less_iff)
  then have "length (dec (nat ?s)) \<le> 10" by (rule length_dec_le) simp
  then have "length (date_part (gmtime ?s) @ ''.'' @ pad_zero 6 (dec (nat ?s))) < 64"
    using assms(3) by (simp add: length_pad_zero)
  then show ?thesis using s c
    by (simp add: ts_toFormattedString_def Let_def secondsSinceEpoch_def [symmetric] dec_int_zero_def snprintf_fits)
qed

theorem toFormattedString_prints_seconds_witness:
  "ts_toFormattedString (\<lambda>_. \<lparr>tm_year = 70, tm_mon = 0, tm_mday = 1, tm_hour = 0, tm_min = 0, tm_sec = 7\<rparr>)
     True (Timestamp 7250000) = ''19700101 00:00:07.000007''"
proof -
  let ?g = "\<lambda>_::int. \<lparr>tm_year = 70, tm_mon = 0, tm_mday = 1, tm_hour = 0, tm_min = 0, tm_sec = 7\<rparr>"
  have sec: "secondsSinceEpoch (Timestamp 7250000) = 7"
    by (simp add: secondsSinceEpoch_def kMicroSecondsPerSecond_def)
  have d: "date_part (?g 7) = ''19700101 00:00:07''" and p: "pad_zero 6 (dec 7) = ''000007''"
    by code_simp+
  from d p sec toFormattedString_prints_seconds [of "Timestamp 7250000" ?g] show ?thesis
    by (simp add: ts_valid_def kMicroSecondsPerSecond_def)
qed

end
