(* ===== verification/StdMaps.thy ===== *)
theory StdMaps
  imports Prelude
begin

text \<open>
  \<open>std::map\<close> and \<open>std::multimap\<close> as the program uses them: association lists kept in key
  order, which is the order their iterators run in. Strings are compared as \<open>std::string\<close> does,
  byte by byte as unsigned values. The map interface is a locale, with the facts its clients
  (request and response headers, the connection table, the poller's channel table) rely on.
\<close>

section \<open>std::map\<close>

type_synonym ('k, 'v) stdmap = "('k \<times> 'v) list"

text \<open>\<open>m[k] = v\<close>, \<open>m.find(k)\<close> and \<open>m.erase(k)\<close>.\<close>

fun map_put :: "'k::linorder \<Rightarrow> 'v \<Rightarrow> ('k, 'v) stdmap \<Rightarrow> ('k, 'v) stdmap" where
  "map_put k v [] = [(k, v)]"
| "map_put k v ((a, b) # m) =
     (if k < a then (k, v) # (a, b) # m
      else if k = a then (k, v) # m
      else (a, b) # map_put k v m)"

definition map_find :: "'k::linorder \<Rightarrow> ('k, 'v) stdmap \<Rightarrow> 'v option" where
  "map_find k m = map_of m k"

definition map_erase :: "'k::linorder \<Rightarrow> ('k, 'v) stdmap \<Rightarrow> ('k, 'v) stdmap" where
  "map_erase k m = filter (\<lambda>(a, b). a \<noteq> k) m"

definition map_sorted :: "('k::linorder, 'v) stdmap \<Rightarrow> bool" where
  "map_sorted m \<longleftrightarrow> sorted_wrt (<) (map fst m)"

lemma map_find_put [simp]: "map_find k' (map_put k v m) = (if k' = k then Some v else map_find k' m)"
  unfolding map_find_def by (induction k v m rule: map_put.induct) auto

lemma map_find_Nil [simp]: "map_find k [] = None"
  by (simp add: map_find_def)

lemma map_find_erase [simp]: "map_find k' (map_erase k m) = (if k' = k then None else map_find k' m)"
  unfolding map_find_def map_erase_def by (induction m) auto

lemma keys_map_put [simp]: "fst ` set (map_put k v m) = insert k (fst ` set m)"
  by (induction k v m rule: map_put.induct) auto

lemma map_sorted_Nil [simp, intro]: "map_sorted []"
  by (simp add: map_sorted_def)

lemma map_sorted_put [intro]: "map_sorted m \<Longrightarrow> map_sorted (map_put k v m)"
  unfolding map_sorted_def
proof (induction k v m rule: map_put.induct)
  case (1 k v)
  then show ?case by simp
next
  case (2 k v a b m)
  have "\<forall>x \<in> fst ` set (map_put k v m). x = k \<or> x \<in> fst ` set m" by simp
  with 2 show ?case by fastforce
qed

lemma map_sorted_erase [intro]: "map_sorted m \<Longrightarrow> map_sorted (map_erase k m)"
  unfolding map_sorted_def map_erase_def by (induction m) auto

lemma map_sorted_distinct: "map_sorted m \<Longrightarrow> distinct (map fst m)"
  unfolding map_sorted_def using strict_sorted_iff by blast

lemma map_of_rev_distinct: "distinct (map fst m) \<Longrightarrow> map_of (rev m) = map_of m"
proof (induction m)
  case (Cons p m)
  then have "fst p \<notin> dom (map_of m)" by (simp add: dom_map_of_conv_image_fst)
  with Cons show ?case by (auto simp: map_add_def split: option.split prod.splits)
qed simp

lemma map_erase_absent: "map_find k m = None \<Longrightarrow> map_erase k m = m"
  unfolding map_find_def map_erase_def by (induction m) (auto split: if_splits)

lemma length_map_erase:
  "map_sorted m \<Longrightarrow> map_find k m = Some v \<Longrightarrow> length m = Suc (length (map_erase k m))"
proof (induction m)
  case Nil
  then show ?case by simp
next
  case (Cons p m)
  obtain a b where p: "p = (a, b)" by (cases p)
  show ?case
  proof (cases "a = k")
    case True
    with Cons.prems p have "map_find k m = None"
      by (auto simp: map_sorted_def map_find_def map_of_eq_None_iff)
    then show ?thesis using True p map_erase_absent [of k m] by (simp add: map_erase_def)
  next
    case False
    with Cons p show ?thesis by (simp add: map_sorted_def map_find_def map_erase_def)
  qed
qed

section \<open>The map interface\<close>

fun put_each :: "('k \<Rightarrow> 'v \<Rightarrow> 'm \<Rightarrow> 'm) \<Rightarrow> ('k \<times> 'v) list \<Rightarrow> 'm \<Rightarrow> 'm" where
  "put_each put [] m = m"
| "put_each put ((k, v) # kvs) m = put_each put kvs (put k v m)"

locale key_map =
  fixes empty :: 'm
    and put :: "'k \<Rightarrow> 'v \<Rightarrow> 'm \<Rightarrow> 'm"
    and find :: "'k \<Rightarrow> 'm \<Rightarrow> 'v option"
    and erase :: "'k \<Rightarrow> 'm \<Rightarrow> 'm"
    and valid :: "'m \<Rightarrow> bool"
  assumes find_empty: "find k empty = None"
    and find_put: "valid m \<Longrightarrow> find k' (put k v m) = (if k' = k then Some v else find k' m)"
    and find_erase: "valid m \<Longrightarrow> find k' (erase k m) = (if k' = k then None else find k' m)"
    and valid_empty: "valid empty"
    and valid_put: "valid m \<Longrightarrow> valid (put k v m)"
    and valid_erase: "valid m \<Longrightarrow> valid (erase k m)"
begin

lemma valid_put_each: "valid m \<Longrightarrow> valid (put_each put kvs m)"
proof (induction kvs arbitrary: m)
  case (Cons kv kvs)
  then show ?case by (cases kv) (simp add: valid_put)
qed simp

text \<open>Of several values for one key the last one stays.\<close>

lemma find_put_each:
  "valid m \<Longrightarrow> find k (put_each put kvs m) =
     (case map_of (rev kvs) k of None \<Rightarrow> find k m | Some v \<Rightarrow> Some v)"
proof (induction kvs arbitrary: m)
  case Nil
  then show ?case by simp
next
  case (Cons kv kvs)
  obtain a b where "kv = (a, b)" by (cases kv)
  with Cons valid_put show ?case
    by (auto simp: find_put map_add_def split: option.split)
qed

end

text \<open>A map that iterates in key order: its entries are determined by what it finds.\<close>

locale ordered_map = key_map empty put find erase valid
  for empty :: 'm
    and put :: "'k::linorder \<Rightarrow> 'v \<Rightarrow> 'm \<Rightarrow> 'm"
    and find :: "'k \<Rightarrow> 'm \<Rightarrow> 'v option"
    and erase :: "'k \<Rightarrow> 'm \<Rightarrow> 'm"
    and valid :: "'m \<Rightarrow> bool" +
  fixes entries :: "'m \<Rightarrow> ('k \<times> 'v) list"
  assumes entries_find: "valid m \<Longrightarrow> map_of (entries m) k = find k m"
    and entries_sorted: "valid m \<Longrightarrow> sorted_wrt (<) (map fst (entries m))"
begin

lemma entries_mem: "valid m \<Longrightarrow> (k, v) \<in> set (entries m) \<longleftrightarrow> find k m = Some v"
  using entries_find entries_sorted strict_sorted_iff map_of_eq_Some_iff by metis

lemma entries_unique:
  assumes "valid m" "valid m'" "\<And>k. find k m = find k m'"
  shows "entries m = entries m'"
proof -
  have srt: "sorted (map fst (entries x))" "distinct (map fst (entries x))" if "valid x" for x
    using entries_sorted [OF that] strict_sorted_iff by blast+
  have "set (entries m) = set (entries m')"
    using assms by (auto simp: entries_mem)
  moreover have "inj_on fst (set (entries m))"
    using srt(2) [OF assms(1)] by (simp add: distinct_map)
  ultimately show ?thesis
    using srt assms(1,2) by (intro map_sorted_distinct_set_unique [of fst]) simp_all
qed

end

interpretation sm: ordered_map "[]" map_put map_find map_erase map_sorted "\<lambda>m. m"
proof (unfold_locales, goal_cases)
  case (7 m k)
  then show ?case by (simp add: map_find_def)
next
  case (8 m)
  then show ?case by (simp add: map_sorted_def)
qed auto

section \<open>std::multimap\<close>

text \<open>
  \<open>insert\<close> puts an entry after those with an equal key; \<open>lower_bound(k)\<close> splits the entries
  into those with a smaller key and the rest.
\<close>

fun mm_insert :: "'k::linorder \<Rightarrow> 'v \<Rightarrow> ('k \<times> 'v) list \<Rightarrow> ('k \<times> 'v) list" where
  "mm_insert k v [] = [(k, v)]"
| "mm_insert k v ((a, b) # m) = (if k < a then (k, v) # (a, b) # m else (a, b) # mm_insert k v m)"

definition mm_before :: "'k::linorder \<Rightarrow> ('k \<times> 'v) list \<Rightarrow> ('k \<times> 'v) list" where
  "mm_before k m = takeWhile (\<lambda>(a, b). a < k) m"

definition mm_from :: "'k::linorder \<Rightarrow> ('k \<times> 'v) list \<Rightarrow> ('k \<times> 'v) list" where
  "mm_from k m = dropWhile (\<lambda>(a, b). a < k) m"

definition mm_sorted :: "('k::linorder \<times> 'v) list \<Rightarrow> bool" where
  "mm_sorted m \<longleftrightarrow> sorted (map fst m)"

lemma set_mm_insert [simp]: "set (mm_insert k v m) = insert (k, v) (set m)"
  by (induction k v m rule: mm_insert.induct) auto

lemma mm_sorted_insert [intro]: "mm_sorted m \<Longrightarrow> mm_sorted (mm_insert k v m)"
  unfolding mm_sorted_def by (induction k v m rule: mm_insert.induct) (auto simp: not_less)

lemma mm_before_from: "mm_before k m @ mm_from k m = m"
  by (simp add: mm_before_def mm_from_def)

lemma mm_before_less: "(a, b) \<in> set (mm_before k m) \<Longrightarrow> a < k"
  unfolding mm_before_def by (auto dest: set_takeWhileD)

lemma mm_from_ge: "mm_sorted m \<Longrightarrow> (a, b) \<in> set (mm_from k m) \<Longrightarrow> k \<le> a"
  unfolding mm_sorted_def mm_from_def
  by (induction m) (fastforce split: if_splits)+

lemma mm_before_filter: "mm_sorted m \<Longrightarrow> mm_before k m = filter (\<lambda>(a, b). a < k) m"
  unfolding mm_sorted_def mm_before_def
proof (induction m)
  case (Cons p m)
  then have "\<not> fst p < k \<Longrightarrow> filter (\<lambda>(a, b). a < k) m = []"
    by (fastforce simp: filter_empty_conv)
  with Cons show ?case by (auto split: prod.splits)
qed simp

lemma mm_sorted_before: "mm_sorted m \<Longrightarrow> mm_sorted (mm_before k m)"
  unfolding mm_sorted_def mm_before_def using sorted_takeWhile takeWhile_map sorted_map
  by (metis (mono_tags, lifting) map_append sorted_append takeWhile_dropWhile_id)

lemma mm_sorted_from: "mm_sorted m \<Longrightarrow> mm_sorted (mm_from k m)"
  unfolding mm_sorted_def mm_from_def
  by (metis (mono_tags, lifting) map_append sorted_append takeWhile_dropWhile_id)

end
