(* ===== verification/HttpRequests.thy ===== *)
theory HttpRequests
  imports Timestamps StdMaps
begin

text \<open>
  \<open>HttpRequest\<close> (winterfell/net/http/wf_http_request.h): the parsed request. A pair of
  \<open>const char*\<close> arguments is the string between them; \<open>addHeader\<close> takes the header line and the
  position of its colon. \<open>isspace\<close> is the C locale's.
\<close>

datatype Method = kInvalid | kGet | kPost | kHead | kPut | kDelete

datatype Version = kUnkown | kHttp10 | kHttp11

record HttpRequest =
  req_method :: Method
  req_version :: Version
  req_path :: "char list"
  req_query :: "char list"
  req_receiveTime :: Timestamp
  req_headers :: "(char list, char list) stdmap"

definition HttpRequest_new :: HttpRequest where
  "HttpRequest_new =
     \<lparr>req_method = kInvalid, req_version = kUnkown, req_path = [], req_query = [],
      req_receiveTime = ts_default, req_headers = []\<rparr>"

definition method_of :: "char list \<Rightarrow> Method" where
  "method_of m =
     (if m = ''GET'' then kGet
      else if m = ''POST'' then kPost
      else if m = ''HEAD'' then kHead
      else if m = ''PUT'' then kPut
      else if m = ''DELETE'' then kDelete
      else kInvalid)"

definition setMethod :: "char list \<Rightarrow> HttpRequest \<Rightarrow> (bool \<times> HttpRequest) res" where
  "setMethod m r =
     rassert (req_method r = kInvalid)
       (Inr (method_of m \<noteq> kInvalid, r\<lparr>req_method := method_of m\<rparr>))"

definition methodString :: "HttpRequest \<Rightarrow> char list" where
  "methodString r = (case req_method r of
     kGet \<Rightarrow> ''GET'' | kPost \<Rightarrow> ''POST'' | kHead \<Rightarrow> ''HEAD'' | kPut \<Rightarrow> ''PUT''
   | kDelete \<Rightarrow> ''DELETE'' | kInvalid \<Rightarrow> ''UNKNOWN'')"

definition isspace :: "char \<Rightarrow> bool" where
  "isspace c \<longleftrightarrow> c \<in> {CHR 0x20, CHR 0x09, CHR 0x0A, CHR 0x0B, CHR 0x0C, CHR 0x0D}"

text \<open>The two loops of \<open>addHeader\<close>: skip blanks after the colon, cut blanks at the end.\<close>

fun skip_space :: "char list \<Rightarrow> char list" where
  "skip_space [] = []"
| "skip_space (c # cs) = (if isspace c then skip_space cs else c # cs)"

function trim_end :: "char list \<Rightarrow> char list" where
  "trim_end v = (if v \<noteq> [] \<and> isspace (last v) then trim_end (butlast v) else v)"
  by pat_completeness auto
termination
  by (relation "measure length") auto

declare trim_end.simps [simp del]

definition addHeader :: "char list \<Rightarrow> nat \<Rightarrow> HttpRequest \<Rightarrow> HttpRequest" where
  "addHeader line colon r =
     (let field = take colon line;
          val = trim_end (skip_space (drop (Suc colon) line))
      in r\<lparr>req_headers := map_put field val (req_headers r)\<rparr>)"

definition getHeader :: "char list \<Rightarrow> HttpRequest \<Rightarrow> char list" where
  "getHeader field r = (case map_find field (req_headers r) of None \<Rightarrow> [] | Some v \<Rightarrow> v)"

text \<open>\<open>swap\<close> exchanges every member.\<close>

definition HttpRequest_swap :: "HttpRequest \<Rightarrow> HttpRequest \<Rightarrow> HttpRequest \<times> HttpRequest" where
  "HttpRequest_swap a b =
     (a\<lparr>req_method := req_method b, req_version := req_version b, req_path := req_path b,
        req_query := req_query b, req_receiveTime := req_receiveTime b, req_headers := req_headers b\<rparr>,
      b\<lparr>req_method := req_method a, req_version := req_version a, req_path := req_path a,
        req_query := req_query a, req_receiveTime := req_receiveTime a, req_headers := req_headers a\<rparr>)"

section \<open>Facts\<close>

named_theorems request_simps "the effect of the request setters"

lemma HttpRequest_swap_simp [simp]: "HttpRequest_swap a b = (b, a)"
  by (simp add: HttpRequest_swap_def)

lemma method_of_methodString: "req_method r \<noteq> kInvalid \<Longrightarrow> method_of (methodString r) = req_method r"
  by (cases "req_method r") (simp_all add: methodString_def method_of_def)

lemma methodString_no_space: "CHR '' '' \<notin> set (methodString r)"
  by (cases "req_method r") (simp_all add: methodString_def)

lemma skip_space_id [simp]: "v = [] \<or> \<not> isspace (hd v) \<Longrightarrow> skip_space v = v"
  by (cases v) auto

lemma trim_end_id [simp]: "v = [] \<or> \<not> isspace (last v) \<Longrightarrow> trim_end v = v"
  by (auto simp: trim_end.simps [of v])

lemma trim_end_no_space: "trim_end v = [] \<or> \<not> isspace (last (trim_end v))"
proof (induction v rule: trim_end.induct)
  case (1 v)
  then show ?case by (cases "v \<noteq> [] \<and> isspace (last v)") (auto simp: trim_end.simps [of v])
qed

lemma trim_end_prefix: "\<exists>w. v = trim_end v @ w \<and> (\<forall>c \<in> set w. isspace c)"
proof (induction v rule: trim_end.induct)
  case (1 v)
  show ?case
  proof (cases "v \<noteq> [] \<and> isspace (last v)")
    case True
    with 1 obtain w where w: "butlast v = trim_end (butlast v) @ w" "\<forall>c \<in> set w. isspace c" by blast
    have "v = butlast v @ [last v]" using True by simp
    with w(1) have "v = trim_end (butlast v) @ w @ [last v]" by (metis append_assoc)
    with True w(2) have "v = trim_end v @ (w @ [last v])" "\<forall>c \<in> set (w @ [last v]). isspace c"
      by (simp_all add: trim_end.simps [of v])
    then show ?thesis by blast
  next
    case False
    then show ?thesis by auto
  qed
qed

text \<open>The header map sees the last line of a field name.\<close>

lemma getHeader_addHeader [request_simps]:
  "getHeader f (addHeader line colon r) =
     (if f = take colon line then trim_end (skip_space (drop (Suc colon) line)) else getHeader f r)"
  by (simp add: getHeader_def addHeader_def Let_def)

lemma addHeader_colon:
  assumes "CHR '':'' \<notin> set f" and "v = [] \<or> \<not> isspace (hd v) \<and> \<not> isspace (last v)"
  shows "addHeader (f @ '': '' @ v) (std_find (CHR '':'') (f @ '': '' @ v)) r
    = r\<lparr>req_headers := map_put f v (req_headers r)\<rparr>"
proof -
  have "std_find (CHR '':'') (f @ '': '' @ v) = length f" using assms(1) by simp
  moreover have "skip_space ('' '' @ v) = v" using assms(2) by (auto simp: isspace_def)
  ultimately show ?thesis using assms(2) by (auto simp: addHeader_def)
qed

lemma addHeader_other [request_simps]:
  "req_method (addHeader l c r) = req_method r" "req_version (addHeader l c r) = req_version r"
  "req_path (addHeader l c r) = req_path r" "req_query (addHeader l c r) = req_query r"
  "req_receiveTime (addHeader l c r) = req_receiveTime r"
  by (simp_all add: addHeader_def Let_def)

lemma map_sorted_addHeader [inv_intros]:
  "map_sorted (req_headers r) \<Longrightarrow> map_sorted (req_headers (addHeader l c r))"
  by (auto simp: addHeader_def Let_def)

end
