(* ===== verification/ByteQueues.thy ===== *)
theory ByteQueues
  imports Prelude
begin

text \<open>
  The contract between the byte buffer and its clients (the HTTP parser reads lines from one, a
  connection sends from one): a queue of bytes with a representation invariant. The operations
  return a result, so the contract also says when they fault. The consequences every client
  uses, first-in first-out over a whole run of operations, are proved once in the locale.
\<close>

text \<open>A run of queue operations: the bytes taken out, in order, and the queue left.\<close>

datatype queue_op = Put "char list" | Get int

fun run_queue ::
  "(char list \<Rightarrow> 'q \<Rightarrow> 'q res) \<Rightarrow> (int \<Rightarrow> 'q \<Rightarrow> (char list \<times> 'q) res) \<Rightarrow>
   queue_op list \<Rightarrow> 'q \<Rightarrow> (char list \<times> 'q) res" where
  "run_queue put get [] q = Inr ([], q)"
| "run_queue put get (Put s # ops) q = rbind (put s q) (run_queue put get ops)"
| "run_queue put get (Get n # ops) q =
     rbind (get n q) (\<lambda>(s, q').
     rbind (run_queue put get ops q') (\<lambda>(out, q''). Inr (s @ out, q'')))"

fun put_all :: "(char list \<Rightarrow> 'q \<Rightarrow> 'q res) \<Rightarrow> char list list \<Rightarrow> 'q \<Rightarrow> 'q res" where
  "put_all put [] q = Inr q"
| "put_all put (s # ss) q = rbind (put s q) (put_all put ss)"

text \<open>The bytes put in by a run, and whether every get stays within what is there.\<close>

fun bytes_in :: "queue_op list \<Rightarrow> char list" where
  "bytes_in [] = []"
| "bytes_in (Put s # ops) = s @ bytes_in ops"
| "bytes_in (Get n # ops) = bytes_in ops"

fun gets_within :: "int \<Rightarrow> queue_op list \<Rightarrow> bool" where
  "gets_within k [] = True"
| "gets_within k (Put s # ops) = gets_within (k + int (length s)) ops"
| "gets_within k (Get n # ops) = (0 \<le> n \<and> n \<le> k \<and> gets_within (k - n) ops)"

locale byte_queue =
  fixes new :: "'q"
    and put :: "char list \<Rightarrow> 'q \<Rightarrow> 'q res"
    and get :: "int \<Rightarrow> 'q \<Rightarrow> (char list \<times> 'q) res"
    and bytes :: "'q \<Rightarrow> char list"
    and inv :: "'q \<Rightarrow> bool"
  assumes new_law: "inv new \<and> bytes new = []"
    and put_law: "inv q \<Longrightarrow> \<exists>q'. put s q = Inr q' \<and> inv q' \<and> bytes q' = bytes q @ s"
    and get_law: "inv q \<Longrightarrow> 0 \<le> n \<Longrightarrow> n \<le> int (length (bytes q)) \<Longrightarrow>
      \<exists>q'. get n q = Inr (take (nat n) (bytes q), q') \<and> inv q' \<and> bytes q' = drop (nat n) (bytes q)"
    and get_fault: "inv q \<Longrightarrow> n < 0 \<or> int (length (bytes q)) < n \<Longrightarrow> \<exists>e. get n q = Inl e"
begin

lemma put_Inr: "inv q \<Longrightarrow> put s q = Inr q' \<Longrightarrow> inv q' \<and> bytes q' = bytes q @ s"
  using put_law [of q s] by auto

lemma get_Inr:
  assumes "inv q" "get n q = Inr (s, q')"
  shows "0 \<le> n \<and> n \<le> int (length (bytes q)) \<and> inv q' \<and> bytes q = s @ bytes q'"
proof -
  have "0 \<le> n" "n \<le> int (length (bytes q))"
    using get_fault [of q n] assms by force+
  with get_law [of q n] assms show ?thesis by (auto simp: append_take_drop_id)
qed

lemma put_all_ok:
  "inv q \<Longrightarrow> \<exists>q'. put_all put ss q = Inr q' \<and> inv q' \<and> bytes q' = bytes q @ concat ss"
proof (induction ss arbitrary: q)
  case Nil
  then show ?case by simp
next
  case (Cons s ss)
  from put_law [OF Cons.prems] obtain q1
    where q1: "put s q = Inr q1" "inv q1" "bytes q1 = bytes q @ s" by blast
  with Cons.IH [OF q1(2)] show ?case by auto
qed

text \<open>Bytes come out in the order they went in, none lost, none twice.\<close>

lemma run_fifo:
  "inv q \<Longrightarrow> run_queue put get ops q = Inr (out, q') \<Longrightarrow>
     inv q' \<and> out @ bytes q' = bytes q @ bytes_in ops"
proof (induction ops arbitrary: q out)
  case Nil
  then show ?case by simp
next
  case (Cons op ops)
  show ?case
  proof (cases op)
    case (Put s)
    with Cons.prems(2) obtain q1 where q1: "put s q = Inr q1" "run_queue put get ops q1 = Inr (out, q')"
      by (auto simp: rbind_Inr_iff)
    with put_Inr [OF Cons.prems(1) q1(1)] Cons.IH [of q1 out] Put show ?thesis by simp
  next
    case (Get n)
    with Cons.prems(2) obtain s q1 out1
      where q1: "get n q = Inr (s, q1)" "run_queue put get ops q1 = Inr (out1, q')" "out = s @ out1"
      by (auto simp: rbind_Inr_iff)
    with get_Inr [OF Cons.prems(1) q1(1)] Cons.IH [of q1 out1] Get show ?thesis by simp
  qed
qed

text \<open>A run whose gets stay within what is there faults nowhere; any other run does.\<close>

lemma run_total:
  "inv q \<Longrightarrow> gets_within (int (length (bytes q))) ops \<longleftrightarrow> (\<exists>r. run_queue put get ops q = Inr r)"
proof (induction ops arbitrary: q)
  case Nil
  then show ?case by simp
next
  case (Cons op ops)
  show ?case
  proof (cases op)
    case (Put s)
    from put_law [OF Cons.prems] obtain q1
      where q1: "put s q = Inr q1" "inv q1" "bytes q1 = bytes q @ s" by blast
    with Cons.IH [OF q1(2)] Put show ?thesis by simp
  next
    case (Get n)
    show ?thesis
    proof (cases "0 \<le> n \<and> n \<le> int (length (bytes q))")
      case True
      with get_law [OF Cons.prems] obtain q1
        where q1: "get n q = Inr (take (nat n) (bytes q), q1)" "inv q1"
          "bytes q1 = drop (nat n) (bytes q)" by blast
      have "int (length (bytes q1)) = int (length (bytes q)) - n"
        using True by (auto simp: q1(3))
      with Cons.IH [OF q1(2)] Get q1(1) True show ?thesis
        by (fastforce simp: rbind_Inr_iff)
    next
      case False
      with get_fault [OF Cons.prems, of n] obtain e where "get n q = Inl e" by fastforce
      with False Get show ?thesis by auto
    qed
  qed
qed

end

end
