(* ===== verification/Buffers.thy ===== *)
theory Buffers
  imports ByteQueues
begin

text \<open>
  \<open>Buffer\<close> (winterfell/net/wf_buffer.h, wf_buffer.cc): the byte buffer between a socket and its
  user, a \<open>vector<char>\<close> with a read and a write index. Indices are \<open>ssize_t\<close> values and are
  modelled as \<open>int\<close>: a caller may pass a negative count, which the code does not reject, and a
  vector never reaches 2^63 elements. A \<open>char*\<close> into the buffer is its offset from \<open>begin()\<close>.
  The second half states the byte-queue contract the rest of the program relies on as a locale,
  proves its consequences there, and interprets it on the buffer.
\<close>

section \<open>State and operations\<close>

record Buffer =
  buffer :: "char list"
  readerIndex :: int
  writerIndex :: int

definition kCheapPrepend :: int where
  "kCheapPrepend = 8"

definition kInitialSize :: int where
  "kInitialSize = 1024"

definition kCRLF :: "char list" where
  "kCRLF = [CHR 0x0D, CHR 0x0A]"

definition readableBytes :: "Buffer \<Rightarrow> int" where
  "readableBytes b = writerIndex b - readerIndex b"

definition writableBytes :: "Buffer \<Rightarrow> int" where
  "writableBytes b = int (length (buffer b)) - writerIndex b"

definition prependableBytes :: "Buffer \<Rightarrow> int" where
  "prependableBytes b = readerIndex b"

definition peek :: "Buffer \<Rightarrow> int" where
  "peek b = readerIndex b"

definition beginWrite :: "Buffer \<Rightarrow> int" where
  "beginWrite b = writerIndex b"

text \<open>The constructor, and the assertions it ends with.\<close>

definition Buffer_init :: Buffer where
  "Buffer_init =
     \<lparr>buffer = replicate (nat (kCheapPrepend + kInitialSize)) (CHR 0x00),
      readerIndex = kCheapPrepend, writerIndex = kCheapPrepend\<rparr>"

definition Buffer_new :: "Buffer res" where
  "Buffer_new =
     rassert (readableBytes Buffer_init = 0)
    (rassert (writableBytes Buffer_init = kInitialSize)
    (rassert (prependableBytes Buffer_init = kCheapPrepend) (Inr Buffer_init)))"

text \<open>
  The move constructor: the new object, and the one moved from. Moving the vector empties it;
  \<open>std::move\<close> of an integer copies it, so the old object keeps its indices.
\<close>

definition Buffer_move :: "Buffer \<Rightarrow> Buffer \<times> Buffer" where
  "Buffer_move b =
     (\<lparr>buffer = buffer b, readerIndex = readerIndex b, writerIndex = writerIndex b\<rparr>,
      b\<lparr>buffer := []\<rparr>)"

definition Buffer_swap :: "Buffer \<Rightarrow> Buffer \<Rightarrow> Buffer \<times> Buffer" where
  "Buffer_swap lhs rhs =
     (lhs\<lparr>buffer := buffer rhs, readerIndex := readerIndex rhs, writerIndex := writerIndex rhs\<rparr>,
      rhs\<lparr>buffer := buffer lhs, readerIndex := readerIndex lhs, writerIndex := writerIndex lhs\<rparr>)"

text \<open>The pointer to the first CRLF of the readable bytes, \<open>None\<close> for NULL.\<close>

definition findCRLF :: "Buffer \<Rightarrow> int option" where
  "findCRLF b =
     (let crlf = peek b + int (std_search kCRLF (slice (buffer b) (peek b) (beginWrite b)))
      in if crlf = beginWrite b then None else Some crlf)"

definition retrieve :: "int \<Rightarrow> Buffer \<Rightarrow> Buffer res" where
  "retrieve n b = rassert (n \<le> readableBytes b) (Inr (b\<lparr>readerIndex := readerIndex b + n\<rparr>))"

definition retrieveAll :: "Buffer \<Rightarrow> Buffer" where
  "retrieveAll b = b\<lparr>readerIndex := kCheapPrepend, writerIndex := kCheapPrepend\<rparr>"

definition retrieveUntil :: "int \<Rightarrow> Buffer \<Rightarrow> Buffer res" where
  "retrieveUntil ptr b =
     rassert (peek b \<le> ptr) (rassert (ptr \<le> beginWrite b) (retrieve (ptr - peek b) b))"

definition retrieveAllAsString :: "Buffer \<Rightarrow> (char list \<times> Buffer) res" where
  "retrieveAllAsString b =
     rbind (read_range (buffer b) (peek b) (readableBytes b)) (\<lambda>str. Inr (str, retrieveAll b))"

definition retrieveAsString :: "int \<Rightarrow> Buffer \<Rightarrow> (char list \<times> Buffer) res" where
  "retrieveAsString n b =
     rbind (read_range (buffer b) (peek b) n) (\<lambda>str.
     rbind (retrieve n b) (\<lambda>b'. Inr (str, b')))"

text \<open>\<open>vector::resize\<close> truncates or pads with zero bytes.\<close>

definition vec_resize :: "int \<Rightarrow> char list \<Rightarrow> char list" where
  "vec_resize n xs = take (nat n) xs @ replicate (nat n - length xs) (CHR 0x00)"

definition makeSpace :: "int \<Rightarrow> Buffer \<Rightarrow> Buffer" where
  "makeSpace len b =
     (if writableBytes b + prependableBytes b < len + kCheapPrepend
      then b\<lparr>buffer := vec_resize (writerIndex b + len) (buffer b)\<rparr>
      else let readable = readableBytes b in
        b\<lparr>buffer := copy_within (nat readable) (nat (readerIndex b)) (nat kCheapPrepend) (buffer b),
          readerIndex := kCheapPrepend,
          writerIndex := kCheapPrepend + readable\<rparr>)"

definition append_buf :: "char list \<Rightarrow> Buffer \<Rightarrow> Buffer res" where
  "append_buf s b =
     (let len = int (length s);
          b' = (if writableBytes b < len then makeSpace len b else b)
      in rbind (copy_in (buffer b') (beginWrite b') s) (\<lambda>xs.
           Inr (b'\<lparr>buffer := xs, writerIndex := writerIndex b' + len\<rparr>)))"

definition prepend_buf :: "char list \<Rightarrow> Buffer \<Rightarrow> Buffer res" where
  "prepend_buf s b =
     (let len = int (length s) in
      rassert (len \<le> prependableBytes b)
        (let r = readerIndex b - len in
         rbind (copy_in (buffer b) r s) (\<lambda>xs. Inr (b\<lparr>buffer := xs, readerIndex := r\<rparr>))))"

text \<open>
  \<open>readFd\<close>: what \<open>readv\<close> delivered is an input, the error number or the bytes it scattered over
  the writable part and the 65536 bytes of the stack buffer. The result is the returned count,
  the value stored through \<open>savedErrno\<close> if any, and the buffer.
\<close>

datatype readv_result = ReadvError int | ReadvBytes "char list"

definition kExtraBuf :: int where
  "kExtraBuf = 65536"

definition readFd :: "readv_result \<Rightarrow> Buffer \<Rightarrow> (int \<times> int option \<times> Buffer) res" where
  "readFd r b = (case r of
     ReadvError err \<Rightarrow> Inr (-1, Some err, b)
   | ReadvBytes bs \<Rightarrow>
       (let n = int (length bs); writable = writableBytes b;
            vec0 = take (nat writable) bs; extra = drop (nat writable) bs
        in rbind (copy_in (buffer b) (writerIndex b) vec0) (\<lambda>xs.
           if n \<le> writable then Inr (n, None, b\<lparr>buffer := xs, writerIndex := writerIndex b + n\<rparr>)
           else rbind (append_buf extra (b\<lparr>buffer := xs, writerIndex := int (length xs)\<rparr>))
                  (\<lambda>b'. Inr (n, None, b')))))"

section \<open>Invariant and contents\<close>

definition Buffer_inv :: "Buffer \<Rightarrow> bool" where
  "Buffer_inv b \<longleftrightarrow>
     0 \<le> readerIndex b \<and> readerIndex b \<le> writerIndex b \<and> writerIndex b \<le> int (length (buffer b))
     \<and> kCheapPrepend \<le> int (length (buffer b))"

text \<open>The abstraction: the bytes between the two indices, in order.\<close>

definition contents :: "Buffer \<Rightarrow> char list" where
  "contents b = slice (buffer b) (readerIndex b) (writerIndex b)"

lemmas buffer_defs =
  readableBytes_def writableBytes_def prependableBytes_def peek_def beginWrite_def
  kCheapPrepend_def kInitialSize_def

lemma Buffer_new_ok [simp]: "Buffer_new = Inr Buffer_init"
  by (simp add: Buffer_new_def Buffer_init_def buffer_defs)

lemma Buffer_inv_init [inv_intros]: "Buffer_inv Buffer_init"
  by (simp add: Buffer_inv_def Buffer_init_def buffer_defs)

lemma contents_init [queue_simps]: "contents Buffer_init = []"
  by (simp add: contents_def Buffer_init_def)

lemma length_contents: "Buffer_inv b \<Longrightarrow> int (length (contents b)) = readableBytes b"
  by (simp add: Buffer_inv_def contents_def buffer_defs)

lemma Buffer_inv_retrieveAll [inv_intros]: "Buffer_inv b \<Longrightarrow> Buffer_inv (retrieveAll b)"
  by (simp add: Buffer_inv_def retrieveAll_def kCheapPrepend_def)

lemma contents_retrieveAll [queue_simps]: "contents (retrieveAll b) = []"
  by (simp add: contents_def retrieveAll_def)

subsection \<open>Taking bytes out\<close>

lemma retrieve_ok:
  assumes "Buffer_inv b" "0 \<le> n" "n \<le> int (length (contents b))"
  shows "\<exists>b'. retrieve n b = Inr b' \<and> Buffer_inv b' \<and> contents b' = drop (nat n) (contents b)"
  using assms
  by (auto simp: retrieve_def Buffer_inv_def contents_def buffer_defs drop_slice)

lemma retrieveAsString_ok:
  assumes "Buffer_inv b" "0 \<le> n" "n \<le> int (length (contents b))"
  shows "\<exists>b'. retrieveAsString n b = Inr (take (nat n) (contents b), b') \<and> Buffer_inv b'
    \<and> contents b' = drop (nat n) (contents b)"
proof -
  from assms have "n \<le> writerIndex b - readerIndex b"
    by (simp add: length_contents buffer_defs)
  with assms have "read_range (buffer b) (peek b) n = Inr (take (nat n) (contents b))"
    by (simp add: read_range_def Buffer_inv_def contents_def take_slice peek_def)
  then show ?thesis using retrieve_ok [OF assms] by (auto simp: retrieveAsString_def)
qed

lemma retrieveAllAsString_ok:
  assumes "Buffer_inv b"
  shows "retrieveAllAsString b = Inr (contents b, retrieveAll b)"
  using assms
  by (simp add: retrieveAllAsString_def read_range_def Buffer_inv_def contents_def buffer_defs)

subsection \<open>Making space\<close>

text \<open>
  The compaction moves the readable bytes down: it is only reached with the read index past the
  prepend area, so the overlapping forward copy is safe.
\<close>

lemma makeSpace_compaction_moves_down:
  assumes "Buffer_inv b" "writableBytes b < len"
    and "\<not> writableBytes b + prependableBytes b < len + kCheapPrepend"
  shows "kCheapPrepend < readerIndex b"
  using assms by (simp add: buffer_defs)

lemma makeSpace_ok:
  assumes inv: "Buffer_inv b" and full: "writableBytes b < len"
  shows "Buffer_inv (makeSpace len b) \<and> contents (makeSpace len b) = contents b
    \<and> len \<le> writableBytes (makeSpace len b)"
proof (cases "writableBytes b + prependableBytes b < len + kCheapPrepend")
  case True
  have "vec_resize (writerIndex b + len) (buffer b) = buffer b
      @ replicate (nat (writerIndex b + len) - length (buffer b)) (CHR 0x00)"
    using full inv by (simp add: vec_resize_def Buffer_inv_def buffer_defs)
  then show ?thesis using True inv full
    by (auto simp: makeSpace_def Buffer_inv_def contents_def slice_def buffer_defs)
next
  case False
  let ?r = "nat (readerIndex b)" and ?n = "nat (readableBytes b)"
  have r: "8 < readerIndex b" and idx: "readerIndex b \<le> writerIndex b"
    and w: "writerIndex b \<le> int (length (buffer b))"
    using makeSpace_compaction_moves_down [OF inv full False] inv
    by (simp_all add: Buffer_inv_def kCheapPrepend_def)
  have "copy_within ?n ?r 8 (buffer b)
      = take 8 (buffer b) @ contents b @ drop (8 + ?n) (buffer b)"
    using r idx w by (simp add: copy_within_down contents_def slice_def buffer_defs)
  then have ms: "makeSpace len b = b\<lparr>buffer := take 8 (buffer b) @ contents b @ drop (8 + ?n) (buffer b),
      readerIndex := 8, writerIndex := 8 + readableBytes b\<rparr>"
    using False by (simp add: makeSpace_def Let_def kCheapPrepend_def)
  have len: "int (length (contents b)) = readableBytes b"
    using inv by (rule length_contents)
  have len': "length (contents b) = ?n" using len by simp
  have l8: "length (take 8 (buffer b)) = 8" using r idx w by simp
  have "contents (makeSpace len b) = contents b"
    using l8 len' by (simp add: ms contents_def [of "b\<lparr>buffer := _, readerIndex := _, writerIndex := _\<rparr>"] slice_def)
  moreover have "Buffer_inv (makeSpace len b)" "len \<le> writableBytes (makeSpace len b)"
    using False full r idx w len' by (auto simp: ms Buffer_inv_def buffer_defs)
  ultimately show ?thesis by blast
qed

subsection \<open>Putting bytes in\<close>

lemma append_fits:
  assumes "Buffer_inv b" "int (length s) \<le> writableBytes b"
  shows "\<exists>xs. copy_in (buffer b) (beginWrite b) s = Inr xs
    \<and> Buffer_inv (b\<lparr>buffer := xs, writerIndex := writerIndex b + int (length s)\<rparr>)
    \<and> contents (b\<lparr>buffer := xs, writerIndex := writerIndex b + int (length s)\<rparr>) = contents b @ s
    \<and> length xs = length (buffer b)"
proof -
  let ?r = "nat (readerIndex b)" and ?w = "nat (writerIndex b)"
  let ?xs = "take ?w (buffer b) @ s @ drop (?w + length s) (buffer b)"
  from assms have idx: "?r \<le> ?w" "?w + length s \<le> length (buffer b)" "0 \<le> readerIndex b" "0 \<le> writerIndex b"
    by (auto simp: Buffer_inv_def buffer_defs)
  have "copy_in (buffer b) (beginWrite b) s = Inr ?xs"
    using assms by (simp add: copy_in_def Buffer_inv_def buffer_defs)
  moreover have "contents (b\<lparr>buffer := ?xs, writerIndex := writerIndex b + int (length s)\<rparr>) = contents b @ s"
    using idx by (simp add: contents_def slice_def drop_take nat_add_distrib nat_diff_distrib)
  moreover have "length ?xs = length (buffer b)" using idx by simp
  ultimately show ?thesis using assms by (fastforce simp: Buffer_inv_def buffer_defs)
qed

lemma append_ok:
  assumes "Buffer_inv b"
  shows "\<exists>b'. append_buf s b = Inr b' \<and> Buffer_inv b' \<and> contents b' = contents b @ s"
proof -
  let ?b = "if writableBytes b < int (length s) then makeSpace (int (length s)) b else b"
  have "Buffer_inv ?b" "contents ?b = contents b" "int (length s) \<le> writableBytes ?b"
    using assms makeSpace_ok [OF assms] by auto
  with append_fits [of ?b s] show ?thesis
    by (auto simp: append_buf_def Let_def simp del: if_split)
qed

lemma prepend_ok:
  assumes inv: "Buffer_inv b" and room: "int (length s) \<le> prependableBytes b"
  shows "\<exists>b'. prepend_buf s b = Inr b' \<and> Buffer_inv b' \<and> contents b' = s @ contents b"
proof -
  let ?p = "nat (readerIndex b - int (length s))"
  let ?xs = "take ?p (buffer b) @ s @ drop (?p + length s) (buffer b)"
  have r: "readerIndex b = int (?p + length s)" using room by (simp add: buffer_defs)
  have bounds: "?p + length s \<le> nat (writerIndex b)" "nat (writerIndex b) \<le> length (buffer b)"
    using inv room by (auto simp: Buffer_inv_def buffer_defs)
  have "prepend_buf s b = Inr (b\<lparr>buffer := ?xs, readerIndex := int ?p\<rparr>)"
    using inv room by (simp add: prepend_buf_def Let_def copy_in_def Buffer_inv_def buffer_defs)
  moreover have "contents (b\<lparr>buffer := ?xs, readerIndex := int ?p\<rparr>) = s @ contents b"
  proof -
    have "nat (writerIndex b - int ?p) = length s + nat (writerIndex b - readerIndex b)"
      and "nat (readerIndex b) = ?p + length s"
      using bounds room by (simp_all add: buffer_defs)
    then show ?thesis using bounds by (simp add: contents_def slice_def)
  qed
  moreover have "Buffer_inv (b\<lparr>buffer := ?xs, readerIndex := int ?p\<rparr>)"
    using inv bounds r by (auto simp: Buffer_inv_def)
  ultimately show ?thesis by blast
qed

subsection \<open>Reading from the socket\<close>

lemma readFd_ok:
  assumes inv: "Buffer_inv b"
  shows "\<exists>b'. readFd (ReadvBytes bs) b = Inr (int (length bs), None, b') \<and> Buffer_inv b'
    \<and> contents b' = contents b @ bs"
proof (cases "int (length bs) \<le> writableBytes b")
  case True
  then have "take (nat (writableBytes b)) bs = bs" by simp
  with True append_fits [OF inv True] show ?thesis
    by (auto simp: readFd_def Let_def beginWrite_def)
next
  case False
  let ?v = "take (nat (writableBytes b)) bs" and ?x = "drop (nat (writableBytes b)) bs"
  have "0 \<le> writableBytes b" using inv by (simp add: Buffer_inv_def writableBytes_def)
  with False have lv: "int (length ?v) = writableBytes b" by simp
  then obtain xs where xs: "copy_in (buffer b) (writerIndex b) ?v = Inr xs"
      "Buffer_inv (b\<lparr>buffer := xs, writerIndex := writerIndex b + writableBytes b\<rparr>)"
      "contents (b\<lparr>buffer := xs, writerIndex := writerIndex b + writableBytes b\<rparr>) = contents b @ ?v"
      "length xs = length (buffer b)"
    using append_fits [OF inv, of ?v] by (auto simp: beginWrite_def)
  moreover have "writerIndex b + writableBytes b = int (length xs)"
    using xs(4) by (simp add: writableBytes_def)
  ultimately obtain b' where "append_buf ?x (b\<lparr>buffer := xs, writerIndex := int (length xs)\<rparr>) = Inr b'"
      "Buffer_inv b'" "contents b' = (contents b @ ?v) @ ?x"
    using append_ok by metis
  with False xs(1) show ?thesis by (auto simp: readFd_def Let_def)
qed

subsection \<open>Lines\<close>

text \<open>The first line of a byte string and what follows its CRLF.\<close>

fun split_crlf :: "char list \<Rightarrow> (char list \<times> char list) option" where
  "split_crlf [] = None"
| "split_crlf (c # cs) =
     (if prefix kCRLF (c # cs) then Some ([], tl cs)
      else map_option (\<lambda>(l, r). (c # l, r)) (split_crlf cs))"

lemma split_crlf_search:
  "split_crlf xs =
     (let k = std_search kCRLF xs
      in if k = length xs then None else Some (take k xs, drop (k + 2) xs))"
proof (induction xs)
  case Nil
  then show ?case by simp
next
  case (Cons c cs)
  have "prefix kCRLF (c # cs) \<Longrightarrow> drop 1 cs = drop 2 (c # cs)" by simp
  with Cons show ?case by (auto simp: Let_def drop_Suc)
qed

lemma split_crlf_Some: "split_crlf xs = Some (l, r) \<Longrightarrow> xs = l @ kCRLF @ r"
proof (induction xs arbitrary: l)
  case Nil
  then show ?case by simp
next
  case (Cons c cs)
  then show ?case by (auto simp: kCRLF_def split: if_splits elim!: prefixE)
qed

lemma split_crlf_None: "split_crlf xs = None \<longleftrightarrow> \<not> sublist kCRLF xs"
  by (induction xs) (auto simp: sublist_Cons_right kCRLF_def)

lemma split_crlf_first: "split_crlf xs = Some (l, r) \<Longrightarrow> \<not> sublist kCRLF (l @ [CHR 0x0D])"
proof (induction xs arbitrary: l)
  case Nil
  then show ?case by simp
next
  case (Cons c cs)
  show ?case
  proof (cases "prefix kCRLF (c # cs)")
    case True
    with Cons.prems show ?thesis by (auto simp: kCRLF_def sublist_Cons_right)
  next
    case False
    with Cons.prems obtain l' where l: "l = c # l'" and s: "split_crlf cs = Some (l', r)"
      by auto
    from s have "cs = l' @ kCRLF @ r" by (rule split_crlf_Some)
    with False have "\<not> prefix kCRLF (c # l' @ [CHR 0x0D])"
      by (cases l') (auto simp: kCRLF_def)
    with Cons.IH [OF s] l show ?thesis by (simp add: sublist_Cons_right)
  qed
qed

lemma split_crlf_append: "split_crlf xs = Some (l, r) \<Longrightarrow> split_crlf (xs @ ys) = Some (l, r @ ys)"
proof (induction xs arbitrary: l)
  case Nil
  then show ?case by simp
next
  case (Cons c cs)
  show ?case
  proof (cases "prefix kCRLF (c # cs)")
    case True
    then show ?thesis using Cons.prems by (auto simp: kCRLF_def elim!: prefixE)
  next
    case False
    with Cons.prems obtain l' where l: "l = c # l'" "split_crlf cs = Some (l', r)" by auto
    with split_crlf_Some have "cs = l' @ kCRLF @ r" by blast
    with False have "\<not> prefix kCRLF (c # cs @ ys)" by (cases l') (auto simp: kCRLF_def)
    with l Cons.IH [OF l(2)] show ?thesis by simp
  qed
qed

lemma split_crlf_line: "\<not> sublist kCRLF (l @ [CHR 0x0D]) \<Longrightarrow> split_crlf (l @ kCRLF @ r) = Some (l, r)"
proof (induction l)
  case Nil
  then show ?case by (simp add: kCRLF_def)
next
  case (Cons c l)
  then have "\<not> sublist kCRLF (l @ [CHR 0x0D])" "\<not> prefix kCRLF (c # l @ [CHR 0x0D])"
    by (simp_all add: sublist_Cons_right)
  then show ?case using Cons.IH by (cases l) (auto simp: kCRLF_def)
qed

lemma findCRLF_split:
  assumes "Buffer_inv b"
  shows "findCRLF b = map_option (\<lambda>(l, r). peek b + int (length l)) (split_crlf (contents b))"
proof -
  let ?k = "std_search kCRLF (contents b)"
  have len: "int (length (contents b)) = beginWrite b - peek b"
    using length_contents [OF assms] by (simp add: buffer_defs)
  have "?k \<le> length (contents b)" by (rule std_search_le)
  moreover have "slice (buffer b) (peek b) (beginWrite b) = contents b"
    by (simp add: contents_def buffer_defs)
  ultimately show ?thesis using len
    by (auto simp: findCRLF_def split_crlf_search Let_def)
qed

lemma retrieveUntil_ok:
  assumes "Buffer_inv b" "0 \<le> n" "n \<le> int (length (contents b))"
  shows "\<exists>b'. retrieveUntil (peek b + n) b = Inr b' \<and> Buffer_inv b' \<and> contents b' = drop (nat n) (contents b)"
proof -
  have "peek b + n \<le> beginWrite b"
    using assms length_contents [of b] by (simp add: buffer_defs)
  with retrieve_ok [OF assms] assms(2) show ?thesis by (simp add: retrieveUntil_def)
qed

section \<open>The buffer is a byte queue\<close>

lemma retrieveAsString_fault:
  assumes "Buffer_inv b" "n < 0 \<or> int (length (contents b)) < n"
  shows "\<exists>e. retrieveAsString n b = Inl e"
proof (cases "read_range (buffer b) (peek b) n")
  case (Inl e)
  then show ?thesis by (simp add: retrieveAsString_def)
next
  case (Inr s)
  then have "0 \<le> n" by (simp add: read_range_def split: if_splits)
  with assms have "\<not> n \<le> readableBytes b" using length_contents [of b] by simp
  with Inr show ?thesis by (simp add: retrieveAsString_def retrieve_def)
qed

interpretation bq: byte_queue Buffer_init append_buf retrieveAsString contents Buffer_inv
proof (unfold_locales, goal_cases)
  case 1
  show ?case by (simp add: inv_intros queue_simps)
next
  case (2 q s)
  then show ?case by (rule append_ok)
next
  case (3 q n)
  then show ?case by (rule retrieveAsString_ok)
next
  case (4 q n)
  then show ?case by (rule retrieveAsString_fault)
qed

section \<open>Properties\<close>

text \<open>C2: the buffer is a first-in first-out byte queue. Whatever sequence of appends and reads
  runs on a well-formed buffer without a fault, the bytes read followed by the bytes still readable
  are the bytes that were readable followed by the bytes appended, and the buffer stays well formed:
  no growth, compaction or index update loses, repeats or reorders a byte.\<close>

theorem buffer_fifo:
  assumes "Buffer_inv b" and "run_queue append_buf retrieveAsString ops b = Inr (out, b')"
  shows "Buffer_inv b' \<and> out @ contents b' = contents b @ bytes_in ops"
  using assms by (rule bq.run_fifo)

theorem buffer_fifo_witness:
  "\<exists>b'. contents b' = ''cde'' \<and> Buffer_inv b'
     \<and> run_queue append_buf retrieveAsString [Put ''abc'', Get 2, Put ''de''] Buffer_init = Inr (''ab'', b')"
proof -
  have "gets_within (int (length (contents Buffer_init))) [Put ''abc'', Get 2, Put ''de'']"
    by (simp add: queue_simps)
  then obtain out b' where r: "run_queue append_buf retrieveAsString [Put ''abc'', Get 2, Put ''de''] Buffer_init = Inr (out, b')"
    using bq.run_total [OF Buffer_inv_init] by fastforce
  from buffer_fifo [OF Buffer_inv_init r] have inv: "Buffer_inv b'" and o: "out @ contents b' = ''abcde''"
    by (simp_all add: queue_simps)
  from r have "length out = 2"
    by (auto simp: rbind_Inr_iff retrieveAsString_def read_range_def slice_def split: if_splits)
  with o have "out = ''ab''" "contents b' = ''cde''"
    by (auto simp: append_eq_append_conv2 length_Suc_conv numeral_2_eq_2 Cons_eq_append_conv)
  with r inv show ?thesis by blast
qed

text \<open>C33: which buffer operations fault. A run of appends and reads on a well-formed buffer
  faults nowhere exactly when each read asks for a count between zero and the readable bytes; in
  particular an append never writes outside the vector, whatever the length appended.\<close>

theorem buffer_faults_exactly_on_overdraw:
  assumes "Buffer_inv b"
  shows "(\<exists>r. run_queue append_buf retrieveAsString ops b = Inr r)
    \<longleftrightarrow> gets_within (readableBytes b) ops"
  using bq.run_total [OF assms, of ops] length_contents [OF assms] by simp

theorem buffer_faults_exactly_on_overdraw_witness:
  "Buffer_inv Buffer_init \<and> (\<nexists>r. run_queue append_buf retrieveAsString [Put ''abc'', Get 4] Buffer_init = Inr r)"
  using buffer_faults_exactly_on_overdraw [OF Buffer_inv_init, of "[Put ''abc'', Get 4]"] Buffer_inv_init
  by (simp add: Buffer_init_def readableBytes_def)

text \<open>Making space. When the writable part is too small, \<open>makeSpace(len)\<close> keeps the readable
  bytes and the invariant and leaves at least \<open>len\<close> writable bytes; it moves the readable bytes to
  the front without growing the vector whenever the free space at both ends holds \<open>len\<close> bytes and
  the prepend area, and that forward copy moves towards lower offsets, so the overlap is safe.\<close>

theorem makeSpace_correct:
  assumes "Buffer_inv b" and "writableBytes b < len"
  shows "Buffer_inv (makeSpace len b) \<and> contents (makeSpace len b) = contents b
    \<and> len \<le> writableBytes (makeSpace len b)
    \<and> (if len + kCheapPrepend \<le> writableBytes b + prependableBytes b
       then length (buffer (makeSpace len b)) = length (buffer b) \<and> kCheapPrepend < readerIndex b
         \<and> prependableBytes (makeSpace len b) = kCheapPrepend
       else readerIndex (makeSpace len b) = readerIndex b)"
  using makeSpace_ok [OF assms] makeSpace_compaction_moves_down [OF assms]
  by (auto simp: makeSpace_def Let_def prependableBytes_def)

theorem makeSpace_correct_witness:
  "contents (makeSpace 5 \<lparr>buffer = replicate 12 (CHR ''x'') @ ''abcd'', readerIndex = 13, writerIndex = 16\<rparr>) = ''bcd''
   \<and> length (buffer (makeSpace 5 \<lparr>buffer = replicate 12 (CHR ''x'') @ ''abcd'', readerIndex = 13, writerIndex = 16\<rparr>)) = 16"
proof -
  let ?b = "\<lparr>buffer = replicate 12 (CHR ''x'') @ ''abcd'', readerIndex = 13, writerIndex = 16\<rparr> :: Buffer"
  have "Buffer_inv ?b" "writableBytes ?b < 5" "contents ?b = ''bcd''" "length (buffer ?b) = 16"
    by (simp_all add: Buffer_inv_def buffer_defs contents_def slice_def numeral_eq_Suc)
  with makeSpace_correct [of ?b 5] show ?thesis by (auto simp: buffer_defs)
qed

text \<open>\<open>readFd\<close> appends exactly the bytes \<open>readv\<close> delivered, whether they fit in the writable
  part or spill into the stack buffer, and returns their count; on an error it returns -1, stores
  the error number and leaves the buffer alone.\<close>

theorem readFd_correct:
  assumes "Buffer_inv b"
  shows "(case r of
      ReadvError err \<Rightarrow> readFd r b = Inr (-1, Some err, b)
    | ReadvBytes bs \<Rightarrow> (\<exists>b'. readFd r b = Inr (int (length bs), None, b') \<and> Buffer_inv b'
        \<and> contents b' = contents b @ bs))"
  using readFd_ok [OF assms] by (simp add: readFd_def split: readv_result.split)

theorem readFd_correct_witness:
  "\<exists>b'. readFd (ReadvBytes ''xyz'') Buffer_init = Inr (3, None, b') \<and> contents b' = ''xyz''"
  using readFd_correct [OF Buffer_inv_init, of "ReadvBytes ''xyz''"] by (auto simp: queue_simps)

text \<open>\<open>findCRLF\<close> returns the first CRLF of the readable bytes: NULL exactly when they hold
  none, otherwise the pointer whose offset splits them into a line without a CRLF, the CRLF and
  the rest.\<close>

theorem findCRLF_correct:
  assumes "Buffer_inv b"
  shows "(findCRLF b = None \<longleftrightarrow> \<not> sublist kCRLF (contents b))
    \<and> (findCRLF b = Some p \<longleftrightarrow>
       (\<exists>line rest. contents b = line @ kCRLF @ rest \<and> p = peek b + int (length line)
          \<and> \<not> sublist kCRLF (line @ [CHR 0x0D])))"
proof
  show "findCRLF b = None \<longleftrightarrow> \<not> sublist kCRLF (contents b)"
    by (simp add: findCRLF_split [OF assms] split_crlf_None)
  show "findCRLF b = Some p \<longleftrightarrow>
       (\<exists>line rest. contents b = line @ kCRLF @ rest \<and> p = peek b + int (length line)
          \<and> \<not> sublist kCRLF (line @ [CHR 0x0D]))" (is "?L = ?R")
  proof
    assume ?L
    then obtain l r where "split_crlf (contents b) = Some (l, r)" "p = peek b + int (length l)"
      by (auto simp: findCRLF_split [OF assms])
    then show ?R using split_crlf_Some split_crlf_first by blast
  next
    assume ?R
    then show ?L by (auto simp: findCRLF_split [OF assms] split_crlf_line)
  qed
qed

theorem findCRLF_correct_witness:
  "findCRLF \<lparr>buffer = replicate 8 (CHR ''x'') @ ''ab'' @ kCRLF @ ''c'', readerIndex = 8, writerIndex = 13\<rparr> = Some 10"
proof -
  let ?b = "\<lparr>buffer = replicate 8 (CHR ''x'') @ ''ab'' @ kCRLF @ ''c'', readerIndex = 8, writerIndex = 13\<rparr> :: Buffer"
  have inv: "Buffer_inv ?b" by (simp add: Buffer_inv_def kCRLF_def kCheapPrepend_def)
  have "contents ?b = ''ab'' @ kCRLF @ ''c''" "peek ?b = 8"
    by (simp_all add: contents_def slice_def peek_def kCRLF_def)
  moreover have "\<not> sublist kCRLF (''ab'' @ [CHR 0x0D])"
    by (simp add: kCRLF_def sublist_Cons_right)
  ultimately have "\<exists>line rest. contents ?b = line @ kCRLF @ rest \<and> 10 = peek ?b + int (length line)
      \<and> \<not> sublist kCRLF (line @ [CHR 0x0D])"
    by (intro exI [of _ "''ab''"] exI [of _ "''c''"]) simp
  with findCRLF_correct [OF inv, of 10] show ?thesis by blast
qed

text \<open>Prepending. A header that fits in the prepend area is read back first, and the bytes
  that were readable before follow it unchanged; a header that does not fit fails the assertion.\<close>

theorem prepend_roundtrip:
  assumes "Buffer_inv b"
  shows "if int (length s) \<le> prependableBytes b
    then \<exists>b1 b2. prepend_buf s b = Inr b1 \<and> retrieveAsString (int (length s)) b1 = Inr (s, b2)
           \<and> Buffer_inv b2 \<and> contents b2 = contents b
    else prepend_buf s b = Inl AssertFailed"
proof (cases "int (length s) \<le> prependableBytes b")
  case True
  with prepend_ok [OF assms] obtain b1
    where b1: "prepend_buf s b = Inr b1" "Buffer_inv b1" "contents b1 = s @ contents b" by blast
  with retrieveAsString_ok [OF b1(2), of "int (length s)"] True show ?thesis by auto
next
  case False
  then show ?thesis by (simp add: prepend_buf_def)
qed

theorem prepend_roundtrip_witness:
  "\<exists>b1 b2. prepend_buf ''len'' Buffer_init = Inr b1 \<and> retrieveAsString 3 b1 = Inr (''len'', b2)
     \<and> contents b2 = []"
proof -
  have "prependableBytes Buffer_init = 8" by (simp add: Buffer_init_def buffer_defs)
  with prepend_roundtrip [OF Buffer_inv_init, of "''len''"] show ?thesis
    by (auto simp: queue_simps)
qed

end
