(* ===== verification/HttpContexts.thy ===== *)
theory HttpContexts
  imports HttpRequests Buffers "HOL-Library.While_Combinator"
begin

text \<open>
  \<open>HttpContext\<close> (winterfell/net/http/wf_http_context.h, wf_http_context.cc): the incremental
  request parser, a state machine over the connection's input buffer. \<open>parseRequest\<close>'s
  \<open>while (hasMore)\<close> loop is a \<open>while_option\<close>, so that a loop that never ends is \<open>None\<close>. Its
  reference is \<open>http_parse\<close>, a recursion on the bytes alone; the loop over the buffer refines it,
  and the properties of the protocol are proved on the reference.
\<close>

section \<open>State and operations\<close>

datatype HttpRequestParseState = kExpectRequestLine | kExpectHeaders | kExpectBody | kGotAll

record HttpContext =
  ctx_state :: HttpRequestParseState
  ctx_request :: HttpRequest

definition HttpContext_new :: HttpContext where
  "HttpContext_new = \<lparr>ctx_state = kExpectRequestLine, ctx_request = HttpRequest_new\<rparr>"

definition getAll :: "HttpContext \<Rightarrow> bool" where
  "getAll c \<longleftrightarrow> ctx_state c = kGotAll"

definition HttpContext_reset :: "HttpContext \<Rightarrow> HttpContext" where
  "HttpContext_reset c =
     (let c1 = c\<lparr>ctx_state := kExpectRequestLine\<rparr>
      in c1\<lparr>ctx_request := fst (HttpRequest_swap (ctx_request c1) HttpRequest_new)\<rparr>)"

text \<open>
  The request line, \<open>[begin, end)\<close> without its CRLF; pointers are offsets from \<open>begin\<close>. When the
  second blank is missing, \<open>start\<close> is one past \<open>end\<close> and the length test fails.
\<close>

definition processRequestLine :: "char list \<Rightarrow> HttpRequest \<Rightarrow> (bool \<times> HttpRequest) res" where
  "processRequestLine line r =
     (let end = int (length line); start = 0; space = start + int (std_find (CHR '' '') line)
      in if space = end then Inr (False, r)
         else rbind (setMethod (slice line start space) r) (\<lambda>(known, r1).
           if \<not> known then Inr (False, r1)
           else
             let start = space + 1;
                 space = start + int (std_find (CHR '' '') (slice line start end));
                 r2 = (if space \<noteq> end
                       then let question = start + int (std_find (CHR ''?'') (slice line start space))
                         in if question \<noteq> space
                            then r1\<lparr>req_path := slice line start question, req_query := slice line question space\<rparr>
                            else r1\<lparr>req_path := slice line start space\<rparr>
                       else r1);
                 start = space + 1;
                 succeed = (end - start = 8 \<and> slice line start (end - 1) = ''HTTP/1.'')
             in if succeed then
                  if last line = CHR ''1'' then Inr (True, r2\<lparr>req_version := kHttp11\<rparr>)
                  else if last line = CHR ''0'' then Inr (True, r2\<lparr>req_version := kHttp10\<rparr>)
                  else Inr (False, r2)
                else Inr (False, r2)))"

text \<open>The local variables of \<open>parseRequest\<close> and one round of its loop.\<close>

record ParseLoop =
  pl_ok :: bool
  pl_hasMore :: bool
  pl_context :: HttpContext
  pl_buf :: Buffer

definition parse_step :: "Timestamp \<Rightarrow> ParseLoop \<Rightarrow> ParseLoop res" where
  "parse_step receiveTime s =
     (let c = pl_context s; b = pl_buf s in
      case ctx_state c of
        kExpectRequestLine \<Rightarrow>
          (case findCRLF b of
             None \<Rightarrow> Inr (s\<lparr>pl_hasMore := False\<rparr>)
           | Some crlf \<Rightarrow>
               rbind (read_range (buffer b) (peek b) (crlf - peek b)) (\<lambda>line.
               rbind (processRequestLine line (ctx_request c)) (\<lambda>(ok', r).
                 if ok' then
                   rbind (retrieveUntil (crlf + 2) b) (\<lambda>b'.
                     Inr (s\<lparr>pl_ok := True, pl_buf := b',
                       pl_context := c\<lparr>ctx_state := kExpectHeaders, ctx_request := r\<lparr>req_receiveTime := receiveTime\<rparr>\<rparr>\<rparr>))
                 else Inr (s\<lparr>pl_ok := False, pl_hasMore := False, pl_context := c\<lparr>ctx_request := r\<rparr>\<rparr>))))
      | kExpectHeaders \<Rightarrow>
          (case findCRLF b of
             None \<Rightarrow> Inr (s\<lparr>pl_hasMore := False\<rparr>)
           | Some crlf \<Rightarrow>
               rbind (read_range (buffer b) (peek b) (crlf - peek b)) (\<lambda>line.
                 let colon = std_find (CHR '':'') line;
                     s' = (if colon \<noteq> length line
                           then s\<lparr>pl_context := c\<lparr>ctx_request := addHeader line colon (ctx_request c)\<rparr>\<rparr>
                           else s\<lparr>pl_context := c\<lparr>ctx_state := kGotAll\<rparr>, pl_hasMore := False\<rparr>)
                 in rbind (retrieveUntil (crlf + 2) b) (\<lambda>b'. Inr (s'\<lparr>pl_buf := b'\<rparr>))))
      | kExpectBody \<Rightarrow> Inr s
      | kGotAll \<Rightarrow> Inr s)"

definition running :: "ParseLoop res \<Rightarrow> bool" where
  "running m = (case m of Inl e \<Rightarrow> False | Inr s \<Rightarrow> pl_hasMore s)"

definition parse_round :: "Timestamp \<Rightarrow> ParseLoop res \<Rightarrow> ParseLoop res" where
  "parse_round t m = rbind m (parse_step t)"

definition parse_loop :: "Timestamp \<Rightarrow> ParseLoop res \<Rightarrow> ParseLoop res option" where
  "parse_loop t = while_option running (parse_round t)"

text \<open>\<open>parseRequest\<close>: \<open>None\<close> when the loop never ends, else a fault or the returned flag with
  the context and the buffer left.\<close>

definition parseRequest ::
  "Timestamp \<Rightarrow> HttpContext \<Rightarrow> Buffer \<Rightarrow> (bool \<times> HttpContext \<times> Buffer) res option" where
  "parseRequest t c b =
     map_option (\<lambda>m. rbind m (\<lambda>s. Inr (pl_ok s, pl_context s, pl_buf s)))
       (parse_loop t (Inr \<lparr>pl_ok = True, pl_hasMore = True, pl_context = c, pl_buf = b\<rparr>))"

section \<open>The reference parser on byte strings\<close>

lemma split_crlf_shorter: "split_crlf bs = Some (l, r) \<Longrightarrow> length r < length bs"
  by (drule split_crlf_Some) (simp add: kCRLF_def)

function parse_headers :: "HttpRequest \<Rightarrow> char list \<Rightarrow> HttpRequestParseState \<times> HttpRequest \<times> char list" where
  "parse_headers q bs =
     (case split_crlf bs of
        None \<Rightarrow> (kExpectHeaders, q, bs)
      | Some (l, r) \<Rightarrow>
          if CHR '':'' \<in> set l then parse_headers (addHeader l (std_find (CHR '':'') l) q) r
          else (kGotAll, q, r))"
  by pat_completeness auto
termination
  by (relation "measure (\<lambda>(q, bs). length bs)") (auto simp: split_crlf_shorter)

declare parse_headers.simps [simp del]

lemma parse_headers_none: "split_crlf bs = None \<Longrightarrow> parse_headers q bs = (kExpectHeaders, q, bs)"
  and parse_headers_end: "split_crlf bs = Some (l, r) \<Longrightarrow> CHR '':'' \<notin> set l \<Longrightarrow> parse_headers q bs = (kGotAll, q, r)"
  and parse_headers_line: "split_crlf bs = Some (l, r) \<Longrightarrow> CHR '':'' \<in> set l \<Longrightarrow>
    parse_headers q bs = parse_headers (addHeader l (std_find (CHR '':'') l) q) r"
  by (simp_all add: parse_headers.simps [of q bs])

definition headers_result :: "HttpRequestParseState \<times> HttpRequest \<times> char list \<Rightarrow> bool \<times> HttpContext \<times> char list" where
  "headers_result = (\<lambda>(st, q, bs). (True, \<lparr>ctx_state = st, ctx_request = q\<rparr>, bs))"

definition http_parse :: "Timestamp \<Rightarrow> HttpContext \<Rightarrow> char list \<Rightarrow> (bool \<times> HttpContext \<times> char list) res" where
  "http_parse t c bs =
     (if ctx_state c = kExpectRequestLine then
        (case split_crlf bs of
           None \<Rightarrow> Inr (True, c, bs)
         | Some (l, r) \<Rightarrow>
             rbind (processRequestLine l (ctx_request c)) (\<lambda>(ok', q).
               if ok' then Inr (headers_result (parse_headers (q\<lparr>req_receiveTime := t\<rparr>) r))
               else Inr (False, c\<lparr>ctx_request := q\<rparr>, bs)))
      else Inr (headers_result (parse_headers (ctx_request c) bs)))"

text \<open>A context in which a parse may start: the two states that consume input.\<close>

definition parsing :: "HttpContext \<Rightarrow> bool" where
  "parsing c \<longleftrightarrow> ctx_state c = kExpectRequestLine \<or> ctx_state c = kExpectHeaders"

section \<open>The loop refines the reference\<close>

lemma parse_loop_done [simp]: "\<not> running m \<Longrightarrow> parse_loop t m = Some m"
  by (simp add: parse_loop_def while_option_unfold)

lemma parse_loop_step: "running m \<Longrightarrow> parse_loop t m = parse_loop t (parse_round t m)"
  by (simp add: parse_loop_def while_option_unfold [of running _ m])

lemma running_simps [simp]: "running (Inl e) = False" "running (Inr s) = pl_hasMore s"
  by (simp_all add: running_def)

lemma parse_round_Inr [simp]: "parse_round t (Inr s) = parse_step t s"
  by (simp add: parse_round_def)

text \<open>The three buffer calls of a round that finds a CRLF, in terms of the first line.\<close>

lemma line_at_crlf:
  assumes inv: "Buffer_inv b" and sp: "split_crlf (contents b) = Some (l, r)"
  shows "findCRLF b = Some (peek b + int (length l))"
    and "read_range (buffer b) (peek b) (int (length l)) = Inr l"
    and "\<exists>b'. retrieveUntil (peek b + int (length l) + 2) b = Inr b' \<and> Buffer_inv b' \<and> contents b' = r"
proof -
  have c: "contents b = l @ kCRLF @ r" using sp by (rule split_crlf_Some)
  then have len: "int (length (contents b)) = int (length l) + 2 + int (length r)"
    by (simp add: kCRLF_def)
  show "findCRLF b = Some (peek b + int (length l))"
    using sp by (simp add: findCRLF_split [OF inv])
  from retrieveAsString_ok [OF inv, of "int (length l)"] len c
  show "read_range (buffer b) (peek b) (int (length l)) = Inr l"
    by (auto simp: retrieveAsString_def rbind_Inr_iff)
  from retrieveUntil_ok [OF inv, of "int (length l) + 2"] len c
  show "\<exists>b'. retrieveUntil (peek b + int (length l) + 2) b = Inr b' \<and> Buffer_inv b' \<and> contents b' = r"
    by (auto simp: add.assoc kCRLF_def nat_add_distrib)
qed

lemma parse_loop_headers:
  assumes "Buffer_inv b" "pl_hasMore s" "pl_context s = \<lparr>ctx_state = kExpectHeaders, ctx_request = q\<rparr>" "pl_buf s = b"
    "parse_headers q (contents b) = (st, q', bs)"
  shows "\<exists>b'. parse_loop t (Inr s)
      = Some (Inr (s\<lparr>pl_hasMore := False, pl_context := \<lparr>ctx_state = st, ctx_request = q'\<rparr>, pl_buf := b'\<rparr>))
    \<and> Buffer_inv b' \<and> contents b' = bs"
  using assms
proof (induction q "contents b" arbitrary: b s rule: parse_headers.induct)
  case (1 q)
  show ?case
  proof (cases "split_crlf (contents b)")
    case None
    then have "findCRLF b = None" by (simp add: findCRLF_split [OF "1.prems"(1)])
    with None "1.prems" show ?thesis
      by (intro exI [of _ b]) (auto simp: parse_loop_step parse_step_def parse_headers.simps [of q "contents b"])
  next
    case (Some lr)
    then obtain l r where sp: "split_crlf (contents b) = Some (l, r)" by (cases lr) auto
    note line = line_at_crlf [OF "1.prems"(1) sp]
    from line(3) obtain b1 where b1: "retrieveUntil (peek b + int (length l) + 2) b = Inr b1"
      "Buffer_inv b1" "contents b1 = r" by blast
    show ?thesis
    proof (cases "CHR '':'' \<in> set l")
      case True
      let ?q = "addHeader l (std_find (CHR '':'') l) q"
      let ?s = "s\<lparr>pl_context := \<lparr>ctx_state = kExpectHeaders, ctx_request = ?q\<rparr>, pl_buf := b1\<rparr>"
      from True have colon: "std_find (CHR '':'') l \<noteq> length l"
        using std_find_less_iff by (metis less_irrefl)
      then have step: "parse_step t s = Inr ?s"
        using "1.prems" line b1 by (simp add: parse_step_def Let_def)
      have "parse_headers ?q (contents b1) = (st, q', bs)"
        using "1.prems"(5) sp True b1(3) by (simp add: parse_headers.simps [of q "contents b"])
      with "1.hyps" [OF sp _ True b1(2), of ?s] "1.prems"(2) b1(3)
      show ?thesis using step by (auto simp: parse_loop_step)
    next
      case False
      then have "std_find (CHR '':'') l = length l" by simp
      then have "parse_step t s
          = Inr (s\<lparr>pl_hasMore := False, pl_context := \<lparr>ctx_state = kGotAll, ctx_request = q\<rparr>, pl_buf := b1\<rparr>)"
        using "1.prems" line b1 by (simp add: parse_step_def Let_def)
      moreover have "st = kGotAll" "q' = q" "bs = r"
        using "1.prems"(5) sp False by (simp_all add: parse_headers.simps [of q "contents b"])
      ultimately show ?thesis using "1.prems"(2) b1 by (auto simp: parse_loop_step)
    qed
  qed
qed

text \<open>From either consuming state: a fault of the reference is a fault of the loop.\<close>

lemma parseRequest_refines:
  assumes inv: "Buffer_inv b" and c: "parsing c"
  shows "case http_parse t c (contents b) of
      Inl e \<Rightarrow> parseRequest t c b = Some (Inl e)
    | Inr (ok', c', bs) \<Rightarrow> (\<exists>b'. parseRequest t c b = Some (Inr (ok', c', b')) \<and> Buffer_inv b' \<and> contents b' = bs)"
proof (cases "ctx_state c = kExpectRequestLine")
  case False
  obtain st q' bs where ph: "parse_headers (ctx_request c) (contents b) = (st, q', bs)"
    by (cases "parse_headers (ctx_request c) (contents b)") auto
  have "c = \<lparr>ctx_state = kExpectHeaders, ctx_request = ctx_request c\<rparr>" using False c by (simp add: parsing_def)
  with parse_loop_headers [OF inv, of "\<lparr>pl_ok = True, pl_hasMore = True, pl_context = c, pl_buf = b\<rparr>", OF _ _ _ ph, of t]
  have "\<exists>b'. parse_loop t (Inr \<lparr>pl_ok = True, pl_hasMore = True, pl_context = c, pl_buf = b\<rparr>)
      = Some (Inr \<lparr>pl_ok = True, pl_hasMore = False, pl_context = \<lparr>ctx_state = st, ctx_request = q'\<rparr>, pl_buf = b'\<rparr>)
    \<and> Buffer_inv b' \<and> contents b' = bs" by simp
  with False ph show ?thesis
    by (auto simp: http_parse_def headers_result_def parseRequest_def)
next
  case True
  let ?s = "\<lparr>pl_ok = True, pl_hasMore = True, pl_context = c, pl_buf = b\<rparr>"
  show ?thesis
  proof (cases "split_crlf (contents b)")
    case None
    then have "findCRLF b = None" by (simp add: findCRLF_split [OF inv])
    then have "parse_step t ?s = Inr (?s\<lparr>pl_hasMore := False\<rparr>)" using True by (simp add: parse_step_def)
    with None True inv show ?thesis
      by (simp add: http_parse_def parseRequest_def parse_loop_step)
  next
    case (Some lr)
    then obtain l r where sp: "split_crlf (contents b) = Some (l, r)" by (cases lr) auto
    note line = line_at_crlf [OF inv sp]
    from line(3) obtain b1 where b1: "retrieveUntil (peek b + int (length l) + 2) b = Inr b1"
      "Buffer_inv b1" "contents b1 = r" by blast
    show ?thesis
    proof (cases "processRequestLine l (ctx_request c)")
      case (Inl e)
      then have "parse_step t ?s = Inl e" using True line by (simp add: parse_step_def Let_def)
      with Inl True sp show ?thesis by (simp add: http_parse_def parseRequest_def parse_loop_step)
    next
      case (Inr okq)
      obtain ok' q where okq: "processRequestLine l (ctx_request c) = Inr (ok', q)" using Inr by (cases okq) auto
      show ?thesis
      proof (cases ok')
        case False
        then have "parse_step t ?s = Inr (?s\<lparr>pl_ok := False, pl_hasMore := False, pl_context := c\<lparr>ctx_request := q\<rparr>\<rparr>)"
          using True line okq by (simp add: parse_step_def Let_def)
        with False okq True sp inv show ?thesis
          by (simp add: http_parse_def parseRequest_def parse_loop_step)
      next
        case ok': True
        let ?q = "q\<lparr>req_receiveTime := t\<rparr>"
        let ?s1 = "\<lparr>pl_ok = True, pl_hasMore = True, pl_context = \<lparr>ctx_state = kExpectHeaders, ctx_request = ?q\<rparr>, pl_buf = b1\<rparr>"
        obtain st q' bs where ph: "parse_headers ?q (contents b1) = (st, q', bs)"
          by (cases "parse_headers ?q (contents b1)") auto
        have "parse_step t ?s = Inr ?s1"
          using True line okq b1 ok' by (simp add: parse_step_def Let_def)
        then have "parse_loop t (Inr ?s) = parse_loop t (Inr ?s1)" by (simp add: parse_loop_step)
        with parse_loop_headers [OF b1(2), of ?s1, OF _ _ _ ph, of t] ph b1(3) okq ok' True sp
        show ?thesis by (auto simp: http_parse_def headers_result_def parseRequest_def)
      qed
    qed
  qed
qed

text \<open>In the two other states the loop never ends.\<close>

lemma parse_loop_stuck:
  assumes "pl_hasMore s" "\<not> parsing (pl_context s)"
  shows "parse_loop t (Inr s) = None"
proof -
  have st: "parse_step t s = Inr s"
    using assms(2) by (cases "ctx_state (pl_context s)") (simp_all add: parse_step_def parsing_def)
  have "(parse_round t ^^ k) (Inr s) = Inr s" for k
    by (induction k) (simp_all add: st)
  with assms(1) show ?thesis by (simp add: parse_loop_def while_option_def)
qed

section \<open>The request line\<close>

lemma processRequestLine_wellformed:
  assumes r: "req_method r = kInvalid" and m: "method_of m \<noteq> kInvalid" "CHR '' '' \<notin> set m"
    and p: "CHR '' '' \<notin> set p" "CHR ''?'' \<notin> set p"
    and q: "CHR '' '' \<notin> set q" "q = [] \<or> hd q = CHR ''?''"
    and v: "v = (if ver = kHttp11 then ''HTTP/1.1'' else ''HTTP/1.0'')" "ver \<noteq> kUnkown"
  shows "processRequestLine (m @ '' '' @ p @ q @ '' '' @ v) r
    = Inr (True, r\<lparr>req_method := method_of m, req_path := p,
                   req_query := (if q = [] then req_query r else q), req_version := ver\<rparr>)"
proof -
  let ?line = "m @ '' '' @ p @ q @ '' '' @ v"
  let ?s1 = "int (length m)" and ?t = "p @ q"
  let ?s2 = "?s1 + 1 + int (length ?t)"
  have find1: "std_find (CHR '' '') ?line = length m" using m(2) by simp
  have sl1: "slice ?line 0 ?s1 = m" using slice_mid [of 0 "[]" ?s1 m] by simp
  have "slice ?line (?s1 + 1) (int (length ?line)) = ?t @ '' '' @ v"
    by (simp add: slice_to_end nat_add_distrib)
  moreover have "std_find (CHR '' '') (?t @ CHR '' '' # v) = length ?t"
    by (rule std_find_append_in) (use p(1) q(1) in auto)
  ultimately have find2: "std_find (CHR '' '') (slice ?line (?s1 + 1) (int (length ?line))) = length ?t"
    by simp
  have slt: "slice ?line (?s1 + 1) ?s2 = ?t"
    using slice_mid [of "?s1 + 1" "m @ '' ''" ?s2 ?t "'' '' @ v"] by simp
  have slp: "slice ?line (?s1 + 1) (?s1 + 1 + int (length p)) = p"
    using slice_mid [of "?s1 + 1" "m @ '' ''" _ p "q @ '' '' @ v"] by simp
  have slq: "slice ?line (?s1 + 1 + int (length p)) ?s2 = q"
    using slice_mid [of "?s1 + 1 + int (length p)" "m @ '' '' @ p" ?s2 q "'' '' @ v"] by simp
  have find3: "std_find (CHR ''?'') ?t = length p"
    using p(2) q(2) by (cases q) auto
  have lv: "length v = 8" "last ?line = (if ver = kHttp11 then CHR ''1'' else CHR ''0'')"
    using v by simp_all
  have len: "int (length ?line) = ?s2 + 9" using lv by simp
  have slv: "slice ?line (?s2 + 1) (?s2 + 8) = ''HTTP/1.''"
    using slice_mid [of "?s2 + 1" "m @ '' '' @ p @ q @ '' ''" "?s2 + 8" "''HTTP/1.''" "[last v]"] v
    by (simp split: if_splits)
  have ver: "ver = kHttp11 \<or> ver = kHttp10" using v(2) by (cases ver) auto
  show ?thesis
    unfolding processRequestLine_def Let_def find1
    using find2 find3 sl1 slt slp slq slv len lv r m(1) ver
    by (auto simp: setMethod_def add_ac)
qed

text \<open>A request line that is refused: either its first word is not a method, and the request stays
  without one, or the method has been stored.\<close>

lemma processRequestLine_refused:
  assumes "processRequestLine l r = Inr (False, q)"
  shows "(if CHR '' '' \<in> set l then req_method r = kInvalid \<and> req_method q = method_of (takeWhile (\<lambda>c. c \<noteq> CHR '' '') l)
          else q = r)"
proof (cases "CHR '' '' \<in> set l")
  case False
  then show ?thesis using assms by (simp add: processRequestLine_def)
next
  case True
  let ?k = "std_find (CHR '' '') l"
  have k: "?k < length l" using True by (simp add: std_find_less_iff)
  have "slice l 0 (int ?k) = takeWhile (\<lambda>c. c \<noteq> CHR '' '') l"
    by (simp add: takeWhile_std_find slice_def)
  then show ?thesis using assms True k
    by (auto simp: processRequestLine_def Let_def setMethod_def rbind_Inr_iff rassert_Inr_iff split: if_splits)
qed

lemma processRequestLine_second:
  assumes "CHR '' '' \<in> set l"
  shows "req_method q \<noteq> kInvalid \<Longrightarrow> processRequestLine l q = Inl AssertFailed"
    and "req_method q = kInvalid \<Longrightarrow> method_of (takeWhile (\<lambda>c. c \<noteq> CHR '' '') l) = kInvalid \<Longrightarrow>
      processRequestLine l q = Inr (False, q)"
proof -
  let ?k = "std_find (CHR '' '') l"
  have k: "?k < length l" using assms by (simp add: std_find_less_iff)
  then have k': "int ?k \<noteq> int (length l)" by linarith
  have "slice l 0 (int ?k) = take ?k l" by (simp add: slice_def)
  then have w: "slice l 0 (int ?k) = takeWhile (\<lambda>c. c \<noteq> CHR '' '') l" by (simp add: takeWhile_std_find)
  show "req_method q \<noteq> kInvalid \<Longrightarrow> processRequestLine l q = Inl AssertFailed"
    unfolding processRequestLine_def Let_def using k' by (simp add: setMethod_def)
  show "req_method q = kInvalid \<Longrightarrow> method_of (takeWhile (\<lambda>c. c \<noteq> CHR '' '') l) = kInvalid \<Longrightarrow>
      processRequestLine l q = Inr (False, q)"
    unfolding processRequestLine_def Let_def using k' w by (simp add: setMethod_def)
qed

section \<open>Chunks\<close>

lemma parse_headers_chunks:
  "parse_headers q xs = (kExpectHeaders, q1, r1) \<Longrightarrow> parse_headers q (xs @ ys) = parse_headers q1 (r1 @ ys)"
proof (induction q xs rule: parse_headers.induct)
  case (1 q xs)
  show ?case
  proof (cases "split_crlf xs")
    case None
    then show ?thesis using "1.prems" by (simp add: parse_headers.simps [of q xs])
  next
    case (Some lr)
    then obtain l r where sp: "split_crlf xs = Some (l, r)" by (cases lr) auto
    then have sp': "split_crlf (xs @ ys) = Some (l, r @ ys)" by (rule split_crlf_append)
    have colon: "CHR '':'' \<in> set l" using "1.prems" sp by (auto simp: parse_headers.simps [of q xs] split: if_splits)
    with "1.IH" [OF sp refl colon] "1.prems" show ?thesis
      by (simp add: parse_headers_line [OF sp] parse_headers_line [OF sp'])
  qed
qed

lemma parse_headers_state: "fst (parse_headers q xs) = kExpectHeaders \<or> fst (parse_headers q xs) = kGotAll"
proof (induction q xs rule: parse_headers.induct)
  case (1 q xs)
  show ?case
  proof (cases "split_crlf xs")
    case None
    then show ?thesis by (simp add: parse_headers_none)
  next
    case (Some lr)
    then obtain l r where sp: "split_crlf xs = Some (l, r)" by (cases lr) auto
    with "1.IH" [OF sp refl] show ?thesis
      by (cases "CHR '':'' \<in> set l") (simp_all add: parse_headers_end parse_headers_line)
  qed
qed

lemma http_parse_chunks:
  assumes c: "parsing c" and first: "http_parse t1 c xs = Inr (True, c1, r1)" and more: "\<not> getAll c1"
  shows "http_parse (if ctx_state c1 = kExpectRequestLine then t2 else t1) c (xs @ ys) = http_parse t2 c1 (r1 @ ys)"
proof -
  have hd: "ctx_state c1 = kExpectHeaders \<Longrightarrow> parse_headers q xs' = (kExpectHeaders, ctx_request c1, r1) \<Longrightarrow>
      Inr (headers_result (parse_headers q (xs' @ ys))) = http_parse t2 c1 (r1 @ ys)" for q xs'
    by (simp add: parse_headers_chunks http_parse_def)
  show ?thesis
  proof (cases "ctx_state c = kExpectRequestLine")
    case False
    obtain st q1 r where ph: "parse_headers (ctx_request c) xs = (st, q1, r)"
      by (cases "parse_headers (ctx_request c) xs") auto
    with first False have "c1 = \<lparr>ctx_state = st, ctx_request = q1\<rparr>" "r1 = r"
      by (simp_all add: http_parse_def headers_result_def)
    moreover have "st = kExpectHeaders"
      using parse_headers_state [of "ctx_request c" xs] ph more calculation by (simp add: getAll_def)
    ultimately show ?thesis using hd [of "ctx_request c" xs] ph False by (simp add: http_parse_def)
  next
    case True
    show ?thesis
    proof (cases "split_crlf xs")
      case None
      then show ?thesis using True first by (simp add: http_parse_def)
    next
      case (Some lr)
      then obtain l r where sp: "split_crlf xs = Some (l, r)" by (cases lr) auto
      with first True obtain q where q: "processRequestLine l (ctx_request c) = Inr (True, q)"
        and res: "headers_result (parse_headers (q\<lparr>req_receiveTime := t1\<rparr>) r) = (True, c1, r1)"
        by (auto simp: http_parse_def rbind_Inr_iff split: if_splits)
      obtain st q1 r' where ph: "parse_headers (q\<lparr>req_receiveTime := t1\<rparr>) r = (st, q1, r')"
        by (cases "parse_headers (q\<lparr>req_receiveTime := t1\<rparr>) r") auto
      with res have "c1 = \<lparr>ctx_state = st, ctx_request = q1\<rparr>" "r1 = r'" by (simp_all add: headers_result_def)
      moreover have "st = kExpectHeaders"
        using parse_headers_state [of "q\<lparr>req_receiveTime := t1\<rparr>" r] ph more calculation by (simp add: getAll_def)
      ultimately show ?thesis
        using hd [of "q\<lparr>req_receiveTime := t1\<rparr>" r] ph True q split_crlf_append [OF sp] by (simp add: http_parse_def)
    qed
  qed
qed

text \<open>Once the parse faults, refuses or completes, further bytes change nothing.\<close>

lemma parse_headers_extend:
  "parse_headers q xs = (kGotAll, q1, r1) \<Longrightarrow> parse_headers q (xs @ ys) = (kGotAll, q1, r1 @ ys)"
proof (induction q xs rule: parse_headers.induct)
  case (1 q xs)
  show ?case
  proof (cases "split_crlf xs")
    case None
    then show ?thesis using "1.prems" by (simp add: parse_headers_none)
  next
    case (Some lr)
    then obtain l r where sp: "split_crlf xs = Some (l, r)" by (cases lr) auto
    then have sp': "split_crlf (xs @ ys) = Some (l, r @ ys)" by (rule split_crlf_append)
    show ?thesis
      using "1.IH" [OF sp refl] "1.prems"
      by (cases "CHR '':'' \<in> set l") (simp_all add: parse_headers_end [OF sp] parse_headers_end [OF sp'] parse_headers_line [OF sp] parse_headers_line [OF sp'])
  qed
qed

lemma headers_result_extend:
  "headers_result (parse_headers q xs) = (ok', c1, r1) \<Longrightarrow> \<not> ok' \<or> getAll c1 \<Longrightarrow>
   headers_result (parse_headers q (xs @ ys)) = (ok', c1, r1 @ ys)"
  using parse_headers_extend [of q xs] by (auto simp: headers_result_def getAll_def split: prod.splits)

lemma http_parse_extend:
  "http_parse t c xs = Inl e \<Longrightarrow> http_parse t c (xs @ ys) = Inl e"
  "http_parse t c xs = Inr (ok', c1, r1) \<Longrightarrow> \<not> ok' \<or> getAll c1 \<and> ctx_state c \<noteq> kGotAll \<Longrightarrow>
    http_parse t c (xs @ ys) = Inr (ok', c1, r1 @ ys)"
proof -
  show "http_parse t c (xs @ ys) = Inl e" if "http_parse t c xs = Inl e"
    using that by (auto simp: http_parse_def split_crlf_append rbind_def split: if_splits option.splits sum.splits prod.splits)
  show "http_parse t c (xs @ ys) = Inr (ok', c1, r1 @ ys)"
    if p: "http_parse t c xs = Inr (ok', c1, r1)" and q: "\<not> ok' \<or> getAll c1 \<and> ctx_state c \<noteq> kGotAll"
  proof (cases "ctx_state c = kExpectRequestLine")
    case True
    show ?thesis
    proof (cases "split_crlf xs")
      case None
      then show ?thesis using p q True by (auto simp: http_parse_def getAll_def)
    next
      case (Some lr)
      then obtain l r where sp: "split_crlf xs = Some (l, r)" by (cases lr) auto
      then show ?thesis using p q True headers_result_extend
        by (auto simp: http_parse_def split_crlf_append rbind_def split: sum.splits prod.splits if_splits)
    qed
  next
    case False
    then show ?thesis using p q headers_result_extend by (auto simp: http_parse_def)
  qed
qed

text \<open>What a caller of \<open>parseRequest\<close> observes: the flag, the context and the bytes left.\<close>

definition parse_outcome ::
  "(bool \<times> HttpContext \<times> Buffer) res option \<Rightarrow> (bool \<times> HttpContext \<times> char list) res option" where
  "parse_outcome = map_option (map_sum id (\<lambda>(ok', c, b). (ok', c, contents b)))"

lemma parse_outcome_reference:
  assumes "Buffer_inv b" "parsing c"
  shows "parse_outcome (parseRequest t c b) = Some (http_parse t c (contents b))"
  using parseRequest_refines [OF assms, of t]
  by (auto simp: parse_outcome_def split: sum.splits)

section \<open>Printed requests\<close>

text \<open>The bytes a client sends for a request, and the requests HTTP lets it send.\<close>

definition header_line :: "char list \<times> char list \<Rightarrow> char list" where
  "header_line h = fst h @ '': '' @ snd h @ kCRLF"

definition version_string :: "Version \<Rightarrow> char list" where
  "version_string v = (if v = kHttp11 then ''HTTP/1.1'' else ''HTTP/1.0'')"

definition print_request :: "HttpRequest \<Rightarrow> (char list \<times> char list) list \<Rightarrow> char list" where
  "print_request r hs =
     methodString r @ '' '' @ req_path r @ req_query r @ '' '' @ version_string (req_version r) @ kCRLF
     @ concat (map header_line hs) @ kCRLF"

definition wf_header :: "char list \<times> char list \<Rightarrow> bool" where
  "wf_header h \<longleftrightarrow> CHR '':'' \<notin> set (fst h) \<and> CHR 0x0D \<notin> set (fst h) \<and> CHR 0x0D \<notin> set (snd h)
     \<and> (snd h = [] \<or> \<not> isspace (hd (snd h)) \<and> \<not> isspace (last (snd h)))"

definition wf_request :: "HttpRequest \<Rightarrow> bool" where
  "wf_request r \<longleftrightarrow> req_method r \<noteq> kInvalid \<and> req_version r \<noteq> kUnkown
     \<and> set (req_path r) \<inter> {CHR '' '', CHR ''?'', CHR 0x0D} = {}
     \<and> set (req_query r) \<inter> {CHR '' '', CHR 0x0D} = {}
     \<and> (req_query r = [] \<or> hd (req_query r) = CHR ''?'')"

lemma no_CR_line: "CHR 0x0D \<notin> set l \<Longrightarrow> \<not> sublist kCRLF (l @ [CHR 0x0D])"
  by (induction l) (auto simp: kCRLF_def sublist_Cons_right)

lemma parse_headers_printed:
  "\<forall>h \<in> set hs. wf_header h \<Longrightarrow>
     parse_headers q (concat (map header_line hs) @ kCRLF @ rest)
     = (kGotAll, q\<lparr>req_headers := put_each map_put hs (req_headers q)\<rparr>, rest)"
proof (induction hs arbitrary: q)
  case Nil
  have "split_crlf (kCRLF @ rest) = Some ([], rest)" by (simp add: kCRLF_def)
  then show ?case by (simp add: parse_headers_end)
next
  case (Cons h hs)
  obtain f v where h: "h = (f, v)" by (cases h)
  let ?l = "f @ '': '' @ v" and ?rest = "concat (map header_line hs) @ kCRLF @ rest"
  have wf: "wf_header (f, v)" using Cons.prems h by simp
  then have "\<not> sublist kCRLF (?l @ [CHR 0x0D])" by (intro no_CR_line) (auto simp: wf_header_def)
  then have "split_crlf (?l @ kCRLF @ ?rest) = Some (?l, ?rest)" by (rule split_crlf_line)
  moreover have "addHeader ?l (std_find (CHR '':'') ?l) q = q\<lparr>req_headers := map_put f v (req_headers q)\<rparr>"
    using wf by (intro addHeader_colon) (auto simp: wf_header_def)
  moreover have "concat (map header_line (h # hs)) @ kCRLF @ rest = ?l @ kCRLF @ ?rest"
    by (simp add: h header_line_def)
  moreover have "CHR '':'' \<in> set ?l" by simp
  ultimately show ?case using Cons h parse_headers_line by simp
qed

lemma http_parse_printed:
  assumes wf: "wf_request r" and hs: "\<forall>h \<in> set hs. wf_header h"
  shows "http_parse t HttpContext_new (print_request r hs @ rest)
    = Inr (True, \<lparr>ctx_state = kGotAll, ctx_request = r\<lparr>req_receiveTime := t, req_headers := put_each map_put hs []\<rparr>\<rparr>, rest)"
proof -
  let ?l = "methodString r @ '' '' @ req_path r @ req_query r @ '' '' @ version_string (req_version r)"
  let ?rest = "concat (map header_line hs) @ kCRLF @ rest"
  have "CHR 0x0D \<notin> set ?l"
    using wf by (cases "req_method r") (auto simp: wf_request_def methodString_def version_string_def)
  then have sp: "split_crlf (?l @ kCRLF @ ?rest) = Some (?l, ?rest)" by (intro split_crlf_line no_CR_line)
  have "processRequestLine ?l HttpRequest_new
      = Inr (True, HttpRequest_new\<lparr>req_method := req_method r, req_path := req_path r,
          req_query := req_query r, req_version := req_version r\<rparr>)"
    using processRequestLine_wellformed [of HttpRequest_new "methodString r" "req_path r" "req_query r"
        "version_string (req_version r)" "req_version r"] wf method_of_methodString [of r] methodString_no_space [of r]
    by (auto simp: wf_request_def HttpRequest_new_def version_string_def)
  then show ?thesis using sp
    by (simp add: http_parse_def HttpContext_new_def print_request_def headers_result_def
        parse_headers_printed [OF hs] HttpRequest_new_def)
qed

section \<open>Well-formed requests\<close>

definition header_typed :: "char list \<Rightarrow> char list \<Rightarrow> bool" where
  "header_typed f v \<longleftrightarrow> CHR '':'' \<notin> set f \<and> (v = [] \<or> \<not> isspace (hd v) \<and> \<not> isspace (last v))"

definition request_typed :: "HttpRequest \<Rightarrow> bool" where
  "request_typed q \<longleftrightarrow>
     map_sorted (req_headers q) \<and> (\<forall>f v. map_find f (req_headers q) = Some v \<longrightarrow> header_typed f v)"

text \<open>A context that has seen the request line knows the method and the version.\<close>

definition context_typed :: "HttpContext \<Rightarrow> bool" where
  "context_typed c \<longleftrightarrow> request_typed (ctx_request c)
     \<and> (ctx_state c \<noteq> kExpectRequestLine \<longrightarrow> req_method (ctx_request c) \<noteq> kInvalid \<and> req_version (ctx_request c) \<noteq> kUnkown)"

lemma hd_trim_end: "trim_end v \<noteq> [] \<Longrightarrow> hd (trim_end v) = hd v"
  using trim_end_prefix [of v] by (metis hd_append2)

lemma hd_skip_space: "skip_space v \<noteq> [] \<Longrightarrow> \<not> isspace (hd (skip_space v))"
  by (induction v) auto

lemma request_typed_addHeader:
  assumes "request_typed q" shows "request_typed (addHeader l (std_find (CHR '':'') l) q)"
proof -
  have "CHR '':'' \<notin> set (take (std_find (CHR '':'') l) l)"
    unfolding takeWhile_std_find [symmetric] by (auto dest: set_takeWhileD)
  moreover have "v = [] \<or> \<not> isspace (hd v) \<and> \<not> isspace (last v)" if "v = trim_end (skip_space w)" for v w
  proof (cases "v = []")
    case False
    then have "hd v = hd (skip_space w)" "skip_space w \<noteq> []" using that hd_trim_end by auto
    then show ?thesis using that False trim_end_no_space hd_skip_space by metis
  qed simp
  ultimately show ?thesis
    using assms by (auto simp: request_typed_def addHeader_def Let_def header_typed_def split: if_splits)
qed

lemma processRequestLine_typed:
  assumes "processRequestLine l q = Inr (ok', q')"
  shows "req_headers q' = req_headers q \<and> (ok' \<longrightarrow> req_method q' \<noteq> kInvalid \<and> req_version q' \<noteq> kUnkown)"
  using assms
  by (auto simp: processRequestLine_def Let_def setMethod_def rbind_Inr_iff rassert_Inr_iff split: if_splits)

lemma parse_headers_typed:
  assumes "request_typed q" "parse_headers q bs = (st, q', bs')"
  shows "request_typed q' \<and> req_method q' = req_method q \<and> req_version q' = req_version q"
  using assms
proof (induction q bs rule: parse_headers.induct)
  case (1 q bs)
  show ?case
  proof (cases "split_crlf bs")
    case None
    then show ?thesis using "1.prems" by (auto simp: parse_headers_none)
  next
    case (Some lr)
    then obtain l r where sp: "split_crlf bs = Some (l, r)" by (cases lr) auto
    show ?thesis
    proof (cases "CHR '':'' \<in> set l")
      case True
      then show ?thesis
        using "1.IH" [OF sp refl True request_typed_addHeader [OF "1.prems"(1)]] "1.prems"(2) sp
        by (simp add: parse_headers_line addHeader_other)
    next
      case False
      then show ?thesis using "1.prems" sp by (auto simp: parse_headers_end)
    qed
  qed
qed

lemma http_parse_typed:
  assumes "context_typed c" "http_parse t c bs = Inr (ok', c', bs')"
  shows "context_typed c'"
proof -
  have h: "context_typed c'"
    if q: "request_typed q" "req_method q \<noteq> kInvalid" "req_version q \<noteq> kUnkown" and e: "headers_result (parse_headers q r) = (ok', c', bs')" for q r
  proof -
    obtain st q' bs'' where p: "parse_headers q r = (st, q', bs'')" by (cases "parse_headers q r")
    then show ?thesis using parse_headers_typed [OF q(1) p] q e by (auto simp: headers_result_def context_typed_def)
  qed
  show ?thesis
  proof (cases "ctx_state c = kExpectRequestLine")
    case False
    then show ?thesis using assms h [of "ctx_request c" bs] by (simp add: http_parse_def context_typed_def)
  next
    case True
    show ?thesis
    proof (cases "split_crlf bs")
      case None
      then show ?thesis using assms True by (simp add: http_parse_def)
    next
      case (Some lr)
      then obtain l r where sp: "split_crlf bs = Some (l, r)" by (cases lr) auto
      with assms(2) True obtain ok1 q where q: "processRequestLine l (ctx_request c) = Inr (ok1, q)"
        and res: "(if ok1 then Inr (headers_result (parse_headers (q\<lparr>req_receiveTime := t\<rparr>) r))
                   else Inr (False, c\<lparr>ctx_request := q\<rparr>, bs)) = (Inr (ok', c', bs') :: (bool \<times> HttpContext \<times> char list) res)"
        by (auto simp: http_parse_def rbind_Inr_iff)
      have t: "request_typed q" using processRequestLine_typed [OF q] assms(1) by (simp add: context_typed_def request_typed_def)
      show ?thesis
      proof (cases ok1)
        case True
        then show ?thesis using h [of "q\<lparr>req_receiveTime := t\<rparr>" r] t processRequestLine_typed [OF q] res by (simp add: request_typed_def)
      next
        case False
        then show ?thesis using res t True by (auto simp: context_typed_def)
      qed
    qed
  qed
qed

section \<open>Properties\<close>

text \<open>C3: the parser's loop refines the reference parser. On a well-formed buffer, in either state
  that consumes input, \<open>parseRequest\<close> returns: it faults exactly as \<open>http_parse\<close> does on the readable
  bytes, and otherwise returns its flag and context and leaves a well-formed buffer holding the
  bytes the reference leaves. The pointer arithmetic, the reads and the \<open>retrieveUntil\<close> calls never
  fault.\<close>

theorem parseRequest_refines_reference:
  assumes "Buffer_inv b" and "parsing c"
  shows "case http_parse t c (contents b) of
      Inl e \<Rightarrow> parseRequest t c b = Some (Inl e)
    | Inr (ok', c', bs) \<Rightarrow> (\<exists>b'. parseRequest t c b = Some (Inr (ok', c', b')) \<and> Buffer_inv b' \<and> contents b' = bs)"
  using assms by (rule parseRequest_refines)

theorem parseRequest_refines_reference_witness:
  "\<exists>b'. parseRequest (Timestamp 5) HttpContext_new Buffer_init = Some (Inr (True, HttpContext_new, b')) \<and> contents b' = []"
  using parseRequest_refines_reference [OF Buffer_inv_init, of HttpContext_new "Timestamp 5"]
  by (auto simp: parsing_def HttpContext_new_def http_parse_def queue_simps)

text \<open>C25: when \<open>parseRequest\<close> returns. On a well-formed buffer the loop ends exactly when it is
  entered in a state that consumes input; entered after a complete request (\<open>kGotAll\<close>) or in the
  unused state \<open>kExpectBody\<close> it spins forever, so a caller must reset the context in between.\<close>

theorem parseRequest_terminates_iff:
  assumes "Buffer_inv b"
  shows "parseRequest t c b \<noteq> None \<longleftrightarrow> parsing c"
proof (cases "parsing c")
  case True
  with parseRequest_refines [OF assms True, of t] show ?thesis by (auto split: sum.splits prod.splits)
next
  case False
  then show ?thesis by (simp add: parseRequest_def parse_loop_stuck)
qed

theorem parseRequest_terminates_iff_witness:
  "parseRequest (Timestamp 0) HttpContext_new Buffer_init \<noteq> None
   \<and> parseRequest (Timestamp 0) (HttpContext_new\<lparr>ctx_state := kGotAll\<rparr>) Buffer_init = None"
  using parseRequest_terminates_iff [OF Buffer_inv_init, of "Timestamp 0" HttpContext_new]
    parseRequest_terminates_iff [OF Buffer_inv_init, of "Timestamp 0" "HttpContext_new\<lparr>ctx_state := kGotAll\<rparr>"]
  by (simp add: parsing_def HttpContext_new_def)

text \<open>C9: how the bytes are cut into reads does not matter. If a first read parses without
  completing the request, then appending the next bytes and parsing again gives the same flag, the
  same context and the same bytes left (or the same fault) as one parse of all the bytes; the
  recorded receive time is that of the read that completed the request line.\<close>

theorem parse_in_chunks:
  assumes "Buffer_inv b" and "parsing c"
    and "parseRequest t1 c b = Some (Inr (True, c1, b1))" and "\<not> getAll c1"
    and "append_buf extra b1 = Inr b2"
    and "append_buf extra b = Inr b12"
  shows "parse_outcome (parseRequest t2 c1 b2)
    = parse_outcome (parseRequest (if ctx_state c1 = kExpectRequestLine then t2 else t1) c b12)"
proof -
  have p: "http_parse t1 c (contents b) = Inr (True, c1, contents b1)" "Buffer_inv b1"
    using parseRequest_refines [OF assms(1,2), of t1] assms(3) by (auto split: sum.splits)
  have b: "Buffer_inv b2" "contents b2 = contents b1 @ extra" "Buffer_inv b12" "contents b12 = contents b @ extra"
    using bq.put_Inr [OF p(2) assms(5)] bq.put_Inr [OF assms(1,6)] by simp_all
  have "parsing c1"
  proof -
    have "ctx_state c1 \<noteq> kExpectBody"
      using p(1) assms(2) parse_headers_state
      by (auto simp: http_parse_def headers_result_def parsing_def rbind_Inr_iff
          split: option.splits if_splits prod.splits) (metis HttpRequestParseState.distinct fst_conv)+
    with assms(4) show ?thesis by (cases "ctx_state c1") (simp_all add: parsing_def getAll_def)
  qed
  then show ?thesis
    using http_parse_chunks [OF assms(2) p(1) assms(4), of t2 extra] b assms(2)
    by (simp add: parse_outcome_reference)
qed

theorem parse_in_chunks_witness:
  "\<exists>b1 b2 b12. parseRequest (Timestamp 1) HttpContext_new Buffer_init = Some (Inr (True, HttpContext_new, b1))
     \<and> append_buf ''GET /'' b1 = Inr b2 \<and> append_buf ''GET /'' Buffer_init = Inr b12
     \<and> parse_outcome (parseRequest (Timestamp 2) HttpContext_new b2)
       = parse_outcome (parseRequest (Timestamp 2) HttpContext_new b12)"
proof -
  have pc: "parsing HttpContext_new" "\<not> getAll HttpContext_new" "ctx_state HttpContext_new = kExpectRequestLine"
    by (simp_all add: parsing_def HttpContext_new_def getAll_def)
  obtain b1 where b1: "parseRequest (Timestamp 1) HttpContext_new Buffer_init = Some (Inr (True, HttpContext_new, b1))"
    "Buffer_inv b1"
    using parseRequest_refines [OF Buffer_inv_init pc(1), of "Timestamp 1"] pc(3)
    by (auto simp: http_parse_def queue_simps)
  obtain b2 b12 where b2: "append_buf ''GET /'' b1 = Inr b2" "append_buf ''GET /'' Buffer_init = Inr b12"
    using append_ok [OF b1(2)] append_ok [OF Buffer_inv_init] by blast
  from parse_in_chunks [OF Buffer_inv_init pc(1) b1(1) pc(2) b2, of "Timestamp 2"] b1(1) b2 pc(3)
  show ?thesis by auto
qed

text \<open>C20: round trip. The bytes of any well-formed request, followed by whatever comes next on the
  connection, parse to exactly that request: the flag is set, the context is complete, method, path,
  query and version are the client's, a header lookup returns the value of the last line with that
  field name and the empty string for a name never sent, and precisely the request's bytes are
  consumed.\<close>

theorem parse_print_roundtrip:
  assumes "Buffer_inv b" and "wf_request r" and "\<forall>h \<in> set hs. wf_header h"
    and "contents b = print_request r hs @ rest"
  shows "\<exists>c' b'. parseRequest t HttpContext_new b = Some (Inr (True, c', b')) \<and> getAll c'
    \<and> req_method (ctx_request c') = req_method r \<and> req_path (ctx_request c') = req_path r
    \<and> req_query (ctx_request c') = req_query r \<and> req_version (ctx_request c') = req_version r
    \<and> req_receiveTime (ctx_request c') = t
    \<and> (\<forall>f. getHeader f (ctx_request c') = (case map_of (rev hs) f of None \<Rightarrow> [] | Some v \<Rightarrow> v))
    \<and> Buffer_inv b' \<and> contents b' = rest"
proof -
  let ?c = "\<lparr>ctx_state = kGotAll, ctx_request = r\<lparr>req_receiveTime := t, req_headers := put_each map_put hs []\<rparr>\<rparr>"
  have c: "parsing HttpContext_new" by (simp add: parsing_def HttpContext_new_def)
  obtain b' where "parseRequest t HttpContext_new b = Some (Inr (True, ?c, b'))" "Buffer_inv b'" "contents b' = rest"
    using parseRequest_refines [OF assms(1) c, of t] http_parse_printed [OF assms(2,3), of t rest] assms(4) by auto
  moreover have "getHeader f (ctx_request ?c) = (case map_of (rev hs) f of None \<Rightarrow> [] | Some v \<Rightarrow> v)" for f
    using sm.find_put_each [of "[]" f hs] by (simp add: getHeader_def split: option.splits)
  ultimately show ?thesis by (intro exI [of _ ?c] exI [of _ b']) (simp add: getAll_def)
qed

definition example_request :: HttpRequest where
  "example_request = HttpRequest_new\<lparr>req_method := kGet, req_path := ''/a'', req_query := ''?ls'', req_version := kHttp11\<rparr>"

theorem parse_print_roundtrip_witness:
  "\<exists>b c' b'. Buffer_inv b \<and> contents b = print_request example_request [(''Host'', ''x'')] @ ''Z''
     \<and> parseRequest (Timestamp 7) HttpContext_new b = Some (Inr (True, c', b'))
     \<and> req_path (ctx_request c') = ''/a'' \<and> getHeader ''Host'' (ctx_request c') = ''x'' \<and> contents b' = ''Z''"
proof -
  obtain b where b: "Buffer_inv b" "contents b = print_request example_request [(''Host'', ''x'')] @ ''Z''"
    using append_ok [OF Buffer_inv_init] by (auto simp: queue_simps)
  moreover have "wf_request example_request"
    by (simp add: wf_request_def example_request_def HttpRequest_new_def)
  moreover have "\<forall>h \<in> set [(''Host'', ''x'')]. wf_header h"
    by (simp add: wf_header_def isspace_def)
  ultimately show ?thesis
    using parse_print_roundtrip [of b example_request "[(''Host'', ''x'')]" "''Z''" "Timestamp 7"]
    by (fastforce simp: example_request_def)
qed

text \<open>A refused request line stays in the buffer and decides every later parse. If the line
  starts with a known method the method has been stored, and the next parse, whatever bytes were
  received in between, fails the assertion in \<open>setMethod\<close> and aborts the server; otherwise the next
  parse refuses the same line again.\<close>

theorem refused_line_sticks:
  assumes "Buffer_inv b" and "ctx_state c = kExpectRequestLine" and "req_method (ctx_request c) = kInvalid"
    and "parseRequest t1 c b = Some (Inr (False, c1, b1))"
    and "append_buf extra b1 = Inr b2"
  shows "parse_outcome (parseRequest t2 c1 b2) =
    (if req_method (ctx_request c1) \<noteq> kInvalid then Some (Inl AssertFailed)
     else Some (Inr (False, c1, contents b @ extra)))"
proof -
  have pc: "parsing c" using assms(2) by (simp add: parsing_def)
  have p: "http_parse t1 c (contents b) = Inr (False, c1, contents b1)" "Buffer_inv b1"
    using parseRequest_refines [OF assms(1) pc, of t1] assms(4) by (auto split: sum.splits)
  then obtain l r q where sp: "split_crlf (contents b) = Some (l, r)"
    and q: "processRequestLine l (ctx_request c) = Inr (False, q)"
    and c1: "c1 = c\<lparr>ctx_request := q\<rparr>" and b1: "contents b1 = contents b"
    using assms(2) by (auto simp: http_parse_def headers_result_def rbind_Inr_iff
        split: option.splits if_splits prod.splits)
  have b2: "Buffer_inv b2" "contents b2 = contents b @ extra"
    using bq.put_Inr [OF p(2) assms(5)] b1 by simp_all
  have again: "processRequestLine l q = (if req_method q \<noteq> kInvalid then Inl AssertFailed else Inr (False, q))"
  proof (cases "CHR '' '' \<in> set l")
    case True
    then show ?thesis
      using processRequestLine_refused [OF q] processRequestLine_second [OF True, of q] by auto
  next
    case False
    then show ?thesis
      using processRequestLine_refused [OF q] q assms(3) by simp
  qed
  have "http_parse t2 c1 (contents b2)
      = (if req_method q \<noteq> kInvalid then Inl AssertFailed else Inr (False, c1, contents b @ extra))"
    using again split_crlf_append [OF sp, of extra] assms(2) c1 b2(2) by (simp add: http_parse_def)
  moreover have "parsing c1" using pc c1 by (simp add: parsing_def)
  ultimately show ?thesis using b2 c1 by (simp add: parse_outcome_reference)
qed

theorem refused_line_sticks_witness:
  "\<exists>b c1 b1 b2. contents b = ''GET /'' @ kCRLF
     \<and> parseRequest (Timestamp 1) HttpContext_new b = Some (Inr (False, c1, b1))
     \<and> append_buf ''x'' b1 = Inr b2
     \<and> parse_outcome (parseRequest (Timestamp 2) c1 b2) = Some (Inl AssertFailed)"
proof -
  let ?r = "HttpRequest_new\<lparr>req_method := kGet\<rparr>"
  obtain b where b: "Buffer_inv b" "contents b = ''GET /'' @ kCRLF"
    using append_ok [OF Buffer_inv_init] by (auto simp: queue_simps)
  have c: "parsing HttpContext_new" "ctx_state HttpContext_new = kExpectRequestLine"
    "req_method (ctx_request HttpContext_new) = kInvalid" "ctx_request HttpContext_new = HttpRequest_new"
    by (simp_all add: parsing_def HttpContext_new_def HttpRequest_new_def)
  have "split_crlf (''GET /'' @ kCRLF) = Some (''GET /'', [])" by (simp add: kCRLF_def)
  moreover have "processRequestLine ''GET /'' HttpRequest_new = Inr (False, ?r)" by code_simp
  ultimately have "http_parse (Timestamp 1) HttpContext_new (contents b)
      = Inr (False, HttpContext_new\<lparr>ctx_request := ?r\<rparr>, contents b)"
    using b(2) c by (simp add: http_parse_def)
  then obtain b1 where b1: "parseRequest (Timestamp 1) HttpContext_new b = Some (Inr (False, HttpContext_new\<lparr>ctx_request := ?r\<rparr>, b1))"
    "Buffer_inv b1"
    using parseRequest_refines [OF b(1) c(1), of "Timestamp 1"] by auto
  obtain b2 where b2: "append_buf ''x'' b1 = Inr b2" using append_ok [OF b1(2)] by blast
  from refused_line_sticks [OF b(1) c(2,3) b1(1) b2, of "Timestamp 2"] b(2) b1(1) b2 show ?thesis by auto
qed

text \<open>C30: The parser only builds well-formed requests. Whatever bytes it is given, in however many calls, a
  request whose request line was accepted has a known method and version, and each of its header
  fields a name without a colon and a value without blanks at its ends, in a map in key order; a new
  context is well-formed and \<open>parseRequest\<close> keeps it so.\<close>

theorem parseRequest_typed:
  assumes "context_typed c" "Buffer_inv b" "parseRequest t c b = Some (Inr (ok', c', b'))"
  shows "context_typed c' \<and> Buffer_inv b' \<and> context_typed HttpContext_new"
proof -
  have "parsing c" using assms(3) by (cases "parsing c") (simp_all add: parseRequest_def parse_loop_stuck)
  with assms(3) parseRequest_refines [OF assms(2), of c t] obtain bs
    where "http_parse t c (contents b) = Inr (ok', c', bs)" "Buffer_inv b'"
    by (auto split: sum.splits prod.splits)
  then show ?thesis using http_parse_typed [OF assms(1)]
    by (auto simp: context_typed_def request_typed_def HttpContext_new_def HttpRequest_new_def)
qed

theorem parseRequest_typed_witness:
  "\<exists>c' b'. parseRequest (Timestamp 5) HttpContext_new Buffer_init = Some (Inr (True, c', b')) \<and> context_typed c'"
proof -
  obtain b' where b: "parseRequest (Timestamp 5) HttpContext_new Buffer_init = Some (Inr (True, HttpContext_new, b'))"
    using parseRequest_refines [OF Buffer_inv_init, of HttpContext_new "Timestamp 5"]
    by (auto simp: parsing_def HttpContext_new_def http_parse_def queue_simps)
  have "context_typed HttpContext_new" by (simp add: context_typed_def request_typed_def HttpContext_new_def HttpRequest_new_def)
  from parseRequest_typed [OF this Buffer_inv_init b] b show ?thesis by blast
qed

end
