(* ===== verification/HttpResponses.thy ===== *)
theory HttpResponses
  imports HttpContexts
begin

text \<open>
  \<open>HttpResponse\<close> (winterfell/net/http/wf_http_response.h, wf_http_response.cc): the response an
  application fills in and its serialisation into a buffer. The properties read the bytes back with
  the program's own line splitter and header parser.
\<close>

section \<open>State and operations\<close>

datatype HttpStatusCode =
    kUnknown | k200ok | k206PartialContent | k301MovedPermanently | k400BadRequest | k404NotFound

fun status_code :: "HttpStatusCode \<Rightarrow> int" where
  "status_code kUnknown = 0"
| "status_code k200ok = 200"
| "status_code k206PartialContent = 206"
| "status_code k301MovedPermanently = 301"
| "status_code k400BadRequest = 400"
| "status_code k404NotFound = 404"

record HttpResponse =
  rs_headers :: "(char list, char list) stdmap"
  rs_statusCode :: HttpStatusCode
  rs_statusMessage :: "char list"
  rs_closeConnection :: bool
  rs_body :: "char list"

definition HttpResponse_new :: "bool \<Rightarrow> HttpResponse" where
  "HttpResponse_new close =
     \<lparr>rs_headers = [], rs_statusCode = kUnknown, rs_statusMessage = [], rs_closeConnection = close, rs_body = []\<rparr>"

definition setStatusCode :: "HttpStatusCode \<Rightarrow> HttpResponse \<Rightarrow> HttpResponse" where
  "setStatusCode code r = r\<lparr>rs_statusCode := code\<rparr>"

definition setStatusMessage :: "char list \<Rightarrow> HttpResponse \<Rightarrow> HttpResponse" where
  "setStatusMessage message r = r\<lparr>rs_statusMessage := message\<rparr>"

definition setCloseConnection :: "bool \<Rightarrow> HttpResponse \<Rightarrow> HttpResponse" where
  "setCloseConnection on r = r\<lparr>rs_closeConnection := on\<rparr>"

definition addResponseHeader :: "char list \<Rightarrow> char list \<Rightarrow> HttpResponse \<Rightarrow> HttpResponse" where
  "addResponseHeader key val r = r\<lparr>rs_headers := map_put key val (rs_headers r)\<rparr>"

definition setContentType :: "char list \<Rightarrow> HttpResponse \<Rightarrow> HttpResponse" where
  "setContentType contentType r = addResponseHeader ''Content-Type'' contentType r"

definition setBody :: "char list \<Rightarrow> HttpResponse \<Rightarrow> HttpResponse" where
  "setBody body r = r\<lparr>rs_body := body\<rparr>"

text \<open>The strings \<open>appendToBuffer\<close> appends, in order; \<open>buf\<close> is a \<open>char[32]\<close>.\<close>

definition response_pieces :: "HttpResponse \<Rightarrow> char list list" where
  "response_pieces r =
     [snprintf_buf 32 (''HTTP/1.1 '' @ dec_int (status_code (rs_statusCode r)) @ '' ''),
      rs_statusMessage r, kCRLF]
     @ (if rs_closeConnection r then [''Connection: close'' @ kCRLF]
        else [snprintf_buf 32 (''Content-Length: '' @ dec (length (rs_body r)) @ kCRLF),
              ''Connection: Keep-Alive'' @ kCRLF])
     @ concat (map (\<lambda>(key, val). [key, '': '', val, kCRLF]) (rs_headers r))
     @ [kCRLF, rs_body r]"

definition appendToBuffer :: "HttpResponse \<Rightarrow> Buffer \<Rightarrow> Buffer res" where
  "appendToBuffer r output = put_all append_buf (response_pieces r) output"

section \<open>Facts\<close>

definition status_line :: "HttpResponse \<Rightarrow> char list" where
  "status_line r = ''HTTP/1.1 '' @ dec_int (status_code (rs_statusCode r)) @ '' '' @ rs_statusMessage r"

text \<open>The header fields sent: two the server adds, then the application's in key order.\<close>

definition sent_headers :: "HttpResponse \<Rightarrow> (char list \<times> char list) list" where
  "sent_headers r =
     (if rs_closeConnection r then [(''Connection'', ''close'')]
      else [(''Content-Length'', dec (length (rs_body r))), (''Connection'', ''Keep-Alive'')])
     @ rs_headers r"

definition response_bytes :: "HttpResponse \<Rightarrow> char list" where
  "response_bytes r =
     status_line r @ kCRLF @ concat (map header_line (sent_headers r)) @ kCRLF @ rs_body r"

lemma length_dec_status: "length (dec_int (status_code c)) \<le> 3"
proof -
  have "0 \<le> status_code c" "nat (status_code c) < 10 ^ 3" by (cases c; simp)+
  then show ?thesis using length_dec_le [of "nat (status_code c)" 3] by (simp add: dec_int_def)
qed

lemma concat_header_pieces:
  "concat (concat (map (\<lambda>(key, val). [key, '': '', val, kCRLF]) hs)) = concat (map header_line hs)"
  by (induction hs) (auto simp: header_line_def)

lemma concat_response_pieces:
  assumes "length (rs_body r) < 10 ^ 13"
  shows "concat (response_pieces r) = response_bytes r"
proof -
  have "length (dec (length (rs_body r))) \<le> 13" using assms by (intro length_dec_le) simp_all
  then have "snprintf_buf 32 (''Content-Length: '' @ dec (length (rs_body r)) @ kCRLF)
      = ''Content-Length: '' @ dec (length (rs_body r)) @ kCRLF"
    by (intro snprintf_fits) (simp add: kCRLF_def)
  moreover have "snprintf_buf 32 (''HTTP/1.1 '' @ dec_int (status_code (rs_statusCode r)) @ '' '')
      = ''HTTP/1.1 '' @ dec_int (status_code (rs_statusCode r)) @ '' ''"
    using length_dec_status [of "rs_statusCode r"] by (intro snprintf_fits) simp
  ultimately show ?thesis
    by (simp add: response_pieces_def response_bytes_def status_line_def sent_headers_def header_line_def
        concat_header_pieces)
qed

lemma appendToBuffer_ok:
  assumes "Buffer_inv b" "length (rs_body r) < 10 ^ 13"
  shows "\<exists>b'. appendToBuffer r b = Inr b' \<and> Buffer_inv b' \<and> contents b' = contents b @ response_bytes r"
  using bq.put_all_ok [OF assms(1), of "response_pieces r"] concat_response_pieces [OF assms(2)]
  by (simp add: appendToBuffer_def)

lemma dec_no_special: "CHR 0x0D \<notin> set (dec n)" "CHR '':'' \<notin> set (dec n)" "\<not> isspace (hd (dec n))" "\<not> isspace (last (dec n))"
proof -
  have d: "is_digit c" if "c \<in> set (dec n)" for c using that by (rule dec_digits)
  then show "CHR 0x0D \<notin> set (dec n)" "CHR '':'' \<notin> set (dec n)" by (fastforce simp: is_digit_def)+
  have "\<not> isspace c" if "is_digit c" for c using that by (auto simp: is_digit_def isspace_def)
  with d show "\<not> isspace (hd (dec n))" "\<not> isspace (last (dec n))" by simp_all
qed

lemma wf_header_sent:
  assumes "\<forall>h \<in> set (rs_headers r). wf_header h"
  shows "\<forall>h \<in> set (sent_headers r). wf_header h"
  using assms dec_no_special by (auto simp: sent_headers_def wf_header_def isspace_def)

lemma status_line_no_CR:
  assumes "CHR 0x0D \<notin> set (rs_statusMessage r)"
  shows "CHR 0x0D \<notin> set (status_line r)"
proof -
  have "CHR 0x0D \<notin> set (dec_int x)" for x
    using dec_no_special by (auto simp: dec_int_def)
  with assms show ?thesis by (simp add: status_line_def)
qed

section \<open>Properties\<close>

text \<open>Serialisation. Appending a response to a well-formed buffer never faults and appends
  exactly the status line, the connection headers, the application's headers in key order, the blank
  line and the body; the 32-byte formatting buffer truncates nothing for any body below 10^13 bytes.\<close>

theorem appendToBuffer_exact:
  assumes "Buffer_inv b" and "length (rs_body r) < 10 ^ 13"
  shows "\<exists>b'. appendToBuffer r b = Inr b' \<and> Buffer_inv b'
    \<and> contents b' = contents b @ status_line r @ kCRLF @ concat (map header_line (sent_headers r)) @ kCRLF @ rs_body r"
  using appendToBuffer_ok [OF assms] by (simp add: response_bytes_def)

theorem appendToBuffer_exact_witness:
  "\<exists>b'. appendToBuffer (setBody ''hi'' (setStatusCode k200ok (HttpResponse_new False))) Buffer_init = Inr b'
     \<and> contents b' = ''HTTP/1.1 200 '' @ kCRLF @ ''Content-Length: 2'' @ kCRLF @ ''Connection: Keep-Alive'' @ kCRLF @ kCRLF @ ''hi''"
proof -
  let ?r = "setBody ''hi'' (setStatusCode k200ok (HttpResponse_new False))"
  have "status_line ?r @ kCRLF @ concat (map header_line (sent_headers ?r)) @ kCRLF @ rs_body ?r
      = ''HTTP/1.1 200 '' @ kCRLF @ ''Content-Length: 2'' @ kCRLF @ ''Connection: Keep-Alive'' @ kCRLF @ kCRLF @ ''hi''"
    by code_simp
  moreover have "length (rs_body ?r) < 10 ^ 13" by (simp add: setBody_def)
  ultimately show ?thesis
    using appendToBuffer_exact [OF Buffer_inv_init, of ?r] unfolding contents_init append_Nil by metis
qed

text \<open>C21: a response reads back. The conditions: the status message holds no carriage return; each
  header of the application has no carriage return, no colon in its name, and no blank at the ends of its
  value; the application sets no Content-Length of its own; the body is below 10^13 bytes. Then the first
  line of the bytes put into the empty buffer is the status line, and the program's own header parser, run
  on the rest, stops exactly at the body with the headers sent, those the server adds and those of the
  application, under their names: of two with one name, it keeps the last. So each header of the application
  is recovered (its map being sorted), Connection is close or Keep-Alive unless the application sets it, and
  on a kept-alive connection the Content-Length is the length of the body, so that the next response on the
  connection starts where this one ends.\<close>

theorem response_reads_back:
  assumes "Buffer_inv b" and "contents b = []" and "length (rs_body r) < 10 ^ 13"
    and "\<forall>h \<in> set (rs_headers r). wf_header h" and "CHR 0x0D \<notin> set (rs_statusMessage r)"
    and "map_find ''Content-Length'' (rs_headers r) = None"
    and "appendToBuffer r b = Inr b'"
  shows "\<exists>tail q. split_crlf (contents b') = Some (status_line r, tail)
    \<and> parse_headers HttpRequest_new tail = (kGotAll, q, rs_body r)
    \<and> (\<forall>f. getHeader f q = (case map_of (rev (sent_headers r)) f of None \<Rightarrow> [] | Some v \<Rightarrow> v))
    \<and> (\<forall>f v. map_find f (rs_headers r) = Some v \<longrightarrow> map_sorted (rs_headers r) \<longrightarrow> getHeader f q = v)
    \<and> (map_find ''Connection'' (rs_headers r) = None
         \<longrightarrow> getHeader ''Connection'' q = (if rs_closeConnection r then ''close'' else ''Keep-Alive''))
    \<and> (\<not> rs_closeConnection r \<longrightarrow> undec (getHeader ''Content-Length'' q) = length (rs_body r))"
proof -
  let ?tail = "concat (map header_line (sent_headers r)) @ kCRLF @ rs_body r"
  let ?q = "HttpRequest_new\<lparr>req_headers := put_each map_put (sent_headers r) []\<rparr>"
  have "contents b' = status_line r @ kCRLF @ ?tail"
    using appendToBuffer_ok [OF assms(1,3)] assms(2,7) by (auto simp: response_bytes_def)
  then have "split_crlf (contents b') = Some (status_line r, ?tail)"
    using status_line_no_CR [OF assms(5)] by (simp add: split_crlf_line no_CR_line)
  moreover have "parse_headers HttpRequest_new ?tail = (kGotAll, ?q, rs_body r)"
    using parse_headers_printed [OF wf_header_sent [OF assms(4)], of HttpRequest_new "rs_body r"]
    by (simp add: HttpRequest_new_def)
  moreover have look: "getHeader f ?q = (case map_of (rev (sent_headers r)) f of None \<Rightarrow> [] | Some v \<Rightarrow> v)" for f
    using sm.find_put_each [of "[]" f "sent_headers r"] by (simp add: getHeader_def split: option.splits)
  moreover have "getHeader f ?q = v" if "map_find f (rs_headers r) = Some v" "map_sorted (rs_headers r)" for f v
  proof -
    have "distinct (map fst (rs_headers r))" using that(2) by (rule map_sorted_distinct)
    then have "map_of (rev (rs_headers r)) f = map_of (rs_headers r) f" by (simp add: map_of_rev_distinct)
    with that(1) look [of f] show ?thesis by (simp add: sent_headers_def map_find_def map_add_Some_iff split: option.splits)
  qed
  moreover have "getHeader ''Connection'' ?q = (if rs_closeConnection r then ''close'' else ''Keep-Alive'')"
    if "map_find ''Connection'' (rs_headers r) = None"
  proof -
    have "map_of (rev (rs_headers r)) ''Connection'' = None"
      using that by (simp add: map_find_def map_of_eq_None_iff)
    with look [of "''Connection''"] show ?thesis by (simp add: sent_headers_def map_add_def)
  qed
  moreover have "undec (getHeader ''Content-Length'' ?q) = length (rs_body r)" if "\<not> rs_closeConnection r"
  proof -
    have "map_of (rev (rs_headers r)) ''Content-Length'' = None"
      using assms(6) by (simp add: map_find_def map_of_eq_None_iff)
    with that look [of "''Content-Length''"] show ?thesis by (simp add: sent_headers_def map_add_def)
  qed
  ultimately show ?thesis by (intro exI [of _ ?tail] exI [of _ ?q] conjI) (assumption | blast)+
qed

theorem response_reads_back_witness:
  "\<exists>b' tail q. appendToBuffer (setBody ''hello'' (HttpResponse_new False)) Buffer_init = Inr b'
     \<and> split_crlf (contents b') = Some (''HTTP/1.1 0 '', tail)
     \<and> parse_headers HttpRequest_new tail = (kGotAll, q, ''hello'') \<and> undec (getHeader ''Content-Length'' q) = 5"
proof -
  let ?r = "setBody ''hello'' (HttpResponse_new False)"
  have r: "length (rs_body ?r) < 10 ^ 13" "\<forall>h \<in> set (rs_headers ?r). wf_header h" "CHR 0x0D \<notin> set (rs_statusMessage ?r)"
    "map_find ''Content-Length'' (rs_headers ?r) = None" "rs_body ?r = ''hello''" "\<not> rs_closeConnection ?r"
    by (simp_all add: setBody_def HttpResponse_new_def)
  have sl: "status_line ?r = ''HTTP/1.1 0 ''" by code_simp
  obtain b' where "appendToBuffer ?r Buffer_init = Inr b'" using appendToBuffer_ok [OF Buffer_inv_init r(1)] by blast
  with response_reads_back [OF Buffer_inv_init contents_init r(1-4)] r(5,6) sl show ?thesis by fastforce
qed

text \<open>The order in which an application sets its headers does not show: two sequences of
  \<open>addHeader\<close> calls after which every field has the same value give byte-for-byte the same response.\<close>

theorem header_order_irrelevant:
  assumes "\<And>k. map_of (rev hs1) k = map_of (rev hs2) k"
  shows "response_pieces (r\<lparr>rs_headers := put_each map_put hs1 []\<rparr>)
    = response_pieces (r\<lparr>rs_headers := put_each map_put hs2 []\<rparr>)"
proof -
  have "put_each map_put hs1 [] = put_each map_put hs2 []"
    using assms sm.valid_put_each [OF map_sorted_Nil]
    by (intro sm.entries_unique) (simp_all add: sm.find_put_each)
  then show ?thesis by simp
qed

theorem header_order_irrelevant_witness:
  "response_pieces ((HttpResponse_new True)\<lparr>rs_headers := put_each map_put [(''b'', ''1''), (''a'', ''2'')] []\<rparr>)
   = response_pieces ((HttpResponse_new True)\<lparr>rs_headers := put_each map_put [(''a'', ''2''), (''b'', ''1'')] []\<rparr>)"
  by (rule header_order_irrelevant) simp

end
