(* ===== verification/HttpServers.thy ===== *)
theory HttpServers
  imports HttpResponses
begin

text \<open>
  \<open>HttpServer\<close> (winterfell/net/http/wf_http_server.h, wf_http_server.cc): the handlers it installs
  on its TCP server. A handler's effect on the connection is the list of calls it makes on it,
  \<open>conn->send\<close> and \<open>conn->shutdown\<close>, in order; the connection's context is the parser object
  \<open>onConnection\<close> stored, \<open>None\<close> while nothing is stored. The application's callback is a parameter.
\<close>

section \<open>Handlers\<close>

datatype conn_call = Send "char list" | Shutdown

type_synonym HttpCallback = "HttpRequest \<Rightarrow> HttpResponse \<Rightarrow> HttpResponse"

definition defaultHttpCallback :: HttpCallback where
  "defaultHttpCallback req resp =
     setCloseConnection True (setStatusMessage ''Not Found'' (setStatusCode k404NotFound resp))"

definition http_onConnection :: "bool \<Rightarrow> HttpContext option \<Rightarrow> HttpContext option" where
  "http_onConnection connected ctx = (if connected then Some HttpContext_new else ctx)"

definition wants_close :: "HttpRequest \<Rightarrow> bool" where
  "wants_close req =
     (let connection = getHeader ''Connection'' req
      in connection = ''close'' \<or> (req_version req = kHttp10 \<and> connection \<noteq> ''Keep-Alive''))"

definition http_onRequest :: "HttpCallback \<Rightarrow> HttpRequest \<Rightarrow> conn_call list res" where
  "http_onRequest cb req =
     (let response = cb req (HttpResponse_new (wants_close req))
      in rbind Buffer_new (\<lambda>buf.
         rbind (appendToBuffer response buf) (\<lambda>buf.
         rbind (retrieveAllAsString buf) (\<lambda>(str, buf).
           Inr ([Send str] @ (if rs_closeConnection response then [Shutdown] else []))))))"

definition bad_request :: "char list" where
  "bad_request = ''HTTP/1.1 400 Bad Request'' @ kCRLF @ kCRLF"

text \<open>\<open>onMessage\<close> on the context and the input buffer; \<open>None\<close> when the parser never returns.\<close>

definition http_onMessage ::
  "HttpCallback \<Rightarrow> Timestamp \<Rightarrow> HttpContext option \<Rightarrow> Buffer \<Rightarrow> (conn_call list \<times> HttpContext \<times> Buffer) res option" where
  "http_onMessage cb receiveTime ctx buf =
     (case ctx of
        None \<Rightarrow> Some (Inl NullDeref)
      | Some context \<Rightarrow>
          map_option (\<lambda>m. rbind m (\<lambda>(ok, context, buf).
            let refused = (if \<not> ok then [Send bad_request, Shutdown] else [])
            in if getAll context
               then rbind (http_onRequest cb (ctx_request context)) (\<lambda>calls.
                      Inr (refused @ calls, HttpContext_reset context, buf))
               else Inr (refused, context, buf)))
          (parseRequest receiveTime context buf))"

text \<open>
  A connection's life: for each read from the socket, the bytes are appended to the input buffer
  and \<open>onMessage\<close> runs. The calls of all reads are collected.
\<close>

fun http_serve ::
  "HttpCallback \<Rightarrow> (Timestamp \<times> char list) list \<Rightarrow> HttpContext option \<Rightarrow> Buffer \<Rightarrow>
   (conn_call list \<times> HttpContext option \<times> Buffer) res option" where
  "http_serve cb [] ctx buf = Some (Inr ([], ctx, buf))"
| "http_serve cb ((t, bytes) # reads) ctx buf =
     (case readFd (ReadvBytes bytes) buf of
        Inl e \<Rightarrow> Some (Inl e)
      | Inr (n, err, buf1) \<Rightarrow>
          (case http_onMessage cb t ctx buf1 of
             None \<Rightarrow> None
           | Some (Inl e) \<Rightarrow> Some (Inl e)
           | Some (Inr (calls, ctx1, buf2)) \<Rightarrow>
               map_option (\<lambda>m. rbind m (\<lambda>(calls', ctx', buf'). Inr (calls @ calls', ctx', buf')))
                 (http_serve cb reads (Some ctx1) buf2)))"

section \<open>Facts\<close>

lemma HttpContext_reset_simp [simp]: "HttpContext_reset c = HttpContext_new"
  by (cases c) (simp add: HttpContext_reset_def HttpContext_new_def)

definition small_bodies :: "HttpCallback \<Rightarrow> bool" where
  "small_bodies cb \<longleftrightarrow> (\<forall>req close. length (rs_body (cb req (HttpResponse_new close))) < 10 ^ 13)"

lemma http_onRequest_ok:
  assumes "small_bodies cb"
  shows "http_onRequest cb req =
    (let response = cb req (HttpResponse_new (wants_close req))
     in Inr (Send (response_bytes response) # (if rs_closeConnection response then [Shutdown] else [])))"
proof -
  let ?r = "cb req (HttpResponse_new (wants_close req))"
  obtain b' where b': "appendToBuffer ?r Buffer_init = Inr b'" "Buffer_inv b'" "contents b' = response_bytes ?r"
    using appendToBuffer_ok [OF Buffer_inv_init, of ?r] assms by (auto simp: small_bodies_def queue_simps)
  then show ?thesis by (simp add: http_onRequest_def Let_def retrieveAllAsString_ok)
qed

lemma http_parse_states:
  assumes "parsing c" "http_parse t c bs = Inr (ok', c', bs')"
  shows "(parsing c' \<or> getAll c') \<and> (\<not> ok' \<longrightarrow> parsing c')"
proof (cases "ctx_state c = kExpectRequestLine")
  case False
  then show ?thesis using assms parse_headers_state [of "ctx_request c" bs]
    by (auto simp: http_parse_def headers_result_def parsing_def getAll_def split: prod.splits)
next
  case True
  show ?thesis
  proof (cases "split_crlf bs")
    case None
    then show ?thesis using assms True by (simp add: http_parse_def)
  next
    case (Some lr)
    then obtain l r where sp: "split_crlf bs = Some (l, r)" by (cases lr) auto
    with assms(2) True obtain ok1 q where q: "processRequestLine l (ctx_request c) = Inr (ok1, q)"
      and res: "(if ok1 then Inr (headers_result (parse_headers (q\<lparr>req_receiveTime := t\<rparr>) r))
                 else Inr (False, c\<lparr>ctx_request := q\<rparr>, bs)) = (Inr (ok', c', bs') :: (bool \<times> HttpContext \<times> char list) res)"
      by (auto simp: http_parse_def rbind_Inr_iff)
    show ?thesis
      using res True parse_headers_state [of "q\<lparr>req_receiveTime := t\<rparr>" r]
      by (cases ok1) (auto simp: headers_result_def parsing_def getAll_def split: prod.splits)
  qed
qed

text \<open>One message, in terms of the reference parser.\<close>

lemma http_onMessage_ok:
  assumes "Buffer_inv b" "parsing c" "small_bodies cb"
  shows "case http_parse t c (contents b) of
      Inl e \<Rightarrow> http_onMessage cb t (Some c) b = Some (Inl e)
    | Inr (ok', c', bs) \<Rightarrow> (\<exists>b'. Buffer_inv b' \<and> contents b' = bs \<and>
        (if getAll c' then
           (\<exists>calls. http_onRequest cb (ctx_request c') = Inr calls
             \<and> http_onMessage cb t (Some c) b = Some (Inr (calls, HttpContext_new, b')))
         else http_onMessage cb t (Some c) b
           = Some (Inr (if ok' then [] else [Send bad_request, Shutdown], c', b')) \<and> parsing c'))"
proof (cases "http_parse t c (contents b)")
  case (Inl e)
  then show ?thesis using parseRequest_refines [OF assms(1,2), of t]
    by (simp add: http_onMessage_def)
next
  case (Inr r)
  obtain ok' c' bs where r: "r = (ok', c', bs)" by (cases r) auto
  with Inr parseRequest_refines [OF assms(1,2), of t] obtain b'
    where b': "parseRequest t c b = Some (Inr (ok', c', b'))" "Buffer_inv b'" "contents b' = bs" by auto
  have st: "parsing c' \<or> getAll c'" "\<not> ok' \<longrightarrow> parsing c'" using http_parse_states assms(2) Inr r by blast+
  then have ok: "getAll c' \<Longrightarrow> ok'" by (auto simp: parsing_def getAll_def)
  obtain calls where "http_onRequest cb (ctx_request c') = Inr calls"
    using http_onRequest_ok [OF assms(3), of "ctx_request c'"] by (auto simp: Let_def)
  with b' st ok have "Buffer_inv b' \<and> contents b' = bs \<and>
      (if getAll c' then
         (\<exists>calls. http_onRequest cb (ctx_request c') = Inr calls
           \<and> http_onMessage cb t (Some c) b = Some (Inr (calls, HttpContext_new, b')))
       else http_onMessage cb t (Some c) b
         = Some (Inr (if ok' then [] else [Send bad_request, Shutdown], c', b')) \<and> parsing c')"
    by (auto simp: http_onMessage_def Let_def)
  then show ?thesis unfolding Inr r by auto
qed

text \<open>
  The assertion of \<open>setMethod\<close>, and when the parser runs into it: the context waits for a request line, the
  buffer holds a whole one with a blank in it, and the request has its method already.
\<close>

definition refuses_method :: "HttpContext \<Rightarrow> char list \<Rightarrow> bool" where
  "refuses_method c bs \<longleftrightarrow> ctx_state c = kExpectRequestLine
     \<and> (case split_crlf bs of
           None \<Rightarrow> False
         | Some (l, r) \<Rightarrow> CHR '' '' \<in> set l \<and> setMethod (takeWhile (\<lambda>c. c \<noteq> CHR '' '') l) (ctx_request c) = Inl AssertFailed)"

lemma processRequestLine_faults:
  assumes "processRequestLine l r = Inl e"
  shows "e = AssertFailed \<and> CHR '' '' \<in> set l \<and> setMethod (takeWhile (\<lambda>c. c \<noteq> CHR '' '') l) r = Inl AssertFailed"
proof -
  have "std_find (CHR '' '') l \<noteq> length l"
    using assms by (auto simp: processRequestLine_def)
  then have "CHR '' '' \<in> set l" using std_find_less_iff by (metis std_find_le nless_le)
  then show ?thesis using assms
    by (auto simp: processRequestLine_def Let_def setMethod_def rbind_def rassert_def split: if_splits)
qed

lemma http_parse_faults: "http_parse t c bs = Inl e \<Longrightarrow> e = AssertFailed \<and> refuses_method c bs"
  by (auto simp: http_parse_def refuses_method_def rbind_def dest!: processRequestLine_faults
      split: if_splits option.splits sum.splits prod.splits)

lemma small_bodies_default: "small_bodies defaultHttpCallback"
  by (simp add: small_bodies_def defaultHttpCallback_def setCloseConnection_def setStatusMessage_def
      setStatusCode_def HttpResponse_new_def)

text \<open>What is true after some reads: of a fault, where it is; otherwise, that the next read can be served.\<close>

definition served ::
  "HttpCallback \<Rightarrow> (Timestamp \<times> char list) list \<Rightarrow> HttpContext \<Rightarrow> Buffer \<Rightarrow> (conn_call list \<times> HttpContext option \<times> Buffer) res \<Rightarrow> bool"
where
  "served cb reads c b m \<longleftrightarrow>
     (case m of
        Inl e \<Rightarrow> e = AssertFailed \<and> (\<exists>before t bytes rest calls c' b'. reads = before @ (t, bytes) # rest
          \<and> http_serve cb before (Some c) b = Some (Inr (calls, Some c', b')) \<and> refuses_method c' (contents b' @ bytes))
      | Inr (calls, ctx, b') \<Rightarrow> Buffer_inv b' \<and> (\<exists>c'. ctx = Some c' \<and> parsing c'))"

lemma served_first:
  assumes "refuses_method c (contents b @ bytes)" shows "served cb ((t, bytes) # reads) c b (Inl AssertFailed)"
proof -
  have "(t, bytes) # reads = [] @ (t, bytes) # reads \<and> http_serve cb [] (Some c) b = Some (Inr ([], Some c, b))
      \<and> refuses_method c (contents b @ bytes)"
    using assms by simp
  then show ?thesis unfolding served_def sum.case by blast
qed

lemma served_later:
  assumes r: "readFd (ReadvBytes bytes) b = Inr (n, err, b1)" and m: "http_onMessage cb t (Some c) b1 = Some (Inr (calls, c1, b2))"
    and s: "served cb reads c1 b2 (Inl e)"
  shows "served cb ((t, bytes) # reads) c b (Inl e)"
proof -
  from s obtain before t' bytes' rest calls' c' b' where e: "e = AssertFailed" and d: "reads = before @ (t', bytes') # rest"
    "http_serve cb before (Some c1) b2 = Some (Inr (calls', Some c', b'))" "refuses_method c' (contents b' @ bytes')"
    by (auto simp: served_def)
  have "(t, bytes) # reads = ((t, bytes) # before) @ (t', bytes') # rest
      \<and> http_serve cb ((t, bytes) # before) (Some c) b = Some (Inr (calls @ calls', Some c', b'))
      \<and> refuses_method c' (contents b' @ bytes')"
    using d by (simp add: r m)
  then show ?thesis unfolding served_def sum.case using e by blast
qed

lemma http_serve_served:
  assumes "small_bodies cb" and "Buffer_inv b" and "parsing c"
  shows "\<exists>m. http_serve cb reads (Some c) b = Some m \<and> served cb reads c b m"
  using assms(2,3)
proof (induction reads arbitrary: b c)
  case Nil
  then show ?case by (simp add: served_def)
next
  case (Cons rd reads)
  obtain t bytes where rd: "rd = (t, bytes)" by (cases rd)
  obtain b1 where b1: "readFd (ReadvBytes bytes) b = Inr (int (length bytes), None, b1)" "Buffer_inv b1"
    "contents b1 = contents b @ bytes"
    using readFd_ok [OF Cons.prems(1)] by blast
  show ?case
  proof (cases "http_parse t c (contents b1)")
    case (Inl e)
    then have "http_onMessage cb t (Some c) b1 = Some (Inl AssertFailed)" "refuses_method c (contents b @ bytes)"
      using http_onMessage_ok [OF b1(2) Cons.prems(2) assms(1), of t] http_parse_faults [OF Inl] b1(3) by simp_all
    then show ?thesis using served_first by (auto simp: rd b1(1))
  next
    case (Inr r)
    obtain ok' c' bs where "r = (ok', c', bs)" by (cases r) auto
    moreover have "parsing HttpContext_new" by (simp add: parsing_def HttpContext_new_def)
    ultimately obtain calls c1 b2 where m: "http_onMessage cb t (Some c) b1 = Some (Inr (calls, c1, b2))" "Buffer_inv b2" "parsing c1"
      using http_onMessage_ok [OF b1(2) Cons.prems(2) assms(1), of t] Inr by (fastforce split: if_splits)
    obtain m' where m': "http_serve cb reads (Some c1) b2 = Some m'" "served cb reads c1 b2 m'"
      using Cons.IH [OF m(2,3)] by blast
    show ?thesis
    proof (cases m')
      case (Inl e)
      then show ?thesis using m' served_later [OF b1(1) m(1)] by (simp add: rd b1(1) m(1))
    next
      case (Inr x)
      then show ?thesis using m' by (auto simp: rd b1(1) m(1) served_def)
    qed
  qed
qed

section \<open>Properties\<close>

text \<open>One well-formed request gets one response. When the input buffer starts with the bytes of
  a well-formed request, \<open>onMessage\<close> sends exactly the response the application built for that
  request, as one message; it shuts the connection down after it exactly when the response asks to
  close; the context is fresh again. Bytes after the request, a pipelined second request included,
  stay in the buffer and are not answered by this call.\<close>

theorem http_answers_request:
  assumes "Buffer_inv b" and "small_bodies cb" and "wf_request r" and "\<forall>h \<in> set hs. wf_header h"
    and "contents b = print_request r hs @ rest"
  shows "\<exists>q b'. http_onMessage cb t (Some HttpContext_new) b =
      (let response = cb q (HttpResponse_new (wants_close q))
       in Some (Inr (Send (response_bytes response) # (if rs_closeConnection response then [Shutdown] else []),
                     HttpContext_new, b')))
    \<and> req_method q = req_method r \<and> req_path q = req_path r \<and> req_query q = req_query r
    \<and> req_version q = req_version r \<and> (\<forall>f. getHeader f q = (case map_of (rev hs) f of None \<Rightarrow> [] | Some v \<Rightarrow> v))
    \<and> Buffer_inv b' \<and> contents b' = rest"
proof -
  let ?q = "r\<lparr>req_receiveTime := t, req_headers := put_each map_put hs []\<rparr>"
  have c: "parsing HttpContext_new" by (simp add: parsing_def HttpContext_new_def)
  obtain b' calls where "Buffer_inv b'" "contents b' = rest" "http_onRequest cb ?q = Inr calls"
    "http_onMessage cb t (Some HttpContext_new) b = Some (Inr (calls, HttpContext_new, b'))"
    using http_onMessage_ok [OF assms(1) c assms(2), of t] http_parse_printed [OF assms(3,4), of t rest] assms(5)
    by (auto simp: getAll_def)
  moreover have "getHeader f ?q = (case map_of (rev hs) f of None \<Rightarrow> [] | Some v \<Rightarrow> v)" for f
    using sm.find_put_each [of "[]" f hs] by (simp add: getHeader_def split: option.splits)
  ultimately show ?thesis
    using http_onRequest_ok [OF assms(2), of ?q]
    by (intro exI [of _ ?q] exI [of _ b']) (simp add: Let_def)
qed

theorem http_answers_request_witness:
  "\<exists>b b'. contents b = print_request example_request [] @ print_request example_request []
     \<and> http_onMessage defaultHttpCallback (Timestamp 1) (Some HttpContext_new) b =
        Some (Inr ([Send (''HTTP/1.1 404 Not Found'' @ kCRLF @ ''Connection: close'' @ kCRLF @ kCRLF), Shutdown],
              HttpContext_new, b'))
     \<and> contents b' = print_request example_request []"
proof -
  have cb: "defaultHttpCallback q (HttpResponse_new x)
      = \<lparr>rs_headers = [], rs_statusCode = k404NotFound, rs_statusMessage = ''Not Found'', rs_closeConnection = True, rs_body = []\<rparr>" for q x
    by (simp add: defaultHttpCallback_def HttpResponse_new_def setCloseConnection_def setStatusMessage_def setStatusCode_def)
  then have small: "small_bodies defaultHttpCallback" by (simp add: small_bodies_def)
  have wf: "wf_request example_request" by (simp add: wf_request_def example_request_def HttpRequest_new_def)
  obtain b where b: "Buffer_inv b" "contents b = print_request example_request [] @ print_request example_request []"
    using append_ok [OF Buffer_inv_init] by (auto simp: queue_simps)
  have "response_bytes \<lparr>rs_headers = [], rs_statusCode = k404NotFound, rs_statusMessage = ''Not Found'', rs_closeConnection = True, rs_body = []\<rparr>
      = ''HTTP/1.1 404 Not Found'' @ kCRLF @ ''Connection: close'' @ kCRLF @ kCRLF"
    by code_simp
  with http_answers_request [OF b(1) small wf _ b(2), of "Timestamp 1"] b(2) show ?thesis
    by (fastforce simp: cb Let_def)
qed

text \<open>C10: the server never spins and stays consistent. Over any sequence of reads on a new
  connection, whatever bytes arrive however cut, and for an application whose response bodies stay below
  10^13 bytes, the handlers return. If they fault, the fault is the assertion of setMethod: the reads before
  were all served, the context waits for a request line, and the buffer with the read that faults holds a
  line with a blank whose method is handed to setMethod for a request that has one already, where its
  assertion fails. Otherwise the buffer is well formed at the end and the context is in a state from which
  the next parse returns.\<close>

theorem http_serve_safe:
  assumes "small_bodies cb" and "Buffer_inv b" and "parsing c"
  shows "\<exists>m. http_serve cb reads (Some c) b = Some m \<and>
    (case m of
       Inl e \<Rightarrow> e = AssertFailed \<and> (\<exists>before t bytes rest calls c' b' l r. reads = before @ (t, bytes) # rest
         \<and> http_serve cb before (Some c) b = Some (Inr (calls, Some c', b')) \<and> ctx_state c' = kExpectRequestLine
         \<and> split_crlf (contents b' @ bytes) = Some (l, r) \<and> CHR '' '' \<in> set l
         \<and> setMethod (takeWhile (\<lambda>c. c \<noteq> CHR '' '') l) (ctx_request c') = Inl AssertFailed)
     | Inr (calls, ctx, b') \<Rightarrow> Buffer_inv b' \<and> (\<exists>c'. ctx = Some c' \<and> parsing c'))"
proof -
  obtain m where m: "http_serve cb reads (Some c) b = Some m" "served cb reads c b m"
    using http_serve_served [OF assms] by blast
  then show ?thesis
    by (cases m) (fastforce simp: served_def refuses_method_def split: option.splits)+
qed

theorem http_serve_safe_witness:
  "\<exists>m. http_serve defaultHttpCallback [(Timestamp 1, ''GE''), (Timestamp 2, ''T'')] (Some HttpContext_new) Buffer_init = Some m
     \<and> (case m of Inl e \<Rightarrow> e = AssertFailed | Inr (calls, ctx, b') \<Rightarrow> Buffer_inv b')"
proof -
  have "parsing HttpContext_new" by (simp add: parsing_def HttpContext_new_def)
  from http_serve_safe [OF small_bodies_default Buffer_inv_init this, of "[(Timestamp 1, ''GE''), (Timestamp 2, ''T'')]"]
  show ?thesis by (elim ex_forward conj_forward) (simp_all split: sum.splits prod.splits)
qed

text \<open>C39: two reads abort the server. The first line a new connection sends starts with a known
  method and is refused for another reason; the application's response bodies stay below 10^13 bytes. The
  first read is then served: the server answers 400 and shuts the connection down for writing, and it keeps
  the bytes in the input buffer and the half-filled request, with its method, in the context. Whatever the
  second read holds, the parser then reads the kept line again and hands its method to setMethod, whose
  assertion fails, and the program aborts.\<close>

theorem http_two_reads_abort:
  assumes "small_bodies cb"
    and "split_crlf bytes1 = Some (l, r)" and "processRequestLine l HttpRequest_new = Inr (False, q)"
    and "req_method q \<noteq> kInvalid"
  shows "\<exists>b. http_serve cb [(t1, bytes1)] (Some HttpContext_new) Buffer_init
        = Some (Inr ([Send bad_request, Shutdown], Some (HttpContext_new\<lparr>ctx_request := q\<rparr>), b))
      \<and> contents b = bytes1
      \<and> split_crlf (contents b @ bytes2) = Some (l, r @ bytes2)
      \<and> setMethod (takeWhile (\<lambda>c. c \<noteq> CHR '' '') l) q = Inl AssertFailed
      \<and> http_serve cb [(t2, bytes2)] (Some (HttpContext_new\<lparr>ctx_request := q\<rparr>)) b = Some (Inl AssertFailed)
      \<and> http_serve cb [(t1, bytes1), (t2, bytes2)] (Some HttpContext_new) Buffer_init = Some (Inl AssertFailed)"
proof -
  let ?c1 = "HttpContext_new\<lparr>ctx_request := q\<rparr>"
  have c: "parsing HttpContext_new" "ctx_state HttpContext_new = kExpectRequestLine" "ctx_request HttpContext_new = HttpRequest_new"
    by (simp_all add: parsing_def HttpContext_new_def)
  obtain b1 where b1: "readFd (ReadvBytes bytes1) Buffer_init = Inr (int (length bytes1), None, b1)"
    "Buffer_inv b1" "contents b1 = bytes1"
    using readFd_ok [OF Buffer_inv_init] by (auto simp: queue_simps)
  have p1: "http_parse t1 HttpContext_new bytes1 = Inr (False, ?c1, bytes1)"
    using c assms(2,3) by (simp add: http_parse_def)
  obtain b2 where b2: "http_onMessage cb t1 (Some HttpContext_new) b1 = Some (Inr ([Send bad_request, Shutdown], ?c1, b2))"
    "Buffer_inv b2" "contents b2 = bytes1"
    using http_onMessage_ok [OF b1(2) c(1) assms(1), of t1] p1 b1(3) c(2) by (auto simp: getAll_def)
  obtain b3 where b3: "readFd (ReadvBytes bytes2) b2 = Inr (int (length bytes2), None, b3)"
    "Buffer_inv b3" "contents b3 = bytes1 @ bytes2"
    using readFd_ok [OF b2(2)] b2(3) by auto
  have sp: "CHR '' '' \<in> set l"
    using processRequestLine_refused [OF assms(3)] assms(4) by (auto simp: HttpRequest_new_def split: if_splits)
  have "http_parse t2 ?c1 (bytes1 @ bytes2) = Inl AssertFailed"
    using c split_crlf_append [OF assms(2)] processRequestLine_second(1) [OF sp assms(4)] by (simp add: http_parse_def)
  moreover have "parsing ?c1" using c(2) by (simp add: parsing_def)
  ultimately have "http_onMessage cb t2 (Some ?c1) b3 = Some (Inl AssertFailed)"
    using http_onMessage_ok [OF b3(2) _ assms(1), of ?c1 t2] b3(3) by simp
  moreover have "setMethod (takeWhile (\<lambda>c. c \<noteq> CHR '' '') l) q = Inl AssertFailed"
    using assms(4) by (simp add: setMethod_def)
  ultimately show ?thesis using b2(3) split_crlf_append [OF assms(2)]
    by (intro exI [of _ b2]) (simp add: b1 b2 b3)
qed

theorem http_two_reads_abort_witness:
  "\<exists>b. http_serve defaultHttpCallback [(Timestamp 1, ''GET /'' @ kCRLF)] (Some HttpContext_new) Buffer_init
      = Some (Inr ([Send bad_request, Shutdown], Some (HttpContext_new\<lparr>ctx_request := HttpRequest_new\<lparr>req_method := kGet\<rparr>\<rparr>), b))
    \<and> contents b = ''GET /'' @ kCRLF
    \<and> http_serve defaultHttpCallback [(Timestamp 2, ''x'')]
        (Some (HttpContext_new\<lparr>ctx_request := HttpRequest_new\<lparr>req_method := kGet\<rparr>\<rparr>)) b = Some (Inl AssertFailed)"
proof -
  have "split_crlf (''GET /'' @ kCRLF) = Some (''GET /'', [])" by (simp add: kCRLF_def)
  moreover have "processRequestLine ''GET /'' HttpRequest_new = Inr (False, HttpRequest_new\<lparr>req_method := kGet\<rparr>)" by code_simp
  moreover have "req_method (HttpRequest_new\<lparr>req_method := kGet\<rparr>) \<noteq> kInvalid" by simp
  ultimately show ?thesis
    using http_two_reads_abort [OF small_bodies_default, of "''GET /'' @ kCRLF" "''GET /''" "[]" _ "Timestamp 1" "''x''" "Timestamp 2"]
    by blast
qed

text \<open>When the server decides to close. For a request with the field set as given, the response
  starts out asking to close exactly if the client sent \<open>Connection: close\<close>, or speaks HTTP/1.0 and
  did not send \<open>Connection: Keep-Alive\<close>; the comparison is exact, so any other spelling counts as
  neither.\<close>

theorem wants_close_iff:
  "wants_close (addHeader (''Connection: '' @ v) 10 r) \<longleftrightarrow>
     trim_end (skip_space v) = ''close''
     \<or> (req_version r = kHttp10 \<and> trim_end (skip_space v) \<noteq> ''Keep-Alive'')"
proof -
  have "take 10 (''Connection: '' @ v) = ''Connection''" "drop (Suc 10) (''Connection: '' @ v) = '' '' @ v"
    by (simp_all add: numeral_eq_Suc)
  then have "getHeader ''Connection'' (addHeader (''Connection: '' @ v) 10 r) = trim_end (skip_space v)"
    by (simp add: getHeader_addHeader isspace_def)
  then show ?thesis by (simp add: wants_close_def Let_def request_simps)
qed

end
