(* ===== verification/Channels.thy ===== *)
theory Channels
  imports Timestamps "HOL-Library.Word"
begin

unbundle bit_operations_syntax

text \<open>
  \<open>Channel\<close> (winterfell/net/wf_channel.h, wf_channel.cc): the event masks, the interest a channel
  keeps, and the dispatch of the events \<open>poll\<close> reported. Masks are 32-bit words, as \<open>int\<close> is. A
  callback may change or destroy the channel it runs on, so the dispatch runs on a state in which the
  channel is looked up again at every read of one of its fields.
\<close>

section \<open>Event masks\<close>

text \<open>The values of the platform's \<open>poll.h\<close>.\<close>

definition POLLIN :: "32 word" where "POLLIN = 0x1"
definition POLLPRI :: "32 word" where "POLLPRI = 0x2"
definition POLLOUT :: "32 word" where "POLLOUT = 0x4"
definition POLLERR :: "32 word" where "POLLERR = 0x8"
definition POLLHUP :: "32 word" where "POLLHUP = 0x10"
definition POLLNVAL :: "32 word" where "POLLNVAL = 0x20"
definition POLLRDHUP :: "32 word" where "POLLRDHUP = 0x2000"

lemmas poll_masks = POLLIN_def POLLPRI_def POLLOUT_def POLLERR_def POLLHUP_def POLLNVAL_def POLLRDHUP_def

definition kNoneEvent :: "32 word" where "kNoneEvent = 0"
definition kReadEvent :: "32 word" where "kReadEvent = POLLIN OR POLLPRI"
definition kWriteEvent :: "32 word" where "kWriteEvent = POLLOUT"

lemmas event_masks = kNoneEvent_def kReadEvent_def kWriteEvent_def poll_masks

definition has_bits :: "32 word \<Rightarrow> 32 word \<Rightarrow> bool" where
  "has_bits w m \<longleftrightarrow> w AND m \<noteq> 0"

section \<open>The channel\<close>

text \<open>A callback is a name the program gives a meaning to; \<open>None\<close> is an empty \<open>std::function\<close>.\<close>

record 'cb Channel =
  ch_loop :: nat
  ch_readCallback :: "'cb option"
  ch_writeCallback :: "'cb option"
  ch_errorCallback :: "'cb option"
  ch_closeCallback :: "'cb option"
  ch_fd :: int
  ch_events :: "32 word"
  ch_revents :: "32 word"
  ch_index :: int

definition Channel_new :: "nat \<Rightarrow> int \<Rightarrow> 'cb Channel" where
  "Channel_new loop fd =
     \<lparr>ch_loop = loop, ch_readCallback = None, ch_writeCallback = None, ch_errorCallback = None,
      ch_closeCallback = None, ch_fd = fd, ch_events = 0, ch_revents = 0, ch_index = -1\<rparr>"

text \<open>The setters of interest, up to the call of \<open>update\<close> that ends each of them.\<close>

definition enableReading :: "'cb Channel \<Rightarrow> 'cb Channel" where
  "enableReading ch = ch\<lparr>ch_events := ch_events ch OR kReadEvent\<rparr>"

definition enableWriting :: "'cb Channel \<Rightarrow> 'cb Channel" where
  "enableWriting ch = ch\<lparr>ch_events := ch_events ch OR kWriteEvent\<rparr>"

definition disableWriting :: "'cb Channel \<Rightarrow> 'cb Channel" where
  "disableWriting ch = ch\<lparr>ch_events := ch_events ch AND NOT kWriteEvent\<rparr>"

definition disableAll :: "'cb Channel \<Rightarrow> 'cb Channel" where
  "disableAll ch = ch\<lparr>ch_events := ch_events ch OR kNoneEvent\<rparr>"

definition ch_isWriting :: "'cb Channel \<Rightarrow> bool" where
  "ch_isWriting ch = has_bits (ch_events ch) kWriteEvent"

definition isNoneEvent :: "'cb Channel \<Rightarrow> bool" where
  "isNoneEvent ch \<longleftrightarrow> ch_events ch = kNoneEvent"

definition set_revents :: "32 word \<Rightarrow> 'cb Channel \<Rightarrow> 'cb Channel" where
  "set_revents revt ch = ch\<lparr>ch_revents := revt\<rparr>"

definition set_index :: "int \<Rightarrow> 'cb Channel \<Rightarrow> 'cb Channel" where
  "set_index i ch = ch\<lparr>ch_index := i\<rparr>"

section \<open>Dispatch\<close>

text \<open>
  \<open>look s\<close> is the channel as the state \<open>s\<close> has it, \<open>None\<close> once it is destroyed; \<open>run\<close> is what a
  callback does to the state. A step of \<open>handleEvent\<close> reads the channel, and when its condition
  holds and the callback is set, runs it.
\<close>

datatype event_kind = ReadEvent Timestamp | WriteEvent | ErrorEvent | CloseEvent

fun callback_of :: "event_kind \<Rightarrow> 'cb Channel \<Rightarrow> 'cb option" where
  "callback_of (ReadEvent t) ch = ch_readCallback ch"
| "callback_of WriteEvent ch = ch_writeCallback ch"
| "callback_of ErrorEvent ch = ch_errorCallback ch"
| "callback_of CloseEvent ch = ch_closeCallback ch"

fun event_due :: "event_kind \<Rightarrow> 'cb Channel \<Rightarrow> bool" where
  "event_due CloseEvent ch = (has_bits (ch_revents ch) POLLHUP \<and> \<not> has_bits (ch_events ch) POLLIN)"
| "event_due ErrorEvent ch = has_bits (ch_revents ch) (POLLERR OR POLLNVAL)"
| "event_due (ReadEvent t) ch = has_bits (ch_revents ch) (POLLIN OR POLLPRI OR POLLRDHUP)"
| "event_due WriteEvent ch = has_bits (ch_revents ch) POLLOUT"

definition dispatch ::
  "('s \<Rightarrow> 'cb Channel option) \<Rightarrow> ('cb \<Rightarrow> event_kind \<Rightarrow> 's \<Rightarrow> 's res) \<Rightarrow> event_kind \<Rightarrow> 's \<Rightarrow> 's res" where
  "dispatch look run k s =
     (case look s of
        None \<Rightarrow> Inl UseAfterFree
      | Some ch \<Rightarrow>
          if event_due k ch
          then (case callback_of k ch of None \<Rightarrow> Inr s | Some cb \<Rightarrow> run cb k s)
          else Inr s)"

definition handleEvent ::
  "('s \<Rightarrow> 'cb Channel option) \<Rightarrow> ('cb \<Rightarrow> event_kind \<Rightarrow> 's \<Rightarrow> 's res) \<Rightarrow> Timestamp \<Rightarrow> 's \<Rightarrow> 's res" where
  "handleEvent look run receiveTime s =
     rbind (dispatch look run CloseEvent s) (\<lambda>s.
     rbind (dispatch look run ErrorEvent s) (\<lambda>s.
     rbind (dispatch look run (ReadEvent receiveTime) s) (\<lambda>s.
     dispatch look run WriteEvent s)))"

text \<open>The calls that are due on a channel nobody touches meanwhile, in order.\<close>

definition due_call :: "'cb Channel \<Rightarrow> event_kind \<Rightarrow> ('cb \<times> event_kind) list" where
  "due_call ch k =
     (if event_due k ch then (case callback_of k ch of None \<Rightarrow> [] | Some cb \<Rightarrow> [(cb, k)]) else [])"

definition due_calls :: "Timestamp \<Rightarrow> 'cb Channel \<Rightarrow> ('cb \<times> event_kind) list" where
  "due_calls t ch =
     concat (List.map (due_call ch) [CloseEvent, ErrorEvent, ReadEvent t, WriteEvent])"

fun run_calls :: "('cb \<Rightarrow> event_kind \<Rightarrow> 's \<Rightarrow> 's res) \<Rightarrow> ('cb \<times> event_kind) list \<Rightarrow> 's \<Rightarrow> 's res" where
  "run_calls run [] s = Inr s"
| "run_calls run ((cb, k) # calls) s = rbind (run cb k s) (run_calls run calls)"

section \<open>Facts\<close>

lemma bit32: "bit (w :: 32 word) n \<Longrightarrow> n < 32"
  using bit_imp_le_length [of w n] by simp

lemma has_bits_iff: "has_bits w m \<longleftrightarrow> (\<exists>n. bit w n \<and> bit m n)"
  using bit32 by (auto simp: has_bits_def bit_eq_iff bit_and_iff)

lemma has_bits_or_left [simp]: "has_bits (a OR b) m \<longleftrightarrow> has_bits a m \<or> has_bits b m"
  by (auto simp: has_bits_iff bit_or_iff)

lemma has_bits_or_right [simp]: "has_bits w (a OR b) \<longleftrightarrow> has_bits w a \<or> has_bits w b"
  by (auto simp: has_bits_iff bit_or_iff)

lemma has_bits_0 [simp]: "\<not> has_bits 0 m" "\<not> has_bits w 0"
  by (simp_all add: has_bits_def)

lemma has_bits_andnot: "has_bits (w AND NOT m) k \<longleftrightarrow> (\<exists>n. bit w n \<and> \<not> bit m n \<and> bit k n)"
  using bit32 by (auto simp: has_bits_iff bit_and_iff bit_not_iff)

lemma has_bits_mask_eval [simp]:
  "has_bits kReadEvent POLLIN" "\<not> has_bits kWriteEvent POLLIN" "\<not> has_bits kReadEvent kWriteEvent"
  "\<not> has_bits kWriteEvent kReadEvent" "has_bits kWriteEvent kWriteEvent" "has_bits kReadEvent kReadEvent"
  by (simp_all add: has_bits_def event_masks)

lemma has_bits_remove_disjoint: "\<not> has_bits m k \<Longrightarrow> has_bits (w AND NOT m) k = has_bits w k"
  unfolding has_bits_andnot unfolding has_bits_iff by blast

lemma has_bits_remove_self [simp]: "\<not> has_bits (w AND NOT m) m"
  by (auto simp: has_bits_andnot)

lemma disableAll_same [simp]: "disableAll ch = ch"
  by (simp add: disableAll_def kNoneEvent_def)

lemma events_of_setters [simp]:
  "has_bits (ch_events (enableReading ch)) kReadEvent"
  "ch_isWriting (enableWriting ch)" "\<not> ch_isWriting (disableWriting ch)"
  "ch_isWriting (enableReading ch) = ch_isWriting ch"
  by (simp_all add: enableReading_def enableWriting_def disableWriting_def ch_isWriting_def)

lemma dispatch_frame:
  assumes "look s = Some ch" and "has_bits (ch_events ch) POLLIN = has_bits (ch_events ch0) POLLIN" "ch_revents ch = ch_revents ch0"
    and "\<And>k. callback_of k ch = callback_of k ch0"
  shows "dispatch look run k s = run_calls run (due_call ch0 k) s"
proof -
  have "event_due k ch = event_due k ch0" using assms(2,3) by (cases k) (auto simp del: has_bits_or_right has_bits_mask_eval)
  then show ?thesis using assms(1,4)
    by (auto simp: dispatch_def due_call_def rbind_def split: option.splits sum.splits)
qed

lemma run_calls_append: "run_calls run (xs @ ys) = (\<lambda>s. rbind (run_calls run xs s) (run_calls run ys))"
proof
  show "run_calls run (xs @ ys) s = rbind (run_calls run xs s) (run_calls run ys)" for s
    by (induction xs arbitrary: s) (auto simp: rbind_def split: sum.splits)
qed

text \<open>A state in which the channel is alive, asks for \<open>POLLIN\<close> as \<open>ch0\<close> does and has its reported events
  and its callbacks.\<close>

definition looks_like :: "('s \<Rightarrow> 'cb Channel option) \<Rightarrow> 'cb Channel \<Rightarrow> 's \<Rightarrow> bool" where
  "looks_like look ch0 s \<longleftrightarrow> (\<exists>ch. look s = Some ch \<and> has_bits (ch_events ch) POLLIN = has_bits (ch_events ch0) POLLIN \<and> ch_revents ch = ch_revents ch0
     \<and> (\<forall>k. callback_of k ch = callback_of k ch0))"

lemma dispatch_looks_like:
  assumes "looks_like look ch0 s"
  shows "dispatch look run k s = run_calls run (due_call ch0 k) s"
proof -
  obtain ch where "look s = Some ch" "has_bits (ch_events ch) POLLIN = has_bits (ch_events ch0) POLLIN" "ch_revents ch = ch_revents ch0"
    "\<And>k. callback_of k ch = callback_of k ch0"
    using assms by (auto simp: looks_like_def)
  then show ?thesis by (rule dispatch_frame)
qed

lemma rbind_cong_inv:
  assumes "m = m'" "\<And>x. m' = Inr x \<Longrightarrow> f x = g x" shows "rbind m f = rbind m' g"
  using assms by (cases m') auto

lemma run_calls_keep:
  assumes keep: "\<And>cb k s s'. P s \<Longrightarrow> run cb k s = Inr s' \<Longrightarrow> P s'"
  shows "P s \<Longrightarrow> run_calls run calls s = Inr s' \<Longrightarrow> P s'"
proof (induction calls arbitrary: s)
  case (Cons c calls)
  then show ?case by (cases c) (auto simp: rbind_Inr_iff intro: keep)
qed simp

lemma in_due_calls:
  "(cb, k) \<in> set (due_calls t ch) \<longleftrightarrow>
     event_due k ch \<and> callback_of k ch = Some cb \<and> k \<in> {CloseEvent, ErrorEvent, ReadEvent t, WriteEvent}"
proof -
  have s: "(cb, k) \<in> set (due_call ch j) \<longleftrightarrow> k = j \<and> event_due k ch \<and> callback_of k ch = Some cb" for j
    by (cases "event_due j ch"; cases "callback_of j ch"; cases "k = j") (auto simp: due_call_def)
  have d: "set (due_calls t ch) = set (due_call ch CloseEvent) \<union> set (due_call ch ErrorEvent) \<union> set (due_call ch (ReadEvent t)) \<union> set (due_call ch WriteEvent)"
    unfolding due_calls_def list.map concat.simps set_append by (simp only: list.set(1) Un_empty_right Un_assoc)
  show ?thesis unfolding d Un_iff s by blast
qed

text \<open>The interest a channel can be given, as a sequence of calls of its setters.\<close>

datatype interest_op = EnableReading | EnableWriting | DisableWriting | DisableAll

fun set_interest :: "interest_op \<Rightarrow> 'cb Channel \<Rightarrow> 'cb Channel" where
  "set_interest EnableReading ch = enableReading ch"
| "set_interest EnableWriting ch = enableWriting ch"
| "set_interest DisableWriting ch = disableWriting ch"
| "set_interest DisableAll ch = disableAll ch"

lemma set_interest_keeps_reading:
  assumes "has_bits (ch_events ch) m" "\<not> has_bits kWriteEvent m"
  shows "has_bits (ch_events (set_interest i ch)) m"
  using assms
  by (cases i) (simp_all add: enableReading_def enableWriting_def disableWriting_def has_bits_remove_disjoint)

lemma fold_keeps_reading:
  "has_bits (ch_events ch) m \<Longrightarrow> \<not> has_bits kWriteEvent m \<Longrightarrow> has_bits (ch_events (fold set_interest ops ch)) m"
  by (induction ops arbitrary: ch) (simp_all add: set_interest_keeps_reading)

lemma set_interest_writing:
  "ch_isWriting (set_interest i ch) = (i = EnableWriting \<or> (ch_isWriting ch \<and> i \<noteq> DisableWriting))"
  by (cases i) simp_all

lemma set_interest_frame [simp]:
  "ch_revents (set_interest i ch) = ch_revents ch" "ch_fd (set_interest i ch) = ch_fd ch"
  "ch_loop (set_interest i ch) = ch_loop ch" "ch_index (set_interest i ch) = ch_index ch"
  "callback_of k (set_interest i ch) = callback_of k ch"
  by (cases i; cases k; simp add: enableReading_def enableWriting_def disableWriting_def)+

section \<open>Properties\<close>

text \<open>\<open>handleEvent\<close> runs the callbacks that are due, in the order close, error, read, write. As
  long as no callback changes the reported events, the callbacks or the interest in \<open>POLLIN\<close> of the
  channel it runs on (it may enable and disable writing), and none destroys it, the whole dispatch is
  exactly the run of the due calls one after the other, stopping at the first that faults.\<close>

theorem handleEvent_order:
  assumes "looks_like look ch s"
    and "\<And>cb k s s'. looks_like look ch s \<Longrightarrow> run cb k s = Inr s' \<Longrightarrow> looks_like look ch s'"
  shows "handleEvent look run t s = run_calls run (due_calls t ch) s"
proof -
  have keep: "looks_like look ch s \<Longrightarrow> run_calls run c s = Inr s' \<Longrightarrow> looks_like look ch s'" for c s s'
    by (rule run_calls_keep [where P = "looks_like look ch", OF assms(2)])
  have d: "looks_like look ch s \<Longrightarrow> dispatch look run k s = run_calls run (due_call ch k) s" for k s
    by (rule dispatch_looks_like)
  have "handleEvent look run t s =
    rbind (run_calls run (due_call ch CloseEvent) s) (\<lambda>s. rbind (run_calls run (due_call ch ErrorEvent) s) (\<lambda>s.
    rbind (run_calls run (due_call ch (ReadEvent t)) s) (run_calls run (due_call ch WriteEvent))))"
    unfolding handleEvent_def
    using assms(1) by (intro rbind_cong_inv d; (elim keep [rotated])?)
  also have "\<dots> = run_calls run (due_calls t ch) s"
    by (simp only: due_calls_def list.map concat.simps run_calls_append append_Nil2)
  finally show ?thesis .
qed

text \<open>A readable and writable channel with all its callbacks, in a state that logs the calls.\<close>

definition example_channel :: "nat Channel" where
  "example_channel = (Channel_new 0 5)\<lparr>ch_readCallback := Some 1, ch_writeCallback := Some 2, ch_errorCallback := Some 3,
     ch_closeCallback := Some 4, ch_events := 7, ch_revents := 0x1D\<rparr>"

lemma due_example: "due_calls t example_channel = [(3, ErrorEvent), (1, ReadEvent t), (2, WriteEvent)]"
  by (simp add: due_calls_def due_call_def example_channel_def Channel_new_def has_bits_def poll_masks)

theorem handleEvent_order_witness:
  "handleEvent (\<lambda>s. Some example_channel) (\<lambda>cb k s. Inr (s @ [cb])) (Timestamp 9) [] = Inr [3, 1, 2]"
proof -
  have "handleEvent (\<lambda>s. Some example_channel) (\<lambda>cb k s. Inr (s @ [cb])) (Timestamp 9) []
      = run_calls (\<lambda>cb k s. Inr (s @ [cb])) (due_calls (Timestamp 9) example_channel) []"
    by (rule handleEvent_order) (auto simp: looks_like_def)
  then show ?thesis by (simp add: due_example)
qed

text \<open>Reading, once enabled, is for ever. Whatever interest setters run after
  \<open>enableReading\<close>, \<open>disableAll\<close> included, the channel still asks for \<open>POLLIN\<close>, so a hang-up never
  runs the close callback of such a channel: the peer's close is seen through a read of 0 bytes only.\<close>

theorem reading_is_forever:
  "has_bits (ch_events (fold set_interest ops (enableReading ch))) POLLIN
   \<and> (\<forall>cb. (cb, CloseEvent) \<notin> set (due_calls t (set_revents rv (fold set_interest ops (enableReading ch)))))"
proof -
  have "has_bits (ch_events (enableReading ch)) POLLIN" by (simp add: enableReading_def)
  then have r: "has_bits (ch_events (fold set_interest ops (enableReading ch))) POLLIN"
    by (rule fold_keeps_reading) simp
  then show ?thesis by (simp add: in_due_calls set_revents_def)
qed

text \<open>Destroying a channel inside its own callback is a use after free. If a callback that is due,
  other than the write callback, leaves the channel destroyed and no earlier callback is due,
  \<open>handleEvent\<close> reads the destroyed channel.\<close>

theorem handleEvent_after_destroy:
  assumes "looks_like look ch s" and "due_calls t ch = (cb, k) # calls" and "k \<noteq> WriteEvent"
    and "run cb k s = Inr s'" and "look s' = None"
  shows "handleEvent look run t s = Inl UseAfterFree"
proof -
  have gone: "dispatch look run k' s' = Inl UseAfterFree" for k' using assms(5) by (simp add: dispatch_def)
  show ?thesis
    using assms(2-4) dispatch_looks_like [OF assms(1), where run = run]
    by (auto simp: handleEvent_def due_calls_def due_call_def gone split: if_splits option.splits)
qed

theorem handleEvent_after_destroy_witness:
  "handleEvent (\<lambda>s. if s then Some example_channel else None) (\<lambda>cb k s. Inr False) (Timestamp 9) True = Inl UseAfterFree"
  by (rule handleEvent_after_destroy [where ch = example_channel and cb = 3 and k = ErrorEvent and s' = False])
    (auto simp: looks_like_def due_example)

end
