(* ===== verification/PollPollers.thy ===== *)
theory PollPollers
  imports Channels
begin

text \<open>
  \<open>Poller\<close> and \<open>PollPoller\<close> (winterfell/net/wf_poller.h, wf_poller.cc, poller/wf_poll_poller.h,
  poller/wf_poll_poller.cc): the array given to \<open>poll\<close>, the map from descriptors to channels, and
  the channels themselves in a heap, since the poller writes \<open>index_\<close> and \<open>revents_\<close> into them. An
  entry missing from the heap is a destroyed channel. The result of \<open>poll\<close> is an input. The
  contract of a poller is the locale \<open>poller\<close>; \<open>PollPoller\<close> interprets it.
\<close>

section \<open>State\<close>

record pollfd =
  pfd_fd :: int
  pfd_events :: "16 word"
  pfd_revents :: "16 word"

record 'cb PollPoller =
  pp_pollfds :: "pollfd list"
  pp_channels :: "int \<Rightarrow> nat option"
  pp_heap :: "nat \<Rightarrow> 'cb Channel option"

definition PollPoller_new :: "'cb PollPoller" where
  "PollPoller_new = \<lparr>pp_pollfds = [], pp_channels = Map.empty, pp_heap = Map.empty\<rparr>"

definition deref :: "nat \<Rightarrow> 'cb PollPoller \<Rightarrow> 'cb Channel res" where
  "deref c P = (case pp_heap P c of None \<Rightarrow> Inl UseAfterFree | Some ch \<Rightarrow> Inr ch)"

definition store :: "nat \<Rightarrow> 'cb Channel \<Rightarrow> 'cb PollPoller \<Rightarrow> 'cb PollPoller" where
  "store c ch P = P\<lparr>pp_heap := (pp_heap P)(c \<mapsto> ch)\<rparr>"

definition hasChannel :: "nat \<Rightarrow> 'cb PollPoller \<Rightarrow> bool res" where
  "hasChannel c P = rbind (deref c P) (\<lambda>ch. Inr (pp_channels P (ch_fd ch) \<noteq> None))"

section \<open>Operations\<close>

text \<open>\<open>in_loop\<close> tells whether the caller runs in the loop's thread.\<close>

definition poller_updateChannel :: "bool \<Rightarrow> nat \<Rightarrow> 'cb PollPoller \<Rightarrow> 'cb PollPoller res" where
  "poller_updateChannel in_loop c P =
     (if \<not> in_loop then Inl Aborted else
      rbind (deref c P) (\<lambda>ch.
        if ch_index ch < 0 then
          rassert (pp_channels P (ch_fd ch) = None)
            (Inr (store c (set_index (int (length (pp_pollfds P))) ch)
              (P\<lparr>pp_pollfds := pp_pollfds P @ [\<lparr>pfd_fd = ch_fd ch, pfd_events = ucast (ch_events ch), pfd_revents = 0\<rparr>],
                 pp_channels := (pp_channels P)(ch_fd ch \<mapsto> c)\<rparr>)))
        else
          rassert (pp_channels P (ch_fd ch) \<noteq> None)
          (rassert (pp_channels P (ch_fd ch) = Some c)
          (let idx = ch_index ch in
           rassert (0 \<le> idx \<and> idx < int (length (pp_pollfds P)))
          (let pfd = pp_pollfds P ! nat idx in
           rassert (pfd_fd pfd = ch_fd ch \<or> pfd_fd pfd = -1)
            (Inr (P\<lparr>pp_pollfds := (pp_pollfds P)[nat idx :=
               \<lparr>pfd_fd = (if isNoneEvent ch then -1 else pfd_fd pfd),
                pfd_events = ucast (ch_events ch), pfd_revents = 0\<rparr>]\<rparr>)))))))"

definition poller_removeChannel :: "bool \<Rightarrow> nat \<Rightarrow> 'cb PollPoller \<Rightarrow> 'cb PollPoller res" where
  "poller_removeChannel in_loop c P =
     (if \<not> in_loop then Inl Aborted else
      rbind (deref c P) (\<lambda>ch.
        if ch_index ch < 0 then rassert (pp_channels P (ch_fd ch) = None) (Inr P)
        else
          rassert (pp_channels P (ch_fd ch) \<noteq> None)
          (rassert (pp_channels P (ch_fd ch) = Some c)
          (let channels = (pp_channels P)(ch_fd ch := None); idx = ch_index ch; pfds = pp_pollfds P in
           if pfds = [] then Inl OutOfBounds
           else
             (let channelAtEnd = pfd_fd (last pfds) in
              if ch_fd ch = channelAtEnd then Inr (P\<lparr>pp_channels := channels, pp_pollfds := butlast pfds\<rparr>)
              else
                (case channels channelAtEnd of
                   None \<Rightarrow> Inl NullDeref
                 | Some c' \<Rightarrow>
                     rbind (deref c' P) (\<lambda>ch'.
                       if 0 \<le> idx \<and> idx < int (length pfds)
                       then Inr (store c' (set_index idx ch') (P\<lparr>pp_channels := channels,
                              pp_pollfds := butlast (pfds[nat idx := last pfds, length pfds - 1 := pfds ! nat idx])\<rparr>))
                       else Inl OutOfBounds)))))))"

fun fillActiveChannels :: "int \<Rightarrow> pollfd list \<Rightarrow> nat list \<Rightarrow> 'cb PollPoller \<Rightarrow> (nat list \<times> 'cb PollPoller) res" where
  "fillActiveChannels numEvents [] active P = Inr (active, P)"
| "fillActiveChannels numEvents (pfd # pfds) active P =
     (if numEvents > 0 then
        if sint (pfd_revents pfd) > 0 then
          (case pp_channels P (pfd_fd pfd) of
             None \<Rightarrow> Inl AssertFailed
           | Some c \<Rightarrow>
               rbind (deref c P) (\<lambda>ch.
                 rassert (ch_fd ch = pfd_fd pfd)
                   (fillActiveChannels (numEvents - 1) pfds (active @ [c])
                     (store c (set_revents (scast (pfd_revents pfd)) ch) P))))
        else fillActiveChannels numEvents pfds active P
      else Inr (active, P))"

text \<open>
  \<open>poll\<close>: the call to the system returns \<open>numEvents\<close> and leaves \<open>revs\<close> in the \<open>revents\<close> of the
  array, unless it fails with a negative result.
\<close>

definition put_revents :: "16 word list \<Rightarrow> pollfd list \<Rightarrow> pollfd list" where
  "put_revents revs pfds = map2 (\<lambda>pfd r. pfd\<lparr>pfd_revents := r\<rparr>) pfds revs"

definition poller_poll :: "int \<Rightarrow> 16 word list \<Rightarrow> nat list \<Rightarrow> 'cb PollPoller \<Rightarrow> (nat list \<times> 'cb PollPoller) res" where
  "poller_poll numEvents revs active P =
     (if numEvents < 0 then Inr (active, P)
      else
        let P1 = P\<lparr>pp_pollfds := put_revents revs (pp_pollfds P)\<rparr>
        in if numEvents > 0 then fillActiveChannels numEvents (pp_pollfds P1) active P1 else Inr (active, P1))"

text \<open>
  The channel's own calls: \<open>EventLoop::updateChannel\<close> checks the owner, a setter of interest changes
  the mask and updates.
\<close>

definition loop_updateChannel :: "nat \<Rightarrow> bool \<Rightarrow> nat \<Rightarrow> 'cb PollPoller \<Rightarrow> 'cb PollPoller res" where
  "loop_updateChannel loop in_loop c P =
     rbind (deref c P) (\<lambda>ch. rassert (ch_loop ch = loop)
       (if in_loop then poller_updateChannel in_loop c P else Inl Aborted))"

definition loop_removeChannel :: "bool \<Rightarrow> nat \<Rightarrow> 'cb PollPoller \<Rightarrow> 'cb PollPoller res" where
  "loop_removeChannel in_loop c P = (if in_loop then poller_removeChannel in_loop c P else Inl Aborted)"

definition channel_set :: "bool \<Rightarrow> nat \<Rightarrow> interest_op \<Rightarrow> 'cb PollPoller \<Rightarrow> 'cb PollPoller res" where
  "channel_set in_loop c i P =
     rbind (deref c P) (\<lambda>ch. loop_updateChannel (ch_loop ch) in_loop c (store c (set_interest i ch) P))"

section \<open>The contract of a poller\<close>

text \<open>
  What the channels rely on. \<open>fd_of s c\<close> is the descriptor of a channel the poller can be asked
  about, \<open>mask s c\<close> the interest it was last asked for, \<open>watched s\<close> what the system is asked to
  watch; \<open>live m\<close> says that an interest keeps a channel watched.
\<close>

locale poller =
  fixes Inv :: "'s \<Rightarrow> bool"
    and fd_of :: "'s \<Rightarrow> 'c \<Rightarrow> 'fd option"
    and mask :: "'s \<Rightarrow> 'c \<Rightarrow> 'm"
    and change :: "'a \<Rightarrow> 'm \<Rightarrow> 'm"
    and live :: "'m \<Rightarrow> bool"
    and watched :: "'s \<Rightarrow> 'fd \<Rightarrow> 'e option"
    and asked :: "'m \<Rightarrow> 'e"
    and ask :: "'c \<Rightarrow> 'a \<Rightarrow> 's \<Rightarrow> 's res"
    and forget :: "'c \<Rightarrow> 's \<Rightarrow> 's res"
  assumes ask_ok: "Inv s \<Longrightarrow> fd_of s c = Some fd \<Longrightarrow> watched s fd = None \<or> live (change a (mask s c)) \<Longrightarrow>
      \<exists>s'. ask c a s = Inr s' \<and> Inv s' \<and> fd_of s' c = Some fd \<and> mask s' c = change a (mask s c)
        \<and> watched s' = (watched s)(fd \<mapsto> asked (change a (mask s c)))"
    and forget_ok: "Inv s \<Longrightarrow> fd_of s c = Some fd \<Longrightarrow> watched s fd \<noteq> None \<Longrightarrow>
      \<exists>s'. forget c s = Inr s' \<and> Inv s' \<and> watched s' = (watched s)(fd := None)"
begin

fun ask_all :: "'c \<Rightarrow> 'a list \<Rightarrow> 's \<Rightarrow> 's res" where
  "ask_all c [] s = Inr s"
| "ask_all c (a # as) s = rbind (ask c a s) (ask_all c as)"

fun stays_live :: "'m \<Rightarrow> 'a list \<Rightarrow> bool" where
  "stays_live m [] = True"
| "stays_live m (a # as) = (live (change a m) \<and> stays_live (change a m) as)"

lemma ask_all_ok:
  assumes "Inv s" "fd_of s c = Some fd" "watched s fd = Some (asked (mask s c))" "stays_live (mask s c) as"
  shows "\<exists>s'. ask_all c as s = Inr s' \<and> Inv s' \<and> fd_of s' c = Some fd \<and> mask s' c = fold change as (mask s c)
    \<and> watched s' = (watched s)(fd \<mapsto> asked (fold change as (mask s c)))"
  using assms
proof (induction as arbitrary: s)
  case Nil
  then show ?case by auto
next
  case (Cons a as)
  then obtain s1 where s1: "ask c a s = Inr s1" "Inv s1" "fd_of s1 c = Some fd" "mask s1 c = change a (mask s c)"
    "watched s1 = (watched s)(fd \<mapsto> asked (change a (mask s c)))"
    using ask_ok by (metis stays_live.simps(2))
  moreover obtain s' where "ask_all c as s1 = Inr s'" "Inv s'" "fd_of s' c = Some fd"
    "mask s' c = fold change as (mask s1 c)" "watched s' = (watched s1)(fd \<mapsto> asked (fold change as (mask s1 c)))"
    using Cons.IH [of s1] Cons.prems(4) s1 by (metis fun_upd_same stays_live.simps(2))
  ultimately show ?case using s1 by (intro exI [of _ s'] conjI) (simp_all add: fun_eq_iff)
qed

text \<open>The life of a channel: it is added, asked for more, and forgotten.\<close>

lemma life:
  assumes "Inv s" "fd_of s c = Some fd" "watched s fd = None" "stays_live (change a (mask s c)) as"
  shows "\<exists>s1 s2 s3. ask c a s = Inr s1 \<and> ask_all c as s1 = Inr s2 \<and> forget c s2 = Inr s3 \<and> Inv s3
    \<and> watched s2 = (watched s)(fd \<mapsto> asked (fold change as (change a (mask s c)))) \<and> watched s3 = watched s"
proof -
  obtain s1 where s1: "ask c a s = Inr s1" "Inv s1" "fd_of s1 c = Some fd" "mask s1 c = change a (mask s c)"
    "watched s1 = (watched s)(fd \<mapsto> asked (change a (mask s c)))"
    using ask_ok assms(1-3) by blast
  obtain s2 where s2: "ask_all c as s1 = Inr s2" "Inv s2" "fd_of s2 c = Some fd"
    "watched s2 = (watched s1)(fd \<mapsto> asked (fold change as (mask s1 c)))"
    using ask_all_ok [OF s1(2,3), of as] s1(4,5) assms(4) by auto
  obtain s3 where "forget c s2 = Inr s3" "Inv s3" "watched s3 = (watched s2)(fd := None)"
    using forget_ok [OF s2(2,3)] s2(4) by auto
  with s1 s2 assms(3) show ?thesis by auto
qed

end

section \<open>The invariant\<close>

definition fd_at :: "'cb PollPoller \<Rightarrow> nat \<Rightarrow> int" where
  "fd_at P c = ch_fd (the (pp_heap P c))"

definition mask_at :: "'cb PollPoller \<Rightarrow> nat \<Rightarrow> 32 word" where
  "mask_at P c = ch_events (the (pp_heap P c))"

definition index_at :: "'cb PollPoller \<Rightarrow> nat \<Rightarrow> int" where
  "index_at P c = ch_index (the (pp_heap P c))"

definition entry :: "pollfd \<Rightarrow> int \<times> 16 word" where
  "entry pfd = (pfd_fd pfd, pfd_events pfd)"

definition short :: "32 word \<Rightarrow> 16 word" where
  "short m = ucast m"

definition entry_at :: "'cb PollPoller \<Rightarrow> nat \<Rightarrow> int \<times> 16 word" where
  "entry_at P c = (fd_at P c, short (mask_at P c))"

text \<open>
  \<open>os\<close> are the registered channels in the order of the array: each is alive, knows its own place,
  its entry carries its descriptor and its interest, and the map leads to exactly these channels.
\<close>

definition owned :: "nat list \<Rightarrow> 'cb PollPoller \<Rightarrow> bool" where
  "owned os P \<longleftrightarrow>
     (\<forall>c \<in> set os. pp_heap P c \<noteq> None \<and> 0 \<le> fd_at P c) \<and> distinct (List.map (fd_at P) os)
     \<and> List.map (index_at P) os = List.map int [0..<length os]
     \<and> List.map entry (pp_pollfds P) = List.map (entry_at P) os
     \<and> pp_channels P = map_of (List.map (\<lambda>c. (fd_at P c, c)) os)"

definition pp_inv :: "'cb PollPoller \<Rightarrow> bool" where
  "pp_inv P \<longleftrightarrow> (\<exists>os. owned os P)"

text \<open>What the system watches: it ignores negative descriptors.\<close>

definition pp_watched :: "'cb PollPoller \<Rightarrow> int \<Rightarrow> 16 word option" where
  "pp_watched P fd = (if fd < 0 then None else map_of (List.map entry (pp_pollfds P)) fd)"

definition pp_fd_of :: "'cb PollPoller \<Rightarrow> nat \<Rightarrow> int option" where
  "pp_fd_of P c =
     (case pp_heap P c of None \<Rightarrow> None
      | Some ch \<Rightarrow>
          if 0 \<le> ch_fd ch \<and> pp_channels P (ch_fd ch) = (if ch_index ch < 0 then None else Some c)
          then Some (ch_fd ch) else None)"

fun change_mask :: "interest_op \<Rightarrow> 32 word \<Rightarrow> 32 word" where
  "change_mask EnableReading m = m OR kReadEvent"
| "change_mask EnableWriting m = m OR kWriteEvent"
| "change_mask DisableWriting m = m AND NOT kWriteEvent"
| "change_mask DisableAll m = m OR kNoneEvent"

lemma events_set_interest [simp]: "ch_events (set_interest i ch) = change_mask i (ch_events ch)"
  by (cases i) (simp_all add: enableReading_def enableWriting_def disableWriting_def kNoneEvent_def)

section \<open>Facts on maps\<close>

lemma map_of_eqI:
  assumes "distinct (List.map fst xs)" "\<And>k v. (k, v) \<in> set xs \<longleftrightarrow> m k = Some v"
  shows "map_of xs = m"
proof
  fix k
  show "map_of xs k = m k"
  proof (cases "m k")
    case None
    then have "(k, v) \<notin> set xs" for v using assms(2) by simp
    then show ?thesis using None by (metis map_of_SomeD not_None_eq)
  next
    case (Some v)
    then show ?thesis using assms by (simp add: map_of_is_SomeI)
  qed
qed

lemma map_of_replace:
  assumes "distinct (List.map fst (xs @ (k, v) # ys))"
  shows "map_of (xs @ (k, v') # ys) = (map_of (xs @ (k, v) # ys))(k \<mapsto> v')"
proof -
  have "map_of xs k = None" "map_of ys k = None" using assms by (auto simp: map_of_eq_None_iff)
  then show ?thesis by (auto simp: fun_eq_iff map_add_def split: option.splits)
qed

lemma map_of_drop_key:
  assumes "distinct (List.map fst (xs @ (k, v) # ys))"
  shows "map_of (xs @ ys) = (map_of (xs @ (k, v) # ys))(k := None)"
proof -
  have "map_of xs k = None" "map_of ys k = None" using assms by (auto simp: map_of_eq_None_iff)
  then show ?thesis by (auto simp: fun_eq_iff map_add_def split: option.splits)
qed

lemma map_of_perm:
  assumes "distinct (List.map fst xs)" "set xs = set ys" "distinct (List.map fst ys)"
  shows "map_of xs = map_of ys"
  using assms by (intro map_of_eqI) auto

text \<open>The last element takes the place of one that goes: the map loses that key.\<close>

lemma map_of_fill_gap:
  assumes "distinct (List.map fst (xs @ (k, v) # ys @ [z]))"
  shows "map_of (xs @ z # ys) = (map_of (xs @ (k, v) # ys @ [z]))(k := None)"
proof -
  have "map_of (xs @ z # ys) = map_of (xs @ ys @ [z])" using assms by (intro map_of_perm) auto
  with map_of_drop_key [OF assms] show ?thesis by simp
qed

lemma split_same_place:
  assumes "length ps = length (xs @ c # ys)"
  obtains as p bs where "ps = as @ p # bs" "length as = length xs" "length bs = length ys"
proof
  show "ps = take (length xs) ps @ (ps ! length xs) # drop (Suc (length xs)) ps"
    using assms by (intro id_take_nth_drop) simp
qed (use assms in simp_all)

section \<open>The operations keep it\<close>

lemma fd_at_store [simp]: "fd_at (store c ch P) d = (if d = c then ch_fd ch else fd_at P d)"
  by (simp add: fd_at_def store_def)

lemma mask_at_store [simp]: "mask_at (store c ch P) d = (if d = c then ch_events ch else mask_at P d)"
  by (simp add: mask_at_def store_def)

lemma index_at_store [simp]: "index_at (store c ch P) d = (if d = c then ch_index ch else index_at P d)"
  by (simp add: index_at_def store_def)

lemma store_fields [simp]:
  "pp_pollfds (store c ch P) = pp_pollfds P" "pp_channels (store c ch P) = pp_channels P"
  "pp_heap (store c ch P) = (pp_heap P)(c \<mapsto> ch)" "pp_watched (store c ch P) = pp_watched P"
  by (simp_all add: store_def pp_watched_def fun_eq_iff)

lemma at_update_pollfds [simp]:
  "fd_at (pp_pollfds_update g P) = fd_at P" "fd_at (pp_channels_update h P) = fd_at P"
  "mask_at (pp_pollfds_update g P) = mask_at P" "mask_at (pp_channels_update h P) = mask_at P"
  "index_at (pp_pollfds_update g P) = index_at P" "index_at (pp_channels_update h P) = index_at P"
  "entry_at (pp_pollfds_update g P) = entry_at P" "entry_at (pp_channels_update h P) = entry_at P"
  by (simp_all add: fd_at_def mask_at_def index_at_def entry_at_def fun_eq_iff)

lemma owned_length: "owned os P \<Longrightarrow> length (pp_pollfds P) = length os"
  unfolding owned_def by (metis length_map)

lemma owned_nth:
  assumes "owned os P" "i < length os"
  shows "index_at P (os ! i) = int i" "entry (pp_pollfds P ! i) = entry_at P (os ! i)" "pp_heap P (os ! i) \<noteq> None"
proof -
  have "List.map (index_at P) os ! i = List.map int [0..<length os] ! i" "List.map entry (pp_pollfds P) ! i = List.map (entry_at P) os ! i"
    using assms(1) unfolding owned_def by metis+
  then show "index_at P (os ! i) = int i" "entry (pp_pollfds P ! i) = entry_at P (os ! i)"
    using assms owned_length [OF assms(1)] by simp_all
  show "pp_heap P (os ! i) \<noteq> None" using assms by (simp add: owned_def)
qed

lemma owned_in:
  assumes "owned os P" "c \<in> set os"
  shows "0 \<le> index_at P c" "index_at P c < int (length os)" "os ! nat (index_at P c) = c"
    "pp_channels P (fd_at P c) = Some c" "0 \<le> fd_at P c" "pp_heap P c \<noteq> None"
proof -
  obtain i where i: "i < length os" "os ! i = c" using assms(2) by (auto simp: in_set_conv_nth)
  then show "0 \<le> index_at P c" "index_at P c < int (length os)" "os ! nat (index_at P c) = c"
    using owned_nth(1) [OF assms(1) i(1)] by simp_all
  show "pp_channels P (fd_at P c) = Some c"
    using assms unfolding owned_def by (auto simp: o_def intro!: map_of_is_SomeI)
  show "0 \<le> fd_at P c" "pp_heap P c \<noteq> None" using assms by (auto simp: owned_def)
qed

lemma owned_channel:
  assumes "owned os P" "pp_channels P fd = Some c" shows "c \<in> set os" "fd = fd_at P c"
proof -
  have "(fd, c) \<in> set (List.map (\<lambda>c. (fd_at P c, c)) os)"
    using assms unfolding owned_def by (metis map_of_SomeD)
  then show "c \<in> set os" "fd = fd_at P c" by auto
qed

lemma owned_cong:
  assumes "owned os P"
    and "\<And>c. c \<in> set os \<Longrightarrow> fd_at Q c = fd_at P c \<and> index_at Q c = index_at P c \<and> mask_at Q c = mask_at P c \<and> pp_heap Q c \<noteq> None"
    and "List.map entry (pp_pollfds Q) = List.map entry (pp_pollfds P)" "pp_channels Q = pp_channels P"
  shows "owned os Q"
proof -
  have e: "List.map (fd_at Q) os = List.map (fd_at P) os" "List.map (index_at Q) os = List.map (index_at P) os"
    "List.map (entry_at Q) os = List.map (entry_at P) os"
    "List.map (\<lambda>d. (fd_at Q d, d)) os = List.map (\<lambda>d. (fd_at P d, d)) os"
    using assms(2) by (auto simp: entry_at_def intro!: map_cong)
  have "\<forall>c\<in>set os. pp_heap Q c \<noteq> None \<and> 0 \<le> fd_at Q c" using assms(1,2) by (auto simp: owned_def)
  then show ?thesis using assms(1) unfolding owned_def by (simp only: e assms(3,4))
qed

lemma owned_store: "owned os P \<Longrightarrow> c \<notin> set os \<Longrightarrow> owned os (store c ch P)"
  by (rule owned_cong) (auto simp: owned_def)

lemma owned_fd_nonneg: "owned os P \<Longrightarrow> (fd, e) \<in> set (List.map entry (pp_pollfds P)) \<Longrightarrow> 0 \<le> fd"
  by (auto simp: owned_def entry_at_def)

lemma owned_watched: "owned os P \<Longrightarrow> pp_watched P = map_of (List.map (entry_at P) os)"
proof
  fix fd assume o: "owned os P"
  have e: "List.map entry (pp_pollfds P) = List.map (entry_at P) os" using o by (simp add: owned_def)
  have "map_of (List.map (entry_at P) os) fd = None" if "fd < 0"
    using o that by (force simp: owned_def map_of_eq_None_iff entry_at_def)
  then show "pp_watched P fd = map_of (List.map (entry_at P) os) fd" by (simp add: pp_watched_def e)
qed

lemma owned_watched_iff:
  assumes "owned os P" shows "pp_watched P fd = None \<longleftrightarrow> pp_channels P fd = None"
  using assms unfolding owned_watched [OF assms]
  by (simp add: owned_def map_of_eq_None_iff entry_at_def image_image)

lemma owned_snoc:
  assumes o: "owned os P" and c: "c \<notin> set os" "pp_heap Q c \<noteq> None" "0 \<le> fd_at Q c" "index_at Q c = int (length os)"
    "fd_at Q c \<notin> set (List.map (fd_at P) os)"
    and same: "\<And>d. d \<noteq> c \<Longrightarrow> fd_at Q d = fd_at P d \<and> index_at Q d = index_at P d \<and> mask_at Q d = mask_at P d \<and> pp_heap Q d = pp_heap P d"
    and arr: "List.map entry (pp_pollfds Q) = List.map entry (pp_pollfds P) @ [entry_at Q c]"
    and ch: "pp_channels Q = (pp_channels P)(fd_at Q c \<mapsto> c)"
  shows "owned (os @ [c]) Q"
proof -
  have s: "fd_at Q d = fd_at P d \<and> index_at Q d = index_at P d \<and> mask_at Q d = mask_at P d" if "d \<in> set os" for d
    using same [of d] that c(1) by metis
  have e: "List.map (fd_at Q) os = List.map (fd_at P) os" "List.map (index_at Q) os = List.map (index_at P) os"
    "List.map (entry_at Q) os = List.map (entry_at P) os"
    "List.map (\<lambda>d. (fd_at Q d, d)) os = List.map (\<lambda>d. (fd_at P d, d)) os"
    using s by (auto simp: entry_at_def intro!: map_cong)
  have "\<forall>d\<in>set os. pp_heap Q d \<noteq> None \<and> 0 \<le> fd_at Q d"
    using owned_in(5,6) [OF o] s same c(1) by metis
  moreover have "pp_channels Q = map_of (List.map (\<lambda>d. (fd_at Q d, d)) (os @ [c]))"
  proof -
    have "map_of (List.map (\<lambda>d. (fd_at P d, d)) os) (fd_at Q c) = None"
      using c(5) by (simp add: map_of_eq_None_iff image_image)
    then show ?thesis
      using o by (auto simp: ch e owned_def fun_eq_iff map_add_def split: option.splits)
  qed
  ultimately show ?thesis using o c unfolding owned_def by (simp add: e arr del: map_eq_conv)
qed

lemma update_new:
  assumes o: "owned os P" and c: "pp_heap P c = Some ch" "ch_index ch < 0" "0 \<le> ch_fd ch" "pp_channels P (ch_fd ch) = None"
  shows "\<exists>P'. poller_updateChannel True c P = Inr P' \<and> owned (os @ [c]) P'
    \<and> pp_watched P' = (pp_watched P)(ch_fd ch \<mapsto> short (ch_events ch)) \<and> pp_heap P' = (pp_heap P)(c \<mapsto> set_index (int (length os)) ch)
    \<and> pp_channels P' (ch_fd ch) = Some c"
proof -
  let ?ch = "set_index (int (length os)) ch"
  let ?P = "P\<lparr>pp_pollfds := pp_pollfds P @ [\<lparr>pfd_fd = ch_fd ch, pfd_events = ucast (ch_events ch), pfd_revents = 0\<rparr>],
                 pp_channels := (pp_channels P)(ch_fd ch \<mapsto> c)\<rparr>"
  have new: "c \<notin> set os" using owned_in(1) [OF o, of c] c by (auto simp: index_at_def)
  have fd: "ch_fd ch \<notin> set (List.map (fd_at P) os)"
    using owned_in(4) [OF o] c(4) by auto
  have sc [simp]: "ch_fd ?ch = ch_fd ch" "ch_events ?ch = ch_events ch" "ch_index ?ch = int (length os)"
    by (simp_all add: set_index_def)
  have own: "owned (os @ [c]) (store c ?ch ?P)"
    using new c(3) fd by (intro owned_snoc [OF o]) (auto simp: entry_at_def entry_def short_def)
  have "pp_watched (store c ?ch ?P) = (pp_watched P)(ch_fd ch \<mapsto> short (ch_events ch))"
  proof -
    have "map_of (List.map entry (pp_pollfds P)) (ch_fd ch) = None"
      using owned_watched_iff [OF o, of "ch_fd ch"] c(3,4) by (simp add: pp_watched_def)
    then show ?thesis using c(3)
      by (auto simp: pp_watched_def fun_eq_iff entry_def short_def map_add_def split: option.splits)
  qed
  with own show ?thesis
    using c owned_length [OF o] by (simp add: poller_updateChannel_def deref_def)
qed

lemma update_old:
  assumes o: "owned os P" and c: "c \<in> set os" "m \<noteq> 0"
  shows "\<exists>P'. poller_updateChannel True c (store c ((the (pp_heap P c))\<lparr>ch_events := m\<rparr>) P) = Inr P' \<and> owned os P'
    \<and> pp_watched P' = (pp_watched P)(fd_at P c \<mapsto> short m) \<and> pp_heap P' = (pp_heap P)(c \<mapsto> (the (pp_heap P c))\<lparr>ch_events := m\<rparr>)
    \<and> pp_channels P' = pp_channels P"
proof -
  let ?ch = "(the (pp_heap P c))\<lparr>ch_events := m\<rparr>"
  obtain xs ys where os: "os = xs @ c # ys" using c(1) by (auto simp: in_set_conv_decomp)
  have i: "index_at P c = int (length xs)" using owned_nth(1) [OF o, of "length xs"] by (simp add: os)
  obtain ps p qs where arr: "pp_pollfds P = ps @ p # qs" "length ps = length xs" "length qs = length ys"
    using owned_length [OF o] unfolding os by (rule split_same_place)
  have "List.map entry (ps @ p # qs) = List.map (entry_at P) (xs @ c # ys)" using o by (simp add: owned_def os arr(1))
  then have e: "List.map entry ps = List.map (entry_at P) xs" "entry p = entry_at P c" "List.map entry qs = List.map (entry_at P) ys"
    using arr(2,3) by (simp_all add: append_eq_append_conv)
  have out: "c \<notin> set xs" "c \<notin> set ys" using o by (auto simp: owned_def os distinct_map)
  let ?p = "\<lparr>pfd_fd = pfd_fd p, pfd_events = ucast m, pfd_revents = 0\<rparr>"
  let ?P = "store c ?ch (P\<lparr>pp_pollfds := ps @ ?p # qs\<rparr>)"
  have f: "pfd_fd p = fd_at P c" using e(2) by (simp add: entry_def entry_at_def)
  have at: "ch_fd ?ch = fd_at P c" "ch_index ?ch = index_at P c" by (simp_all add: fd_at_def index_at_def)
  have en: "List.map (entry_at ?P) os = List.map (entry_at P) xs @ (fd_at P c, short m) # List.map (entry_at P) ys"
    using out by (auto simp: os entry_at_def at)
  have own: "owned os ?P"
  proof -
    have fds: "fd_at ?P d = fd_at P d" "index_at ?P d = index_at P d" for d by (simp_all add: at)
    have "pp_heap ?P d \<noteq> None" if "d \<in> set os" for d using owned_in(6) [OF o that] by simp
    then show ?thesis using o unfolding owned_def en fds
      by (simp add: e f entry_def short_def os)
  qed
  moreover have "pp_watched ?P = (pp_watched P)(fd_at P c \<mapsto> short m)"
  proof -
    have d: "distinct (List.map fst (List.map (entry_at P) xs @ (fd_at P c, short (mask_at P c)) # List.map (entry_at P) ys))"
      using o by (auto simp: owned_def os entry_at_def o_def distinct_map inj_on_def)
    have "List.map (entry_at P) os = List.map (entry_at P) xs @ (fd_at P c, short (mask_at P c)) # List.map (entry_at P) ys"
      by (simp add: os entry_at_def)
    with map_of_replace [OF d, of "short m"] show ?thesis
      unfolding owned_watched [OF own] owned_watched [OF o] en by argo
  qed
  moreover have "poller_updateChannel True c (store c ?ch P) = Inr ?P"
    using owned_in(4,6) [OF o c(1)] i c(2)
    by (simp add: poller_updateChannel_def deref_def Let_def at f arr nth_append list_update_append isNoneEvent_def
        kNoneEvent_def store_def)
  ultimately show ?thesis by (intro exI [of _ ?P]) simp
qed

lemma remove_owned:
  assumes o: "owned os P" and c: "c \<in> set os"
  shows "\<exists>P' os'. poller_removeChannel True c P = Inr P' \<and> owned os' P' \<and> set os' = set os - {c}
    \<and> pp_watched P' = (pp_watched P)(fd_at P c := None)
    \<and> (\<forall>d. fd_at P' d = fd_at P d \<and> mask_at P' d = mask_at P d)"
proof -
  obtain ch where ch: "pp_heap P c = Some ch" using owned_in(6) [OF o c] by blast
  have f: "ch_fd ch = fd_at P c" "ch_index ch = index_at P c" using ch by (simp_all add: fd_at_def index_at_def)
  have ne: "os \<noteq> []" "pp_pollfds P \<noteq> []" using c owned_length [OF o] by auto
  define z where "z = last os"
  obtain os0 where os0: "os = os0 @ [z]" using ne(1) z_def by (metis append_butlast_last_id)
  obtain ps q where arr: "pp_pollfds P = ps @ [q]" "length ps = length os0"
    using ne(2) owned_length [OF o] os0 by (metis append_butlast_last_id length_append_singleton add_right_cancel Suc_eq_plus1)
  have "List.map entry (ps @ [q]) = List.map (entry_at P) (os0 @ [z])" using o by (simp add: owned_def os0 arr(1))
  then have e: "List.map entry ps = List.map (entry_at P) os0" "entry q = entry_at P z" using arr(2) by simp_all
  then have q: "pfd_fd q = fd_at P z" by (simp add: entry_def entry_at_def)
  have dist: "distinct (List.map (fd_at P) (os0 @ [z]))" using o by (simp add: owned_def os0)
  have chans: "pp_channels P = map_of (List.map (\<lambda>c. (fd_at P c, c)) (os0 @ [z]))" using o by (simp add: owned_def os0)
  have wat: "pp_watched P = map_of (List.map (entry_at P) (os0 @ [z]))" using owned_watched [OF o] by (simp add: os0)
  have keys: "distinct (List.map fst (List.map (\<lambda>c. (fd_at P c, c)) (os0 @ [z])))"
    "distinct (List.map fst (List.map (entry_at P) (os0 @ [z])))"
    using dist by (simp_all add: o_def entry_at_def)
  have reg: "pp_channels P (fd_at P c) = Some c" by (rule owned_in(4) [OF o c])
  have i0: "\<not> index_at P c < 0" using owned_in(1) [OF o c] by simp
  show ?thesis
  proof (cases "c = z")
    case True
    let ?P = "P\<lparr>pp_channels := (pp_channels P)(fd_at P c := None), pp_pollfds := ps\<rparr>"
    have "pp_channels ?P = map_of (List.map (\<lambda>c. (fd_at P c, c)) os0)"
      using map_of_drop_key [of "List.map (\<lambda>c. (fd_at P c, c)) os0" "fd_at P z" z "[]"] keys(1) True by (simp add: chans)
    then have own: "owned os0 ?P" using o e unfolding owned_def by (simp add: os0 del: map_eq_conv)
    have "pp_watched ?P = (pp_watched P)(fd_at P c := None)"
      using map_of_drop_key [of "List.map (entry_at P) os0" "fd_at P z" "short (mask_at P z)" "[]"] keys(2) True
      by (subst owned_watched [OF own]) (simp add: wat entry_at_def)
    moreover have "poller_removeChannel True c P = Inr ?P"
      using ch reg i0 by (simp add: poller_removeChannel_def deref_def f arr q True [symmetric])
    moreover have "set os0 = set os - {c}" using o True by (auto simp: os0 owned_def)
    ultimately show ?thesis using own by auto
  next
    case False
    then have "c \<in> set os0" using c os0 by simp
    then obtain xs ys where xs: "os0 = xs @ c # ys" by (auto simp: in_set_conv_decomp)
    obtain as p bs where ps: "ps = as @ p # bs" "length as = length xs" "length bs = length ys"
      using arr(2) unfolding xs by (rule split_same_place)
    have e2: "List.map entry as = List.map (entry_at P) xs" "List.map entry bs = List.map (entry_at P) ys"
      using e(1) ps by (simp_all add: xs append_eq_append_conv)
    have i: "index_at P c = int (length xs)" using owned_nth(1) [OF o, of "length xs"] by (simp add: os0 xs)
    obtain chz where chz: "pp_heap P z = Some chz" using owned_in(6) [OF o, of z] by (auto simp: os0)
    have fz: "ch_fd chz = fd_at P z" "ch_events chz = mask_at P z" using chz by (simp_all add: fd_at_def mask_at_def)
    have zc: "fd_at P c \<noteq> fd_at P z" using dist False by (auto simp: xs)
    let ?ch = "set_index (int (length xs)) chz"
    let ?P = "store z ?ch (P\<lparr>pp_channels := (pp_channels P)(fd_at P c := None), pp_pollfds := as @ q # bs\<rparr>)"
    have at: "fd_at ?P d = fd_at P d" "mask_at ?P d = mask_at P d" "index_at ?P d = (if d = z then int (length xs) else index_at P d)" for d
      by (simp_all add: fz set_index_def)
    have "poller_removeChannel True c P = Inr ?P"
    proof -
      have "((pp_channels P)(fd_at P c := None)) (fd_at P z) = Some z"
        using zc owned_in(4) [OF o, of z] by (simp add: os0)
      then show ?thesis
        using ch chz reg i0 zc ps(2) by (simp add: poller_removeChannel_def deref_def Let_def f arr ps(1) q i nth_append
            list_update_append butlast_append)
    qed
    moreover have own: "owned (xs @ z # ys) ?P"
    proof -
      have en: "entry_at ?P d = entry_at P d" for d using at by (simp add: entry_at_def)
      have "pp_heap ?P d \<noteq> None \<and> 0 \<le> fd_at P d" if "d \<in> set (xs @ z # ys)" for d
        using owned_in(5,6) [OF o, of d] that by (auto simp: os0 xs)
      moreover have "distinct (List.map (fd_at P) (xs @ z # ys))" using dist by (auto simp: xs)
      moreover have "List.map (index_at ?P) (xs @ z # ys) = List.map int [0..<length (xs @ z # ys)]"
      proof (rule nth_equalityI)
        fix j assume "j < length (List.map (index_at ?P) (xs @ z # ys))"
        then have j: "j < length (xs @ z # ys)" by simp
        have oj: "(xs @ z # ys) ! j = (if j = length xs then z else os ! j)"
          using j by (auto simp: os0 xs nth_append nth_Cons')
        moreover have ij: "index_at P (os ! j) = int j" using j owned_nth(1) [OF o, of j] by (simp add: os0 xs)
        moreover have "index_at P z = int (length os0)" using owned_nth(1) [OF o, of "length os0"] by (simp add: os0)
        then have "os ! j \<noteq> z" using ij j by (auto simp: xs)
        ultimately have "index_at ?P ((xs @ z # ys) ! j) = int j" unfolding oj at by simp
        moreover have "[0..<length (xs @ z # ys)] ! j = j" using j nth_upt [of 0 j] by (simp only: add_0)
        ultimately show "List.map (index_at ?P) (xs @ z # ys) ! j = List.map int [0..<length (xs @ z # ys)] ! j"
          using j by (simp only: nth_map length_upt diff_zero)
      qed simp
      moreover have "pp_channels ?P = map_of (List.map (\<lambda>c. (fd_at P c, c)) (xs @ z # ys))"
        using map_of_fill_gap [of "List.map (\<lambda>c. (fd_at P c, c)) xs" "fd_at P c" c "List.map (\<lambda>c. (fd_at P c, c)) ys" "(fd_at P z, z)"]
          keys(1) by (simp add: chans xs)
      ultimately show ?thesis unfolding owned_def at en by (simp add: e(2) e2 del: map_eq_conv)
    qed
    moreover have "pp_watched ?P = (pp_watched P)(fd_at P c := None)"
    proof -
      have "entry_at ?P = entry_at P" using at by (simp add: entry_at_def fun_eq_iff)
      then show ?thesis
        using map_of_fill_gap [of "List.map (entry_at P) xs" "fd_at P c" "short (mask_at P c)" "List.map (entry_at P) ys" "entry_at P z"]
          keys(2) by (subst owned_watched [OF own]) (simp add: wat xs entry_at_def)
    qed
    moreover have "set (xs @ z # ys) = set os - {c}" using o by (auto simp: os0 xs owned_def)
    ultimately show ?thesis using at(1,2) by blast
  qed
qed

section \<open>\<open>PollPoller\<close> is a poller\<close>

lemma set_interest_eq: "set_interest i ch = ch\<lparr>ch_events := change_mask i (ch_events ch)\<rparr>"
  by (cases i) (simp_all add: enableReading_def enableWriting_def disableWriting_def kNoneEvent_def)

lemma pp_fd_ofD:
  assumes "pp_fd_of P c = Some fd"
  obtains ch where "pp_heap P c = Some ch" "ch_fd ch = fd" "0 \<le> fd" "pp_channels P fd = (if ch_index ch < 0 then None else Some c)"
  using assms by (auto simp: pp_fd_of_def split: option.splits if_splits)

lemma pp_fd_of_owned: "owned os P \<Longrightarrow> c \<in> set os \<Longrightarrow> pp_fd_of P c = Some (fd_at P c)"
  using owned_in [of os P c] by (auto simp: pp_fd_of_def fd_at_def index_at_def)

lemma channel_set_eq:
  assumes "pp_heap P c = Some ch"
  shows "channel_set True c i P = poller_updateChannel True c (store c (ch\<lparr>ch_events := change_mask i (ch_events ch)\<rparr>) P)"
  using assms by (simp add: channel_set_def loop_updateChannel_def deref_def set_interest_eq)

lemma channel_set_ok:
  assumes inv: "pp_inv P" and fd: "pp_fd_of P c = Some fd" and live: "pp_watched P fd = None \<or> change_mask i (mask_at P c) \<noteq> 0"
  shows "\<exists>P'. channel_set True c i P = Inr P' \<and> pp_inv P' \<and> pp_fd_of P' c = Some fd
    \<and> mask_at P' c = change_mask i (mask_at P c) \<and> pp_watched P' = (pp_watched P)(fd \<mapsto> short (change_mask i (mask_at P c)))"
proof -
  obtain os where o: "owned os P" using inv by (auto simp: pp_inv_def)
  obtain ch where ch: "pp_heap P c = Some ch" "ch_fd ch = fd" "0 \<le> fd" "pp_channels P fd = (if ch_index ch < 0 then None else Some c)"
    using fd by (rule pp_fd_ofD)
  let ?m = "change_mask i (mask_at P c)"
  have m: "ch_events ch = mask_at P c" and f: "fd_at P c = fd" using ch by (simp_all add: mask_at_def fd_at_def)
  have eq: "channel_set True c i P = poller_updateChannel True c (store c (ch\<lparr>ch_events := ?m\<rparr>) P)"
    using channel_set_eq [OF ch(1)] m by simp
  show ?thesis
  proof (cases "ch_index ch < 0")
    case True
    then have "c \<notin> set os" using owned_in(1) [OF o, of c] ch(1) by (auto simp: index_at_def)
    then have "owned os (store c (ch\<lparr>ch_events := ?m\<rparr>) P)" by (rule owned_store [OF o])
    from update_new [OF this, of c "ch\<lparr>ch_events := ?m\<rparr>"] obtain P' where P':
      "poller_updateChannel True c (store c (ch\<lparr>ch_events := ?m\<rparr>) P) = Inr P'" "owned (os @ [c]) P'"
      "pp_watched P' = (pp_watched P)(fd \<mapsto> short ?m)"
      "pp_heap P' = (pp_heap (store c (ch\<lparr>ch_events := ?m\<rparr>) P))(c \<mapsto> set_index (int (length os)) (ch\<lparr>ch_events := ?m\<rparr>))"
      using ch True by auto
    then have "fd_at P' c = fd" "mask_at P' c = ?m" using ch(2) by (simp_all add: fd_at_def mask_at_def set_index_def)
    then show ?thesis using P' pp_fd_of_owned [OF P'(2), of c] eq by (auto simp: pp_inv_def)
  next
    case False
    then have c: "c \<in> set os" using owned_channel(1) [OF o, of fd c] ch(4) by simp
    have "?m \<noteq> 0" using live owned_watched_iff [OF o, of fd] ch(4) False by simp
    from update_old [OF o c this] obtain P' where P':
      "poller_updateChannel True c (store c (ch\<lparr>ch_events := ?m\<rparr>) P) = Inr P'" "owned os P'"
      "pp_watched P' = (pp_watched P)(fd \<mapsto> short ?m)" "pp_heap P' = (pp_heap P)(c \<mapsto> ch\<lparr>ch_events := ?m\<rparr>)"
      using ch(1) f by auto
    then have "fd_at P' c = fd" "mask_at P' c = ?m" using ch(2) by (simp_all add: fd_at_def mask_at_def)
    then show ?thesis using P' pp_fd_of_owned [OF P'(2) c] eq by (auto simp: pp_inv_def)
  qed
qed

lemma remove_ok:
  assumes inv: "pp_inv P" and fd: "pp_fd_of P c = Some fd" and w: "pp_watched P fd \<noteq> None"
  shows "\<exists>P'. loop_removeChannel True c P = Inr P' \<and> pp_inv P' \<and> pp_watched P' = (pp_watched P)(fd := None)"
proof -
  obtain os where o: "owned os P" using inv by (auto simp: pp_inv_def)
  obtain ch where ch: "pp_heap P c = Some ch" "ch_fd ch = fd" "pp_channels P fd = (if ch_index ch < 0 then None else Some c)"
    using fd by (rule pp_fd_ofD)
  have "pp_channels P fd = Some c" using ch(3) owned_watched_iff [OF o, of fd] w by (auto split: if_splits)
  then have c: "c \<in> set os" "fd = fd_at P c" using owned_channel [OF o] by auto
  from remove_owned [OF o c(1)] show ?thesis by (auto simp: loop_removeChannel_def pp_inv_def c(2))
qed

interpretation pl: poller pp_inv pp_fd_of mask_at change_mask "\<lambda>m. m \<noteq> 0" pp_watched short
  "channel_set True" "loop_removeChannel True"
  by unfold_locales (use channel_set_ok remove_ok in blast)+

section \<open>What \<open>poll\<close> reports\<close>

definition reported :: "(nat \<times> 16 word) list \<Rightarrow> nat list" where
  "reported crs = List.map fst (filter (\<lambda>(c, r). 0 < sint r) crs)"

fun mark_all :: "(nat \<times> 16 word) list \<Rightarrow> 'cb PollPoller \<Rightarrow> 'cb PollPoller" where
  "mark_all [] P = P"
| "mark_all ((c, r) # crs) P =
     mark_all crs (if 0 < sint r then store c (set_revents (scast r) (the (pp_heap P c))) P else P)"

lemma fillActiveChannels_zero: "fillActiveChannels 0 ps act P = Inr (act, P)"
  by (cases ps) simp_all

lemma fillActiveChannels_ok:
  assumes "list_all2 (\<lambda>p (c, r). pfd_revents p = r \<and> pp_channels P (pfd_fd p) = Some c
      \<and> (\<exists>ch. pp_heap P c = Some ch \<and> ch_fd ch = pfd_fd p)) ps crs"
    and "n = int (length (reported crs))"
  shows "fillActiveChannels n ps act P = Inr (act @ reported crs, mark_all crs P)"
  using assms
proof (induction crs arbitrary: ps n act P rule: list.induct)
  case Nil
  then show ?case by (simp add: reported_def fillActiveChannels_zero)
next
  case (Cons cr crs)
  obtain c r where cr: "cr = (c, r)" by (cases cr)
  obtain p ps' ch where ps: "ps = p # ps'" "pfd_revents p = r" "pp_channels P (pfd_fd p) = Some c" "pp_heap P c = Some ch"
    "ch_fd ch = pfd_fd p"
    and rest: "list_all2 (\<lambda>p (c, r). pfd_revents p = r \<and> pp_channels P (pfd_fd p) = Some c
      \<and> (\<exists>ch. pp_heap P c = Some ch \<and> ch_fd ch = pfd_fd p)) ps' crs"
    using Cons.prems(1) by (auto simp: cr list_all2_Cons2)
  show ?case
  proof (cases "0 < sint r")
    case True
    let ?P = "store c (set_revents (scast r) ch) P"
    have "list_all2 (\<lambda>p (c, r). pfd_revents p = r \<and> pp_channels ?P (pfd_fd p) = Some c
      \<and> (\<exists>ch. pp_heap ?P c = Some ch \<and> ch_fd ch = pfd_fd p)) ps' crs"
      by (rule list_all2_mono [OF rest]) (auto simp: set_revents_def ps(4))
    from Cons.IH [OF this refl] True Cons.prems(2) ps show ?thesis
      by (simp add: cr reported_def deref_def)
  next
    case False
    have n: "n = int (length (reported crs))" "reported (cr # crs) = reported crs"
      using Cons.prems(2) False by (simp_all add: cr reported_def)
    have IH: "fillActiveChannels n ps' act P = Inr (act @ reported crs, mark_all crs P)"
      by (rule Cons.IH [OF rest n(1)])
    show ?thesis
    proof (cases "n > 0")
      case True
      then show ?thesis using IH False by (simp add: cr ps n(2) [unfolded cr])
    next
      case nz: False
      then have "n = 0" using n(1) by simp
      with IH False show ?thesis by (simp add: cr ps n(2) [unfolded cr] fillActiveChannels_zero)
    qed
  qed
qed

lemma mark_all_other: "c \<notin> fst ` set crs \<Longrightarrow> pp_heap (mark_all crs P) c = pp_heap P c"
  by (induction crs P rule: mark_all.induct) auto

lemma mark_all_heap:
  assumes "distinct (List.map fst crs)" "(c, r) \<in> set crs" "pp_heap P c = Some ch"
  shows "pp_heap (mark_all crs P) c = Some (if 0 < sint r then set_revents (scast r) ch else ch)"
  using assms
proof (induction crs P rule: mark_all.induct)
  case (2 c' r' crs P)
  show ?case
  proof (cases "c' = c")
    case True
    then have "c \<notin> fst ` set crs" "r' = r" using 2(2,3) by (auto simp: image_iff)
    then show ?thesis using True 2(4) by (simp add: mark_all_other)
  qed (use 2 in auto)
qed simp

lemma mark_all_owned: "owned os P \<Longrightarrow> owned os (mark_all crs P)"
proof (induction crs P rule: mark_all.induct)
  case (2 c r crs P)
  have "owned os (store c (set_revents (scast r) (the (pp_heap P c))) P)"
    by (rule owned_cong [OF 2(2)])
      (use owned_in(6) [OF 2(2)] in \<open>auto simp: set_revents_def fd_at_def index_at_def mask_at_def\<close>)
  with 2 show ?case by simp
qed simp

lemma mark_all_fields [simp]: "pp_pollfds (mark_all crs P) = pp_pollfds P" "pp_channels (mark_all crs P) = pp_channels P"
  by (induction crs P rule: mark_all.induct) simp_all

lemma entry_put_revents [simp]:
  "length revs = length pfds \<Longrightarrow> List.map entry (put_revents revs pfds) = List.map entry pfds"
  by (induction revs pfds rule: list_induct2) (simp_all add: put_revents_def entry_def)

text \<open>A slot whose channel has given up all interest: its descriptor is gone from the array.\<close>

definition lost_slot :: "nat \<Rightarrow> int \<Rightarrow> 'cb PollPoller \<Rightarrow> bool" where
  "lost_slot c fd P \<longleftrightarrow> (\<exists>ch. pp_heap P c = Some ch \<and> ch_fd ch = fd \<and> 0 \<le> fd \<and> pp_channels P fd = Some c
     \<and> 0 \<le> ch_index ch \<and> ch_index ch < int (length (pp_pollfds P)) \<and> pfd_fd (pp_pollfds P ! nat (ch_index ch)) = -1
     \<and> fd \<notin> pfd_fd ` set (pp_pollfds P))"

lemma lost_slot_unwatched: "lost_slot c fd P \<Longrightarrow> pp_watched P fd = None"
  by (auto simp: lost_slot_def pp_watched_def map_of_eq_None_iff entry_def image_image)

lemma lost_slot_ask:
  assumes "lost_slot c fd P" shows "\<exists>P'. channel_set True c i P = Inr P' \<and> lost_slot c fd P'"
proof -
  obtain ch where ch: "pp_heap P c = Some ch" "ch_fd ch = fd" "0 \<le> fd" "pp_channels P fd = Some c"
     "0 \<le> ch_index ch" "ch_index ch < int (length (pp_pollfds P))" "pfd_fd (pp_pollfds P ! nat (ch_index ch)) = -1"
     "fd \<notin> pfd_fd ` set (pp_pollfds P)"
    using assms by (auto simp: lost_slot_def)
  then have n: "nat (ch_index ch) < length (pp_pollfds P)" by simp
  show ?thesis
    using ch n set_update_subset_insert [of "pp_pollfds P" "nat (ch_index ch)"]
    by (fastforce simp: channel_set_eq [OF ch(1)] poller_updateChannel_def deref_def Let_def lost_slot_def)
qed

lemma lost_slot_ask_all: "lost_slot c fd P \<Longrightarrow> \<exists>P'. pl.ask_all c ops P = Inr P' \<and> lost_slot c fd P'"
proof (induction ops arbitrary: P)
  case (Cons i ops)
  from lost_slot_ask [OF Cons.prems] obtain P1 where "channel_set True c i P = Inr P1" "lost_slot c fd P1" by blast
  with Cons.IH show ?case by fastforce
qed simp

lemma poller_poll_reports:
  assumes "owned os P" and "length revs = length os"
    and "n = int (length (reported (zip os revs)))"
  shows "\<exists>P'. poller_poll n revs [] P = Inr (reported (zip os revs), P') \<and> owned os P'
    \<and> (\<forall>i < length os. pp_heap P' (os ! i) = Some (if 0 < sint (revs ! i)
          then set_revents (scast (revs ! i)) (the (pp_heap P (os ! i))) else the (pp_heap P (os ! i))))"
proof -
  let ?P = "P\<lparr>pp_pollfds := put_revents revs (pp_pollfds P)\<rparr>"
  note o = assms(1)
  have len: "length revs = length (pp_pollfds P)" using assms(2) owned_length [OF o] by simp
  have own: "owned os ?P"
    by (rule owned_cong [OF o]) (use owned_in(6) [OF o] len in auto)
  have "list_all2 (\<lambda>p (c, r). pfd_revents p = r \<and> pp_channels ?P (pfd_fd p) = Some c
      \<and> (\<exists>ch. pp_heap ?P c = Some ch \<and> ch_fd ch = pfd_fd p)) (pp_pollfds ?P) (zip os revs)"
  proof (rule list_all2_all_nthI)
    show "length (pp_pollfds ?P) = length (zip os revs)" using len assms(2) by (simp add: put_revents_def)
    fix i assume "i < length (pp_pollfds ?P)"
    then have i: "i < length os" "i < length (pp_pollfds P)" using len owned_length [OF o] by (simp_all add: put_revents_def)
    have "entry (pp_pollfds P ! i) = entry_at P (os ! i)" by (rule owned_nth(2) [OF o i(1)])
    then have "pfd_fd (pp_pollfds P ! i) = fd_at P (os ! i)" by (simp add: entry_def entry_at_def)
    then show "case zip os revs ! i of (c, r) \<Rightarrow> pfd_revents (pp_pollfds ?P ! i) = r
        \<and> pp_channels ?P (pfd_fd (pp_pollfds ?P ! i)) = Some c
        \<and> (\<exists>ch. pp_heap ?P c = Some ch \<and> ch_fd ch = pfd_fd (pp_pollfds ?P ! i))"
      using i len assms(2) owned_in(4,6) [OF o, of "os ! i"] by (auto simp: put_revents_def fd_at_def)
  qed
  from fillActiveChannels_ok [OF this assms(3), of "[]"]
  have fill: "fillActiveChannels n (pp_pollfds ?P) [] ?P = Inr (reported (zip os revs), mark_all (zip os revs) ?P)" by simp
  have "poller_poll n revs [] P = Inr (reported (zip os revs), mark_all (zip os revs) ?P)"
  proof (cases "n > 0")
    case False
    then have "n = 0" using assms(3) by simp
    then show ?thesis using fill by (simp add: poller_poll_def Let_def fillActiveChannels_zero)
  qed (use fill in \<open>simp add: poller_poll_def Let_def\<close>)
  moreover have "pp_heap (mark_all (zip os revs) ?P) (os ! i) = Some (if 0 < sint (revs ! i)
      then set_revents (scast (revs ! i)) (the (pp_heap P (os ! i))) else the (pp_heap P (os ! i)))" if i: "i < length os" for i
  proof -
    have "distinct (List.map fst (zip os revs))" using o assms(2) by (simp add: owned_def distinct_map)
    moreover have "(os ! i, revs ! i) \<in> set (zip os revs)" using i assms(2) by (metis in_set_zip fst_conv snd_conv)
    moreover have "pp_heap ?P (os ! i) = Some (the (pp_heap P (os ! i)))" using owned_nth(3) [OF o i] by auto
    ultimately show ?thesis by (rule mark_all_heap)
  qed
  ultimately show ?thesis using mark_all_owned [OF own] by blast
qed

section \<open>Properties\<close>

text \<open>C11: the poller watches what the channels ask for. From any consistent poller, a new channel on a
  free descriptor can be enabled, then asked any interest that never becomes empty, then removed: no
  assertion fails and no null or dangling pointer is used, meanwhile the system watches the
  descriptor for exactly the interest last asked, and afterwards it watches exactly what it watched
  before; the poller is consistent again.\<close>

theorem channel_life:
  assumes "pp_inv P" and "pp_fd_of P c = Some fd" and "pp_watched P fd = None"
    and "pl.stays_live (change_mask i (mask_at P c)) ops"
  shows "\<exists>P1 P2 P3. channel_set True c i P = Inr P1 \<and> pl.ask_all c ops P1 = Inr P2 \<and> loop_removeChannel True c P2 = Inr P3
    \<and> pp_inv P3 \<and> pp_watched P2 = (pp_watched P)(fd \<mapsto> short (fold change_mask (i # ops) (mask_at P c)))
    \<and> pp_watched P3 = pp_watched P"
  using pl.life [OF assms] by simp

definition example_poller :: "nat PollPoller" where
  "example_poller = store 1 (Channel_new 0 7) (store 0 (Channel_new 0 5) PollPoller_new)"

lemma example_poller_facts:
  "pp_inv example_poller" "pp_fd_of example_poller 0 = Some 5" "pp_fd_of example_poller 1 = Some 7"
  "pp_watched example_poller fd = None" "mask_at example_poller 0 = 0" "mask_at example_poller 1 = 0"
proof -
  have "owned [] example_poller" by (simp add: owned_def example_poller_def PollPoller_new_def)
  then show "pp_inv example_poller" by (auto simp: pp_inv_def)
qed (simp_all add: example_poller_def PollPoller_new_def pp_fd_of_def pp_watched_def mask_at_def Channel_new_def)

theorem channel_life_witness:
  "\<exists>P1 P2 P3. channel_set True 0 EnableReading example_poller = Inr P1
    \<and> pl.ask_all 0 [EnableWriting, DisableWriting] P1 = Inr P2 \<and> loop_removeChannel True 0 P2 = Inr P3
    \<and> pp_inv P3 \<and> pp_watched P2 5 = Some 3 \<and> pp_watched P3 5 = None"
proof -
  have "pl.stays_live (change_mask EnableReading (mask_at example_poller 0)) [EnableWriting, DisableWriting]"
    by (simp add: example_poller_facts event_masks)
  from channel_life [OF example_poller_facts(1,2,4) this] show ?thesis
    by (fastforce simp: example_poller_facts event_masks short_def)
qed

text \<open>What \<open>poll\<close> reports reaches exactly the right channels. When the system leaves \<open>revs\<close> in the
  array of a consistent poller and counts the positive ones, the active channels are exactly the owners
  of the slots with a positive \<open>revents\<close>, each once and in the order of the array; each of them gets the
  events of its own slot and every other registered channel keeps what it had; the poller is consistent again.\<close>

theorem poll_reports:
  assumes "owned os P" and "length revs = length os"
    and "n = int (length (reported (zip os revs)))"
  shows "\<exists>P'. poller_poll n revs [] P = Inr (reported (zip os revs), P') \<and> owned os P'
    \<and> (\<forall>i < length os. pp_heap P' (os ! i) = Some (if 0 < sint (revs ! i)
          then set_revents (scast (revs ! i)) (the (pp_heap P (os ! i))) else the (pp_heap P (os ! i))))"
  using assms by (rule poller_poll_reports)

theorem poll_reports_witness:
  "\<exists>P P'. owned [0] (P :: nat PollPoller) \<and> poller_poll 1 [1] [] P = Inr ([0], P')
     \<and> map_option ch_revents (pp_heap P' 0) = Some 1"
proof -
  have "owned [] example_poller" by (simp add: owned_def example_poller_def PollPoller_new_def)
  from update_new [OF this, of 0 "Channel_new 0 5"] obtain P where P: "owned [0] (P :: nat PollPoller)"
    by (auto simp: example_poller_def Channel_new_def PollPoller_new_def)
  have "reported (zip [0] [1 :: 16 word]) = [0]" by (simp add: reported_def)
  with poll_reports [OF P, of "[1]" 1] obtain P' where "poller_poll 1 [1] [] P = Inr ([0], P')"
    "pp_heap P' 0 = Some (set_revents (scast (1 :: 16 word)) (the (pp_heap P 0)))"
    by auto
  then show ?thesis using P by (intro exI [of _ P] exI [of _ P']) (simp add: set_revents_def)
qed

text \<open>A channel that gives up all interest is lost. When an interest becomes empty, as
  \<open>disableWriting\<close> makes it on a channel that only writes, the slot's descriptor is overwritten by -1
  and nothing restores it: whatever interest is asked afterwards succeeds and the system never watches
  the descriptor again; and if the slot is the last one, removing the channel dereferences a null
  pointer.\<close>

theorem disabled_channel_lost:
  assumes "pp_inv P" and "pp_fd_of P c = Some fd" and "pp_watched P fd \<noteq> None"
    and "change_mask i (mask_at P c) = 0" and "index_at P c + 1 = int (length (pp_pollfds P))"
  shows "\<exists>P1. channel_set True c i P = Inr P1 \<and> loop_removeChannel True c P1 = Inl NullDeref
    \<and> (\<forall>ops. \<exists>P2. pl.ask_all c ops P1 = Inr P2 \<and> pp_watched P2 fd = None)"
proof -
  obtain os where o: "owned os P" using assms(1) by (auto simp: pp_inv_def)
  obtain ch where ch: "pp_heap P c = Some ch" "ch_fd ch = fd" "0 \<le> fd" "pp_channels P fd = (if ch_index ch < 0 then None else Some c)"
    using assms(2) by (rule pp_fd_ofD)
  have reg: "pp_channels P fd = Some c" using ch(4) owned_watched_iff [OF o, of fd] assms(3) by (auto split: if_splits)
  then have c: "c \<in> set os" "fd = fd_at P c" using owned_channel [OF o] by auto
  have m: "ch_events ch = mask_at P c" "ch_index ch = index_at P c" using ch by (simp_all add: mask_at_def index_at_def)
  obtain xs where os: "os = xs @ [c]"
  proof -
    have "nat (index_at P c) = length os - 1" using assms(5) owned_length [OF o] by simp
    then have "last os = c" using owned_in(3) [OF o c(1)] c(1) by (metis last_conv_nth empty_iff empty_set)
    then show thesis using that c(1) by (metis append_butlast_last_id empty_iff empty_set)
  qed
  obtain ps p where arr: "pp_pollfds P = ps @ [p]" "length ps = length xs"
    using owned_length [OF o] unfolding os
    by (metis append_butlast_last_id length_0_conv length_append_singleton nat.distinct(1) nat.inject)
  have "List.map entry (ps @ [p]) = List.map (entry_at P) (xs @ [c])" using o by (simp add: owned_def os arr(1))
  then have e: "List.map entry ps = List.map (entry_at P) xs" "entry p = entry_at P c" using arr(2) by simp_all
  have pf: "pfd_fd p = fd" using e(2) c(2) by (simp add: entry_def entry_at_def)
  have out: "fd \<notin> pfd_fd ` set ps"
  proof -
    have "pfd_fd ` set ps = fd_at P ` set xs"
      using arg_cong [OF e(1), of "\<lambda>l. fst ` set l"] by (simp add: image_image entry_def entry_at_def)
    then show ?thesis using o c(2) by (auto simp: owned_def os)
  qed
  have ix: "ch_index ch = int (length ps)" using assms(5) m(2) arr(1) by simp
  let ?ch = "ch\<lparr>ch_events := 0\<rparr>"
  let ?P = "store c ?ch (P\<lparr>pp_pollfds := ps @ [\<lparr>pfd_fd = -1, pfd_events = 0, pfd_revents = 0\<rparr>]\<rparr>)"
  have step: "channel_set True c i P = Inr ?P"
    using ch reg assms(4) m(1)
    by (simp add: channel_set_eq poller_updateChannel_def deref_def Let_def ix arr pf nth_append list_update_append
        isNoneEvent_def kNoneEvent_def store_def)
  have "lost_slot c fd ?P"
    using ch(2,3) reg out by (auto simp: lost_slot_def ix)
  moreover have "pp_channels P (-1) = None"
    by (cases "pp_channels P (-1)") (use owned_channel [OF o, of "-1"] owned_in(5) [OF o] in fastforce)+
  then have "loop_removeChannel True c ?P = Inl NullDeref"
    using ch(2,3) reg by (simp add: loop_removeChannel_def poller_removeChannel_def deref_def ix)
  ultimately show ?thesis
    using step lost_slot_ask_all lost_slot_unwatched by blast
qed

theorem disabled_channel_lost_witness:
  "\<exists>P P1 :: nat PollPoller. channel_set True 1 DisableWriting P = Inr P1 \<and> loop_removeChannel True 1 P1 = Inl NullDeref
     \<and> (\<forall>ops. \<exists>P2. pl.ask_all 1 ops P1 = Inr P2 \<and> pp_watched P2 7 = None)"
proof -
  have ev: "ch_index (Channel_new 0 7 :: nat Channel) = -1" "ch_fd (Channel_new 0 7 :: nat Channel) = 7"
    "ch_events (Channel_new 0 7 :: nat Channel) = 0"
    by (simp_all add: Channel_new_def)
  have heap: "pp_heap example_poller 1 = Some (Channel_new 0 7)" by (simp add: example_poller_def)
  have ep: "pp_channels example_poller = Map.empty" "pp_pollfds example_poller = []"
    by (simp_all add: example_poller_def PollPoller_new_def)
  define P where "P = (case channel_set True 1 EnableWriting example_poller of Inr P \<Rightarrow> P | Inl e \<Rightarrow> example_poller)"
  have P: "channel_set True 1 EnableWriting example_poller = Inr P" "index_at P 1 + 1 = int (length (pp_pollfds P))"
    by (simp_all add: P_def channel_set_eq [OF heap] poller_updateChannel_def deref_def ev ep set_index_def del: One_nat_def)
  from channel_set_ok [OF example_poller_facts(1,3), of EnableWriting] P(1)
  have "pp_inv P" "pp_fd_of P 1 = Some 7" "pp_watched P 7 \<noteq> None" "mask_at P 1 = kWriteEvent"
    by (auto simp: example_poller_facts simp del: One_nat_def)
  with disabled_channel_lost [of P 1 7 DisableWriting] P(2) show ?thesis by (auto simp: event_masks)
qed

end
