(* ===== verification/StepSystems.thy ===== *)
theory StepSystems
  imports Prelude
begin

text \<open>
  Step relations: the states a system can reach, the invariant of a system and the simulation of a
  system by a simpler one, as contracts each component that runs in steps interprets.
\<close>

inductive reachable :: "('s \<Rightarrow> bool) \<Rightarrow> ('s \<Rightarrow> 's \<Rightarrow> bool) \<Rightarrow> 's \<Rightarrow> bool" for init step where
  reach_init: "init s \<Longrightarrow> reachable init step s"
| reach_step: "reachable init step s \<Longrightarrow> step s t \<Longrightarrow> reachable init step t"

lemma reachable_steps: "step\<^sup>*\<^sup>* s t \<Longrightarrow> reachable init step s \<Longrightarrow> reachable init step t"
  by (induction rule: rtranclp_induct) (auto intro: reach_step)

lemma reachable_from: "reachable init step s \<Longrightarrow> \<exists>s0. init s0 \<and> step\<^sup>*\<^sup>* s0 s"
  by (induction rule: reachable.induct) (auto intro: rtranclp.rtrancl_into_rtrancl)

locale invariant_system =
  fixes init :: "'s \<Rightarrow> bool" and step :: "'s \<Rightarrow> 's \<Rightarrow> bool" and Inv :: "'s \<Rightarrow> bool"
  assumes inv_init: "init s \<Longrightarrow> Inv s"
    and inv_step: "Inv s \<Longrightarrow> step s t \<Longrightarrow> Inv t"
begin

lemma inv_reachable: "reachable init step s \<Longrightarrow> Inv s"
  by (induction rule: reachable.induct) (auto intro: inv_init inv_step)

lemma inv_steps: "step\<^sup>*\<^sup>* s t \<Longrightarrow> Inv s \<Longrightarrow> Inv t"
  by (induction rule: rtranclp_induct) (auto intro: inv_step)

end

text \<open>
  A simulation: every step of the system is a step of the simpler one on the abstraction of the
  states, or leaves the abstraction as it is.
\<close>

locale simulated_system = invariant_system +
  fixes abs :: "'a \<Rightarrow> 'b" and astep :: "'b \<Rightarrow> 'b \<Rightarrow> bool"
  assumes sim_step: "Inv s \<Longrightarrow> step s t \<Longrightarrow> abs t = abs s \<or> astep (abs s) (abs t)"
begin

lemma sim_steps: "step\<^sup>*\<^sup>* s t \<Longrightarrow> Inv s \<Longrightarrow> astep\<^sup>*\<^sup>* (abs s) (abs t)"
proof (induction rule: rtranclp_induct)
  case (step t u)
  from inv_steps [OF step.hyps(1) step.prems] sim_step [OF _ step.hyps(2)]
  have "abs u = abs t \<or> astep (abs t) (abs u)" by blast
  with step.IH [OF step.prems] show ?case by auto
qed simp

end

end
