(* ===== verification/TcpConnections.thy ===== *)
theory TcpConnections
  imports Buffers PollPollers StepSystems
begin

text \<open>
  \<open>TcpConnection\<close> (winterfell/net/wf_tcp_connection.h, wf_tcp_connection.cc). A connection is driven by
  the events of its channel, by functors queued in its loop (in the order of the loop's queue) and by
  calls of the program, from the loop's thread or from another one. The results of \<open>write\<close> and
  \<open>readv\<close> are inputs. What the program's callbacks do to the connection is a list of calls, which may
  depend on the connection.
\<close>

section \<open>State\<close>

datatype StateE = kConnnecting | kConnected | kDisconnecting | kDisconnected

datatype write_result = Wrote nat | WriteError int

text \<open>The functors of a connection in its loop's queue.\<close>

datatype conn_functor =
    EnableReadInLoop | ConnectEstablished | SendInLoop "char list" | ShutdownInLoop | WriteComplete | ConnectDestroyed

text \<open>Callbacks made into the program.\<close>

datatype conn_event = OnConnection | OnMessage Timestamp | OnWriteComplete

datatype poller_ask = AskInterest interest_op | AskRemove

text \<open>
  \<open>tc_sent\<close> are the bytes the system accepted, \<open>tc_fin\<close> tells that the writing side is shut down;
  \<open>tc_accepted\<close> records the messages \<open>sendInLoop\<close> took over, and \<open>tc_asks\<close> the calls that the channel of
  the connection has made of its loop, in order: \<open>updateChannel\<close> after each change of interest, and
  \<open>removeChannel\<close>. The \<open>tc_has\<close> fields tell which callbacks are set.
\<close>

record TcpConnection =
  tc_state :: StateE
  tc_channel :: "unit Channel"
  tc_registered :: bool
  tc_input :: Buffer
  tc_output :: Buffer
  tc_functors :: "conn_functor list"
  tc_hasConnection :: bool
  tc_hasMessage :: bool
  tc_hasClose :: bool
  tc_hasWriteComplete :: bool
  tc_sent :: "char list"
  tc_fin :: bool
  tc_accepted :: "char list list"
  tc_asks :: "poller_ask list"

text \<open>The constructor sets the channel's callbacks and has reading enabled by the loop; \<open>in_loop\<close> tells
  whether it runs in the loop's thread.\<close>

definition TcpConnection_new :: "nat \<Rightarrow> int \<Rightarrow> TcpConnection" where
  "TcpConnection_new loop fd =
     \<lparr>tc_state = kConnnecting,
      tc_channel = (Channel_new loop fd)\<lparr>ch_readCallback := Some (), ch_closeCallback := Some (), ch_errorCallback := Some (),
        ch_writeCallback := Some ()\<rparr>,
      tc_registered = False, tc_input = Buffer_init, tc_output = Buffer_init, tc_functors = [],
      tc_hasConnection = False, tc_hasMessage = False, tc_hasClose = False, tc_hasWriteComplete = False,
      tc_sent = [], tc_fin = False, tc_accepted = [], tc_asks = []\<rparr>"

section \<open>Operations\<close>

text \<open>
  A change of interest reaches the poller through \<open>update\<close>, which registers a channel without a
  place and refuses one whose place is gone.
\<close>

definition tc_interest :: "interest_op \<Rightarrow> TcpConnection \<Rightarrow> TcpConnection res" where
  "tc_interest i c =
     rassert (ch_index (tc_channel c) < 0 \<or> tc_registered c)
       (Inr (c\<lparr>tc_channel := set_index (max 0 (ch_index (tc_channel c))) (set_interest i (tc_channel c)), tc_registered := True,
       tc_asks := tc_asks c @ [AskInterest i]\<rparr>))"

text \<open>
  What \<open>write\<close> does with \<open>bytes\<close>, when the system is ready to take \<open>w\<close>: it takes no more than it is
  offered, and nothing once the writing side is shut down (EPIPE).
\<close>

definition sys_write :: "bool \<Rightarrow> write_result \<Rightarrow> char list \<Rightarrow> write_result" where
  "sys_write fin w bytes =
     (if fin then WriteError 32
      else case w of Wrote n \<Rightarrow> Wrote (min n (length bytes)) | WriteError e \<Rightarrow> WriteError e)"

definition tc_isWriting :: "TcpConnection \<Rightarrow> bool" where
  "tc_isWriting c = ch_isWriting (tc_channel c)"

definition tc_connected :: "TcpConnection \<Rightarrow> bool" where
  "tc_connected c \<longleftrightarrow> tc_state c = kConnected"

definition tc_queue :: "conn_functor \<Rightarrow> TcpConnection \<Rightarrow> TcpConnection" where
  "tc_queue f c = c\<lparr>tc_functors := tc_functors c @ [f]\<rparr>"

definition enableReadInLoop :: "TcpConnection \<Rightarrow> TcpConnection res" where
  "enableReadInLoop c = tc_interest EnableReading c"

definition construct_connection :: "bool \<Rightarrow> nat \<Rightarrow> int \<Rightarrow> TcpConnection res" where
  "construct_connection in_loop loop fd =
     (let c = TcpConnection_new loop fd in if in_loop then enableReadInLoop c else Inr (tc_queue EnableReadInLoop c))"

definition destroy_connection :: "TcpConnection \<Rightarrow> unit res" where
  "destroy_connection c = rassert (\<not> tc_connected c) (Inr ())"

definition shutdownInLoop :: "bool \<Rightarrow> TcpConnection \<Rightarrow> TcpConnection res" where
  "shutdownInLoop in_loop c =
     (if \<not> in_loop then Inl Aborted
      else if \<not> tc_isWriting c then Inr (c\<lparr>tc_fin := True\<rparr>) else Inr c)"

definition tc_shutdown :: "bool \<Rightarrow> TcpConnection \<Rightarrow> TcpConnection res" where
  "tc_shutdown in_loop c =
     (if tc_state c = kConnected then
        let c = c\<lparr>tc_state := kDisconnecting\<rparr>
        in if in_loop then shutdownInLoop in_loop c else Inr (tc_queue ShutdownInLoop c)
      else Inr c)"

definition sendInLoop :: "bool \<Rightarrow> char list \<Rightarrow> write_result \<Rightarrow> TcpConnection \<Rightarrow> TcpConnection res" where
  "sendInLoop in_loop message w c =
     (if \<not> in_loop then Inl Aborted
      else if \<not> tc_isWriting c \<and> readableBytes (tc_output c) = 0 then
        (case sys_write (tc_fin c) w message of
           Wrote n \<Rightarrow>
             (let c = c\<lparr>tc_sent := tc_sent c @ take n message, tc_accepted := tc_accepted c @ [message]\<rparr> in
              if n < length message then
                rbind (append_buf (drop n message) (tc_output c)) (\<lambda>out.
                  let c = c\<lparr>tc_output := out\<rparr>
                  in if \<not> tc_isWriting c then tc_interest EnableWriting c else Inr c)
              else if tc_hasWriteComplete c then Inr (tc_queue WriteComplete c)
              else Inr c)
         | WriteError err \<Rightarrow> Inr c)
      else Inr c)"

definition tc_send :: "bool \<Rightarrow> char list \<Rightarrow> write_result \<Rightarrow> TcpConnection \<Rightarrow> TcpConnection res" where
  "tc_send in_loop message w c =
     (if tc_state c = kConnected then
        if in_loop then sendInLoop in_loop message w c else Inr (tc_queue (SendInLoop message) c)
      else Inr c)"

definition handleWrite :: "bool \<Rightarrow> write_result \<Rightarrow> TcpConnection \<Rightarrow> TcpConnection res" where
  "handleWrite in_loop w c =
     (if \<not> in_loop then Inl Aborted
      else if tc_isWriting c then
        (case sys_write (tc_fin c) w (contents (tc_output c)) of
           Wrote n \<Rightarrow>
             if n > 0 then
               (let c = c\<lparr>tc_sent := tc_sent c @ take n (contents (tc_output c))\<rparr> in
                rbind (retrieve (int n) (tc_output c)) (\<lambda>out.
                  let c = c\<lparr>tc_output := out\<rparr> in
                  if readableBytes out = 0 then
                    rbind (tc_interest DisableWriting c) (\<lambda>c.
                      let c = (if tc_hasWriteComplete c then tc_queue WriteComplete c else c)
                      in if tc_state c = kDisconnecting then shutdownInLoop in_loop c else Inr c)
                  else Inr c))
             else Inr c
         | WriteError err \<Rightarrow> Inr c)
      else Inr c)"

definition connectDestroyed :: "bool \<Rightarrow> TcpConnection \<Rightarrow> TcpConnection res" where
  "connectDestroyed in_loop c =
     (if \<not> in_loop then Inl Aborted
      else rassert (tc_state c = kConnected \<or> tc_state c = kDisconnecting)
        (rbind (tc_interest DisableAll (c\<lparr>tc_state := kDisconnected\<rparr>)) (\<lambda>c. Inr (c\<lparr>tc_registered := False, tc_asks := tc_asks c @ [AskRemove]\<rparr>))))"

text \<open>\<open>close\<close> is the close callback that is set, \<open>user\<close> what the program does in its callbacks.\<close>

definition handleClose :: "(TcpConnection \<Rightarrow> 'r res) \<Rightarrow> bool \<Rightarrow> TcpConnection \<Rightarrow> 'r res" where
  "handleClose close in_loop c =
     (if \<not> in_loop then Inl Aborted
      else rassert (tc_state c = kConnected \<or> tc_state c = kDisconnecting)
        (rbind (tc_interest DisableAll c) (\<lambda>c. if tc_hasClose c then close c else Inl BadFunctionCall)))"

text \<open>What a callback of the program does: it sends, shuts down, takes bytes from the input buffer.\<close>

datatype user_op = USend "char list" write_result | UShutdown | UTake int | UTakeAll

fun user_step :: "user_op \<Rightarrow> TcpConnection \<Rightarrow> TcpConnection res" where
  "user_step (USend message w) c = tc_send True message w c"
| "user_step UShutdown c = tc_shutdown True c"
| "user_step (UTake n) c = rbind (retrieveAsString n (tc_input c)) (\<lambda>(str, inp). Inr (c\<lparr>tc_input := inp\<rparr>))"
| "user_step UTakeAll c = rbind (retrieveAllAsString (tc_input c)) (\<lambda>(str, inp). Inr (c\<lparr>tc_input := inp\<rparr>))"

fun user_steps :: "user_op list \<Rightarrow> TcpConnection \<Rightarrow> TcpConnection res" where
  "user_steps [] c = Inr c"
| "user_steps (u # us) c = rbind (user_step u c) (user_steps us)"

type_synonym program = "conn_event \<Rightarrow> TcpConnection \<Rightarrow> user_op list"

definition call_user :: "program \<Rightarrow> conn_event \<Rightarrow> bool \<Rightarrow> TcpConnection \<Rightarrow> TcpConnection res" where
  "call_user user e is_set c = (if is_set then user_steps (user e c) c else Inl BadFunctionCall)"

definition handleError :: "TcpConnection \<Rightarrow> TcpConnection" where
  "handleError c = c"

text \<open>\<open>ret\<close> is what remains to do when no close callback was made; it lets the owner of the connection
  continue with a state of its own.\<close>

definition handleRead_ret ::
  "program \<Rightarrow> (TcpConnection \<Rightarrow> 'r res) \<Rightarrow> (TcpConnection \<Rightarrow> 'r res) \<Rightarrow> readv_result \<Rightarrow> Timestamp \<Rightarrow> TcpConnection \<Rightarrow> 'r res" where
  "handleRead_ret user ret close r receiveTime c =
     rbind (readFd r (tc_input c)) (\<lambda>(bufsize, err, inp).
       let c = c\<lparr>tc_input := inp\<rparr> in
       if bufsize > 0 then rbind (call_user user (OnMessage receiveTime) (tc_hasMessage c) c) ret
       else if bufsize = 0 then handleClose close True c
       else ret (handleError c))"

definition handleRead ::
  "program \<Rightarrow> (TcpConnection \<Rightarrow> TcpConnection res) \<Rightarrow> readv_result \<Rightarrow> Timestamp \<Rightarrow> TcpConnection \<Rightarrow> TcpConnection res" where
  "handleRead user close = handleRead_ret user Inr close"

lemma rbind_Inr_id [simp]: "rbind m Inr = m"
  by (cases m) simp_all

lemma handleRead_eq:
  "handleRead user close r receiveTime c =
     rbind (readFd r (tc_input c)) (\<lambda>(bufsize, err, inp).
       let c = c\<lparr>tc_input := inp\<rparr> in
       if bufsize > 0 then call_user user (OnMessage receiveTime) (tc_hasMessage c) c
       else if bufsize = 0 then handleClose close True c
       else Inr (handleError c))"
  by (cases "readFd r (tc_input c)") (auto simp: handleRead_def handleRead_ret_def Let_def split: prod.splits)

definition connectEstablished :: "program \<Rightarrow> bool \<Rightarrow> TcpConnection \<Rightarrow> TcpConnection res" where
  "connectEstablished user in_loop c =
     (if \<not> in_loop then Inl Aborted
      else rbind (tc_interest EnableReading (c\<lparr>tc_state := kConnected\<rparr>)) (\<lambda>c.
             call_user user OnConnection (tc_hasConnection c) c))"

fun run_functor :: "program \<Rightarrow> write_result \<Rightarrow> conn_functor \<Rightarrow> TcpConnection \<Rightarrow> TcpConnection res" where
  "run_functor user w EnableReadInLoop c = enableReadInLoop c"
| "run_functor user w ConnectEstablished c = connectEstablished user True c"
| "run_functor user w (SendInLoop message) c = sendInLoop True message w c"
| "run_functor user w ShutdownInLoop c = shutdownInLoop True c"
| "run_functor user w WriteComplete c = call_user user OnWriteComplete True c"
| "run_functor user w ConnectDestroyed c = connectDestroyed True c"

section \<open>Steps\<close>

text \<open>
  \<open>step_functor\<close> takes the next functor of the queue; \<open>step_read\<close> and \<open>step_write\<close> are the events of a registered
  channel; the others are calls of the program from another thread and from the loop's thread.
\<close>

inductive conn_step :: "program \<Rightarrow> (TcpConnection \<Rightarrow> TcpConnection res) \<Rightarrow> TcpConnection \<Rightarrow> TcpConnection \<Rightarrow> bool"
  for user close where
  step_functor: "tc_functors c = f # fs \<Longrightarrow> run_functor user w f (c\<lparr>tc_functors := fs\<rparr>) = Inr c' \<Longrightarrow> conn_step user close c c'"
| step_read: "tc_registered c \<Longrightarrow> handleRead user close r t c = Inr c' \<Longrightarrow> conn_step user close c c'"
| step_write: "tc_registered c \<Longrightarrow> handleWrite True w c = Inr c' \<Longrightarrow> conn_step user close c c'"
| step_other_send: "tc_send False message w c = Inr c' \<Longrightarrow> conn_step user close c c'"
| step_other_shutdown: "tc_shutdown False c = Inr c' \<Longrightarrow> conn_step user close c c'"
| step_loop_call: "user_step u c = Inr c' \<Longrightarrow> conn_step user close c c'"

inductive_cases conn_step_elim: "conn_step user close c c'"

text \<open>\<open>TcpClient::removeConnection\<close>, for the connection: its end is queued.\<close>

definition close_by_queue :: "TcpConnection \<Rightarrow> TcpConnection res" where
  "close_by_queue c = Inr (tc_queue ConnectDestroyed c)"

text \<open>\<open>TcpServer::removeConnection\<close>: in the loop's thread it ends at once.\<close>

definition close_at_once :: "TcpConnection \<Rightarrow> TcpConnection res" where
  "close_at_once c = connectDestroyed True c"

section \<open>The invariant\<close>

definition closing :: "TcpConnection \<Rightarrow> bool" where
  "closing c \<longleftrightarrow> tc_state c = kDisconnecting \<or> tc_state c = kDisconnected"

definition conn_inv :: "TcpConnection \<Rightarrow> bool" where
  "conn_inv c \<longleftrightarrow>
     Buffer_inv (tc_input c) \<and> Buffer_inv (tc_output c)
     \<and> (tc_isWriting c \<longleftrightarrow> contents (tc_output c) \<noteq> [])
     \<and> tc_sent c @ contents (tc_output c) = concat (tc_accepted c)
     \<and> (tc_fin c \<longrightarrow> contents (tc_output c) = [] \<and> closing c)
     \<and> (ShutdownInLoop \<in> set (tc_functors c) \<longrightarrow> closing c)
     \<and> (ConnectEstablished \<in> set (tc_functors c) \<longrightarrow> tc_state c = kConnnecting)
     \<and> count_list (tc_functors c) ConnectEstablished \<le> 1"

text \<open>A connection as constructed, with some callbacks set and the functors a server or a client queues.\<close>

definition conn_init :: "TcpConnection \<Rightarrow> bool" where
  "conn_init c \<longleftrightarrow>
     tc_state c = kConnnecting \<and> tc_input c = Buffer_init \<and> tc_output c = Buffer_init \<and> \<not> tc_isWriting c
     \<and> tc_sent c = [] \<and> tc_accepted c = [] \<and> \<not> tc_fin c
     \<and> tc_functors c \<in> {[], [EnableReadInLoop], [EnableReadInLoop, ConnectEstablished], [ConnectEstablished]}"

text \<open>The life of a connection only goes forward.\<close>

fun state_rank :: "StateE \<Rightarrow> nat" where
  "state_rank kConnnecting = 0" | "state_rank kConnected = 1" | "state_rank kDisconnecting = 2" | "state_rank kDisconnected = 3"

section \<open>The operations keep it\<close>

lemma tc_interest_Inr [simp]:
  "tc_interest i c = Inr c' \<longleftrightarrow> (ch_index (tc_channel c) < 0 \<or> tc_registered c)
     \<and> c' = c\<lparr>tc_channel := set_index (max 0 (ch_index (tc_channel c))) (set_interest i (tc_channel c)), tc_registered := True,
       tc_asks := tc_asks c @ [AskInterest i]\<rparr>"
  by (auto simp: tc_interest_def rassert_def)

lemma isWriting_after [simp]:
  "ch_isWriting (set_index k ch) = ch_isWriting ch"
  by (simp add: ch_isWriting_def set_index_def)

lemma isWriting_updates [simp]:
  "tc_isWriting (tc_functors_update g1 c) = tc_isWriting c" "tc_isWriting (tc_state_update g2 c) = tc_isWriting c"
  "tc_isWriting (tc_input_update g3 c) = tc_isWriting c" "tc_isWriting (tc_output_update g3 c) = tc_isWriting c"
  "tc_isWriting (tc_sent_update g4 c) = tc_isWriting c" "tc_isWriting (tc_accepted_update g5 c) = tc_isWriting c"
  "tc_isWriting (tc_fin_update g6 c) = tc_isWriting c" "tc_isWriting (tc_registered_update g6 c) = tc_isWriting c"
  "tc_isWriting (tc_asks_update g8 c) = tc_isWriting c"
  "tc_isWriting (tc_channel_update g7 c) = ch_isWriting (g7 (tc_channel c))"
  by (simp_all add: tc_isWriting_def)

text \<open>An operation is good if it keeps the invariant and does not step back in the connection's life.\<close>

definition forward :: "TcpConnection \<Rightarrow> TcpConnection \<Rightarrow> bool" where
  "forward c c' \<longleftrightarrow> (conn_inv c \<longrightarrow> conn_inv c') \<and> state_rank (tc_state c) \<le> state_rank (tc_state c')"

lemma forward_refl [simp]: "forward c c"
  by (simp add: forward_def)

lemma forward_trans: "forward a b \<Longrightarrow> forward b c \<Longrightarrow> forward a c"
  by (auto simp: forward_def)

lemma forward_queue: "f \<noteq> ConnectEstablished \<Longrightarrow> f \<noteq> ShutdownInLoop \<Longrightarrow> forward c (tc_queue f c)"
  by (auto simp: forward_def conn_inv_def tc_queue_def closing_def)

lemma forward_reading: "i = EnableReading \<or> i = DisableAll \<Longrightarrow> tc_interest i c = Inr c' \<Longrightarrow> forward c c'"
  by (auto simp: forward_def conn_inv_def closing_def set_interest_writing tc_isWriting_def)

lemma readable_zero: "Buffer_inv b \<Longrightarrow> readableBytes b = 0 \<longleftrightarrow> contents b = []"
  using length_contents [of b] by auto

lemma forward_shutdownInLoop:
  "shutdownInLoop b c = Inr c' \<Longrightarrow> closing c \<Longrightarrow> forward c c'"
  by (auto simp: shutdownInLoop_def forward_def conn_inv_def closing_def split: if_splits)

lemma forward_shutdown: "tc_shutdown b c = Inr c' \<Longrightarrow> forward c c'"
proof (cases "tc_state c = kConnected")
  case True
  let ?c = "c\<lparr>tc_state := kDisconnecting\<rparr>"
  have 1: "forward c ?c" using True by (auto simp: forward_def conn_inv_def closing_def)
  assume s: "tc_shutdown b c = Inr c'"
  show ?thesis
  proof (cases b)
    case True
    then have "shutdownInLoop b ?c = Inr c'" using s \<open>tc_state c = kConnected\<close> by (simp add: tc_shutdown_def)
    then show ?thesis using 1 forward_shutdownInLoop [of b ?c c'] forward_trans by (auto simp: closing_def)
  next
    case False
    then have "c' = tc_queue ShutdownInLoop ?c" using s \<open>tc_state c = kConnected\<close> by (simp add: tc_shutdown_def)
    then have "forward ?c c'" by (auto simp: forward_def conn_inv_def tc_queue_def closing_def)
    then show ?thesis using 1 forward_trans by blast
  qed
qed (simp add: tc_shutdown_def)

lemma forward_sendInLoop:
  assumes s: "sendInLoop b message w c = Inr c'"
  shows "forward c c' \<and> tc_state c' = tc_state c"
proof (cases "b \<and> \<not> tc_isWriting c \<and> readableBytes (tc_output c) = 0 \<and> (\<exists>n. sys_write (tc_fin c) w message = Wrote n)")
  case False
  then show ?thesis using s by (auto simp: sendInLoop_def split: if_splits write_result.splits)
next
  case True
  then obtain n where b: b and n: "sys_write (tc_fin c) w message = Wrote n" and nw: "\<not> tc_isWriting c"
    and rz: "readableBytes (tc_output c) = 0" by blast
  have fin: "\<not> tc_fin c" and nl: "n \<le> length message"
    using n by (auto simp: sys_write_def split: if_splits write_result.splits)
  let ?c = "c\<lparr>tc_sent := tc_sent c @ take n message, tc_accepted := tc_accepted c @ [message]\<rparr>"
  show ?thesis
  proof (cases "n < length message")
    case True
    then obtain out where out: "append_buf (drop n message) (tc_output c) = Inr out"
      and e: "tc_interest EnableWriting (?c\<lparr>tc_output := out\<rparr>) = Inr c'"
      using s b n nw rz by (auto simp: sendInLoop_def Let_def rbind_Inr_iff simp del: tc_interest_Inr)
    have "conn_inv c \<Longrightarrow> conn_inv c'"
    proof -
      assume i: "conn_inv c"
      then have bi: "Buffer_inv (tc_output c)" by (simp add: conn_inv_def)
      obtain out' where "append_buf (drop n message) (tc_output c) = Inr out'" "Buffer_inv out'"
        "contents out' = contents (tc_output c) @ drop n message" using append_ok [OF bi] by blast
      moreover have "contents (tc_output c) = []" using readable_zero [OF bi] rz by simp
      ultimately have "Buffer_inv out" "contents out = drop n message" "contents (tc_output c) = []" using out by auto
      then show ?thesis using i e True fin by (auto simp: conn_inv_def set_interest_writing closing_def)
    qed
    then show ?thesis using e by (auto simp: forward_def)
  next
    case False
    then have nm: "n = length message" using nl by simp
    have c': "c' = (if tc_hasWriteComplete c then tc_queue WriteComplete ?c else ?c)"
      using s b n nw rz False by (auto simp: sendInLoop_def Let_def split: if_splits)
    have "conn_inv c \<Longrightarrow> conn_inv ?c"
      using readable_zero rz nw nm by (auto simp: conn_inv_def closing_def)
    then have "forward c ?c" by (simp add: forward_def)
    then show ?thesis using c' forward_trans [OF _ forward_queue [of WriteComplete ?c]] by (auto simp: tc_queue_def)
  qed
qed

lemma forward_send: "tc_send b message w c = Inr c' \<Longrightarrow> forward c c'"
  using forward_sendInLoop [of True message w c c'] forward_queue [of "SendInLoop message" c]
  by (auto simp: tc_send_def split: if_splits)

lemma forward_handleWrite:
  assumes s: "handleWrite b w c = Inr c'" shows "forward c c'"
proof (cases "b \<and> tc_isWriting c \<and> (case sys_write (tc_fin c) w (contents (tc_output c)) of Wrote n \<Rightarrow> 0 < n | WriteError e \<Rightarrow> False)")
  case False
  then show ?thesis using s by (simp add: handleWrite_def split: if_splits write_result.splits)
next
  case True
  then obtain n where b: b and n: "sys_write (tc_fin c) w (contents (tc_output c)) = Wrote n" and n0: "0 < n" and wr: "tc_isWriting c"
    by (auto split: write_result.splits)
  have fin: "\<not> tc_fin c" and nl: "n \<le> length (contents (tc_output c))"
    using n by (auto simp: sys_write_def split: if_splits write_result.splits)
  obtain out where out: "retrieve (int n) (tc_output c) = Inr out"
    using s b n n0 wr by (auto simp: handleWrite_def Let_def rbind_Inr_iff)
  let ?c = "c\<lparr>tc_sent := tc_sent c @ take n (contents (tc_output c)), tc_output := out\<rparr>"
  have o: "Buffer_inv out \<and> contents out = drop n (contents (tc_output c))" if "conn_inv c"
    using retrieve_ok [of "tc_output c" "int n"] nl out that by (auto simp: conn_inv_def)
  show ?thesis
  proof (cases "readableBytes out = 0")
    case False
    then have c': "c' = ?c" using s b n n0 wr out by (auto simp: handleWrite_def Let_def)
    have "conn_inv c'" if i: "conn_inv c"
      using i o [OF i] False readable_zero [of out] wr fin by (auto simp: conn_inv_def closing_def c')
    then show ?thesis by (simp add: forward_def c')
  next
    case True
    then obtain d where d: "tc_interest DisableWriting ?c = Inr d"
      and r: "(let c = (if tc_hasWriteComplete d then tc_queue WriteComplete d else d)
               in if tc_state c = kDisconnecting then shutdownInLoop True c else Inr c) = Inr c'"
      using s b n n0 wr out by (auto simp: handleWrite_def Let_def rbind_Inr_iff simp del: tc_interest_Inr)
    have "conn_inv d" if i: "conn_inv c"
      using i o [OF i] d True readable_zero [of out] wr fin by (auto simp: conn_inv_def closing_def set_interest_writing)
    then have 1: "forward c d" using d by (auto simp: forward_def)
    let ?e = "if tc_hasWriteComplete d then tc_queue WriteComplete d else d"
    have 2: "forward d ?e" using forward_queue [of WriteComplete d] by simp
    have "forward ?e c'"
      using r forward_shutdownInLoop [of True ?e c'] by (auto simp: Let_def closing_def split: if_splits)
    then show ?thesis using 1 2 forward_trans by blast
  qed
qed

lemma forward_user_step: "user_step u c = Inr c' \<Longrightarrow> forward c c'"
proof (cases u)
  case UTakeAll
  assume "user_step u c = Inr c'"
  then have "Buffer_inv (tc_input c) \<Longrightarrow> c' = c\<lparr>tc_input := retrieveAll (tc_input c)\<rparr>" "\<exists>inp. c' = c\<lparr>tc_input := inp\<rparr>"
    using UTakeAll retrieveAllAsString_ok [of "tc_input c"] by (auto simp: rbind_Inr_iff)
  then show ?thesis using Buffer_inv_retrieveAll [of "tc_input c"] by (auto simp: forward_def conn_inv_def closing_def)
next
  case (UTake n)
  assume "user_step u c = Inr c'"
  with UTake obtain str inp where r: "retrieveAsString n (tc_input c) = Inr (str, inp)" and c': "c' = c\<lparr>tc_input := inp\<rparr>"
    by (auto simp: rbind_Inr_iff)
  have "Buffer_inv inp" if "Buffer_inv (tc_input c)"
  proof (cases "0 \<le> n \<and> n \<le> int (length (contents (tc_input c)))")
    case True
    then show ?thesis using retrieveAsString_ok [OF that, of n] r by auto
  next
    case False
    then show ?thesis using retrieveAsString_fault [OF that, of n] r by auto
  qed
  then show ?thesis by (auto simp: forward_def conn_inv_def closing_def c')
qed (auto intro: forward_send forward_shutdown)

lemma forward_user_steps: "user_steps us c = Inr c' \<Longrightarrow> forward c c'"
proof (induction us arbitrary: c)
  case (Cons u us)
  then obtain d where "user_step u c = Inr d" "user_steps us d = Inr c'" by (auto simp: rbind_Inr_iff)
  then show ?case using Cons.IH forward_user_step forward_trans by blast
qed simp

lemma forward_call_user: "call_user user e s c = Inr c' \<Longrightarrow> forward c c'"
  by (auto simp: call_user_def intro: forward_user_steps split: if_splits)

lemma forward_connectDestroyed: "connectDestroyed b c = Inr c' \<Longrightarrow> forward c c'"
proof -
  assume "connectDestroyed b c = Inr c'"
  then obtain d where st: "tc_state c = kConnected \<or> tc_state c = kDisconnecting"
    and d: "tc_interest DisableAll (c\<lparr>tc_state := kDisconnected\<rparr>) = Inr d" "c' = d\<lparr>tc_registered := False, tc_asks := tc_asks d @ [AskRemove]\<rparr>"
    unfolding connectDestroyed_def by (auto simp: rassert_Inr_iff rbind_Inr_iff split: if_splits simp del: tc_interest_Inr)
  have "forward c (c\<lparr>tc_state := kDisconnected\<rparr>)" using st by (auto simp: forward_def conn_inv_def closing_def)
  moreover have "forward (c\<lparr>tc_state := kDisconnected\<rparr>) d" using forward_reading [OF _ d(1)] by simp
  moreover have "forward d c'" by (auto simp: d(2) forward_def conn_inv_def closing_def)
  ultimately show ?thesis using forward_trans by blast
qed

lemma forward_handleClose:
  assumes "\<And>c c'. close c = Inr c' \<Longrightarrow> forward c c'" and "handleClose close b c = Inr c'"
  shows "forward c c'"
proof -
  obtain d where "tc_interest DisableAll c = Inr d" "close d = Inr c'"
    using assms(2) by (auto simp: handleClose_def rassert_Inr_iff rbind_Inr_iff split: if_splits simp del: tc_interest_Inr)
  then show ?thesis using assms(1) [of d c'] forward_reading [of DisableAll c d] forward_trans by blast
qed

lemma readFd_inv: "readFd r b = Inr (n, err, b') \<Longrightarrow> Buffer_inv b \<Longrightarrow> Buffer_inv b'"
proof (cases r)
  case (ReadvError e)
  then show "readFd r b = Inr (n, err, b') \<Longrightarrow> Buffer_inv b \<Longrightarrow> Buffer_inv b'" by (simp add: readFd_def)
next
  case (ReadvBytes bs)
  then show "readFd r b = Inr (n, err, b') \<Longrightarrow> Buffer_inv b \<Longrightarrow> Buffer_inv b'" using readFd_ok [of b bs] by auto
qed

lemma forward_handleRead:
  assumes "\<And>c c'. close c = Inr c' \<Longrightarrow> forward c c'" and "handleRead user close r t c = Inr c'"
  shows "forward c c'"
proof -
  obtain x where x: "readFd r (tc_input c) = Inr x"
    using assms(2) by (cases "readFd r (tc_input c)") (auto simp: handleRead_eq)
  obtain n err inp where "x = (n, err, inp)" by (cases x)
  then have r: "readFd r (tc_input c) = Inr (n, err, inp)" using x by simp
  have rest: "(if n > 0 then call_user user (OnMessage t) (tc_hasMessage c) (c\<lparr>tc_input := inp\<rparr>)
       else if n = 0 then handleClose close True (c\<lparr>tc_input := inp\<rparr>) else Inr (c\<lparr>tc_input := inp\<rparr>)) = Inr c'"
    using assms(2) by (simp add: handleRead_eq r Let_def handleError_def split: if_splits)
  have "Buffer_inv inp" if "Buffer_inv (tc_input c)"
    using readFd_inv [OF r that] by simp
  then have "forward c (c\<lparr>tc_input := inp\<rparr>)" by (auto simp: forward_def conn_inv_def closing_def)
  moreover have "forward (c\<lparr>tc_input := inp\<rparr>) c'"
    using rest by (auto intro: forward_call_user forward_handleClose [OF assms(1)] split: if_splits)
  ultimately show ?thesis by (rule forward_trans)
qed

lemma forward_connectEstablished:
  assumes "connectEstablished user b c = Inr c'" "tc_state c = kConnnecting" "ConnectEstablished \<notin> set (tc_functors c)"
  shows "forward c c'"
proof -
  obtain d where d: "tc_interest EnableReading (c\<lparr>tc_state := kConnected\<rparr>) = Inr d"
    and u: "call_user user OnConnection (tc_hasConnection d) d = Inr c'"
    using assms(1) by (auto simp: connectEstablished_def rbind_Inr_iff split: if_splits simp del: tc_interest_Inr)
  have "forward c (c\<lparr>tc_state := kConnected\<rparr>)"
    using assms(2,3) by (auto simp: forward_def conn_inv_def closing_def)
  then show ?thesis using forward_reading [OF _ d] forward_call_user [OF u] forward_trans by blast
qed

lemma forward_run_functor:
  assumes "tc_functors c = f # fs" "run_functor user w f (c\<lparr>tc_functors := fs\<rparr>) = Inr c'" "conn_inv c"
  shows "conn_inv c' \<and> state_rank (tc_state c) \<le> state_rank (tc_state c')"
proof -
  let ?c = "c\<lparr>tc_functors := fs\<rparr>"
  have i: "conn_inv ?c" and e: "f = ConnectEstablished \<Longrightarrow> tc_state c = kConnnecting \<and> ConnectEstablished \<notin> set fs"
    and s: "f = ShutdownInLoop \<Longrightarrow> closing c"
    using assms(1,3) by (auto simp: conn_inv_def closing_def count_list_0_iff split: if_splits)
  have "forward ?c c'"
  proof (cases f)
    case EnableReadInLoop
    then show ?thesis using assms(2) forward_reading [of EnableReading ?c c'] by (simp add: enableReadInLoop_def)
  next
    case ConnectEstablished
    then show ?thesis using assms(2) e by (intro forward_connectEstablished [of user True]) simp_all
  next
    case (SendInLoop m)
    then show ?thesis using assms(2) forward_sendInLoop by auto
  next
    case ShutdownInLoop
    then show ?thesis using assms(2) s forward_shutdownInLoop [of True ?c c'] by (simp add: closing_def)
  next
    case WriteComplete
    then show ?thesis using assms(2) forward_call_user by auto
  next
    case ConnectDestroyed
    then show ?thesis using assms(2) forward_connectDestroyed by auto
  qed
  then show ?thesis using i by (auto simp: forward_def)
qed

lemma close_forward: "close_by_queue c = Inr c' \<Longrightarrow> forward c c'" "close_at_once c = Inr c' \<Longrightarrow> forward c c'"
  using forward_queue [of ConnectDestroyed c] forward_connectDestroyed [of True c c']
  by (auto simp: close_by_queue_def close_at_once_def)

lemma conn_step_forward:
  assumes "\<And>c c'. close c = Inr c' \<Longrightarrow> forward c c'" "conn_step user close c c'" "conn_inv c"
  shows "conn_inv c' \<and> state_rank (tc_state c) \<le> state_rank (tc_state c')"
  using assms(2)
proof cases
  case (step_functor f fs w)
  then show ?thesis using forward_run_functor assms(3) by blast
next
  case (step_read r t)
  then show ?thesis using forward_handleRead [OF assms(1)] assms(3) by (auto simp: forward_def)
qed (use assms(3) forward_handleWrite forward_send forward_shutdown forward_user_step in \<open>auto simp: forward_def\<close>)

lemma conn_inv_init: "conn_init c \<Longrightarrow> conn_inv c"
  using Buffer_inv_init by (auto simp: conn_init_def conn_inv_def closing_def queue_simps)

lemma construct_init:
  assumes "construct_connection b loop fd = Inr c" shows "conn_init c"
proof -
  have "\<not> has_bits kReadEvent kWriteEvent" by simp
  then show ?thesis using assms
    by (cases b) (auto simp: construct_connection_def Let_def enableReadInLoop_def conn_init_def tc_queue_def TcpConnection_new_def
        Channel_new_def tc_isWriting_def ch_isWriting_def set_index_def enableReading_def)
qed

interpretation cq: invariant_system conn_init "conn_step user close_by_queue" conn_inv for user
  by unfold_locales (use conn_inv_init conn_step_forward close_forward(1) in blast)+

interpretation ca: invariant_system conn_init "conn_step user close_at_once" conn_inv for user
  by unfold_locales (use conn_inv_init conn_step_forward close_forward(2) in blast)+

lemma reachable_conn_inv:
  "close = close_by_queue \<or> close = close_at_once \<Longrightarrow> reachable conn_init (conn_step user close) c \<Longrightarrow> conn_inv c"
  using cq.inv_reachable ca.inv_reachable by blast

section \<open>Draining\<close>

fun write_rounds :: "nat list \<Rightarrow> TcpConnection \<Rightarrow> TcpConnection res" where
  "write_rounds [] c = Inr c"
| "write_rounds (n # ns) c = rbind (handleWrite True (Wrote n) c) (write_rounds ns)"

lemma handleWrite_round:
  assumes i: "conn_inv c" and out: "contents (tc_output c) \<noteq> []" and n: "0 < n" and r: "tc_registered c"
    and st: "tc_state c = kDisconnecting"
  shows "\<exists>c'. handleWrite True (Wrote n) c = Inr c' \<and> conn_inv c' \<and> tc_registered c' \<and> tc_state c' = kDisconnecting
    \<and> contents (tc_output c') = drop n (contents (tc_output c)) \<and> tc_accepted c' = tc_accepted c
    \<and> (contents (tc_output c') = [] \<longrightarrow> tc_fin c')"
proof -
  have b: "Buffer_inv (tc_output c)" and w: "tc_isWriting c" and fin: "\<not> tc_fin c" using i out by (auto simp: conn_inv_def)
  let ?m = "min n (length (contents (tc_output c)))"
  have m: "0 < ?m" using n out by simp
  obtain out' where o: "retrieve (int ?m) (tc_output c) = Inr out'" "Buffer_inv out'" "contents out' = drop ?m (contents (tc_output c))"
    using retrieve_ok [OF b, of "int ?m"] by auto
  have o3: "contents out' = drop n (contents (tc_output c))" using o(3) by (cases "n \<le> length (contents (tc_output c))") auto
  have "\<exists>c'. handleWrite True (Wrote n) c = Inr c' \<and> tc_registered c' \<and> tc_state c' = kDisconnecting \<and> tc_output c' = out'
    \<and> tc_accepted c' = tc_accepted c \<and> (contents out' = [] \<longrightarrow> tc_fin c')"
  proof (cases "contents out' = []")
    case True
    then have z: "readableBytes out' = 0" using readable_zero o(2) by blast
    have "\<not> ch_isWriting (set_interest DisableWriting (tc_channel c))" by simp
    then show ?thesis using w fin m o(1) z r st True
      by (simp add: handleWrite_def sys_write_def Let_def tc_interest_def shutdownInLoop_def tc_queue_def)
  next
    case False
    then have z: "readableBytes out' \<noteq> 0" using readable_zero o(2) by blast
    then show ?thesis using w fin m o(1) r st False by (simp add: handleWrite_def sys_write_def Let_def)
  qed
  then obtain c' where c': "handleWrite True (Wrote n) c = Inr c'" "tc_registered c'" "tc_state c' = kDisconnecting" "tc_output c' = out'"
    "tc_accepted c' = tc_accepted c" "contents out' = [] \<longrightarrow> tc_fin c'" by blast
  moreover have "conn_inv c'" using forward_handleWrite [OF c'(1)] i by (simp add: forward_def)
  ultimately show ?thesis using o3 by auto
qed

text \<open>A message the system takes only in part.\<close>

lemma send_partial:
  assumes i: "conn_inv c" and st: "tc_state c = kConnected" and e: "contents (tc_output c) = []" and r: "tc_registered c"
    and n: "n < length message"
  shows "\<exists>c'. tc_send True message (Wrote n) c = Inr c' \<and> conn_inv c' \<and> tc_registered c' \<and> tc_state c' = kConnected
    \<and> tc_sent c' = tc_sent c @ take n message \<and> contents (tc_output c') = drop n message
    \<and> tc_accepted c' = tc_accepted c @ [message] \<and> tc_asks c' = tc_asks c @ [AskInterest EnableWriting]"
proof -
  have b: "Buffer_inv (tc_output c)" and w: "\<not> tc_isWriting c" and fin: "\<not> tc_fin c"
    using i e st by (auto simp: conn_inv_def closing_def)
  obtain out where o: "append_buf (drop n message) (tc_output c) = Inr out" "contents out = drop n message"
    using append_ok [OF b, of "drop n message"] e by auto
  have z: "readableBytes (tc_output c) = 0" using readable_zero [OF b] e by simp
  have "\<exists>c'. tc_send True message (Wrote n) c = Inr c' \<and> tc_registered c' \<and> tc_state c' = kConnected
    \<and> tc_sent c' = tc_sent c @ take n message \<and> tc_output c' = out \<and> tc_accepted c' = tc_accepted c @ [message]
    \<and> tc_asks c' = tc_asks c @ [AskInterest EnableWriting]"
    using st w fin z n o(1) r by (simp add: tc_send_def sendInLoop_def sys_write_def Let_def tc_interest_def)
  then obtain c' where c': "tc_send True message (Wrote n) c = Inr c'" "tc_registered c'" "tc_state c' = kConnected"
    "tc_sent c' = tc_sent c @ take n message" "tc_output c' = out" "tc_accepted c' = tc_accepted c @ [message]"
    "tc_asks c' = tc_asks c @ [AskInterest EnableWriting]" by blast
  moreover have "conn_inv c'" using forward_send [OF c'(1)] i by (simp add: forward_def)
  ultimately show ?thesis using o(2) by auto
qed

text \<open>A connection that is established and then sends a message of which the system takes two bytes.\<close>

definition quiet_program :: program where
  "quiet_program e c = []"

lemma example_connection:
  "\<exists>c d. reachable conn_init (conn_step quiet_program close_by_queue) c \<and> tc_state c = kConnected \<and> tc_registered c
     \<and> conn_step quiet_program close_by_queue c d \<and> tc_sent d = ''he'' \<and> contents (tc_output d) = ''llo''
     \<and> tc_state d = kConnected \<and> tc_registered d \<and> conn_inv d \<and> tc_accepted d = [''hello'']"
proof -
  let ?a = "(TcpConnection_new 0 5)\<lparr>tc_functors := [ConnectEstablished], tc_hasConnection := True\<rparr>"
  have 0: "conn_init ?a" by (simp add: conn_init_def TcpConnection_new_def Channel_new_def tc_isWriting_def ch_isWriting_def)
  obtain c where c: "run_functor quiet_program (Wrote 0) ConnectEstablished (?a\<lparr>tc_functors := []\<rparr>) = Inr c" "tc_state c = kConnected"
    "tc_registered c" "tc_output c = Buffer_init" "tc_sent c = []" "tc_accepted c = []"
    by (simp add: connectEstablished_def tc_interest_def TcpConnection_new_def Channel_new_def call_user_def quiet_program_def)
  have s: "conn_step quiet_program close_by_queue ?a c" by (rule step_functor [OF _ c(1)]) simp
  have rc: "reachable conn_init (conn_step quiet_program close_by_queue) c" 
    using reach_init [where init = conn_init, OF 0] s by (rule reach_step)
  have i: "conn_inv c" by (rule cq.inv_reachable [OF rc])
  obtain d where "tc_send True ''hello'' (Wrote 2) c = Inr d" "conn_inv d" "tc_registered d" "tc_state d = kConnected"
    "tc_sent d = ''he''" "contents (tc_output d) = ''llo''" "tc_accepted d = [''hello'']"
    using send_partial [OF i c(2) _ c(3), of 2 "''hello''"] c(4-6) by (auto simp: queue_simps)
  moreover from this(1) have "conn_step quiet_program close_by_queue c d" by (intro step_loop_call [of "USend ''hello'' (Wrote 2)"]) simp
  ultimately show ?thesis using rc c(2,3) by blast
qed

section \<open>Properties\<close>

text \<open>C5: bytes are sent in order, none twice and none invented. At every state a connection can
  reach, whatever the events, the calls from other threads and the answers of the system, the bytes
  handed to the system followed by those in the output buffer are exactly the accepted messages one after
  the other; the channel asks for writability exactly while bytes are waiting; and the writing side is
  shut down only after everything accepted was sent.\<close>

theorem conn_stream_integrity:
  assumes "close = close_by_queue \<or> close = close_at_once" and "reachable conn_init (conn_step user close) c"
  shows "tc_sent c @ contents (tc_output c) = concat (tc_accepted c)
    \<and> (tc_isWriting c \<longleftrightarrow> contents (tc_output c) \<noteq> [])
    \<and> (tc_fin c \<longrightarrow> tc_sent c = concat (tc_accepted c) \<and> tc_state c \<in> {kDisconnecting, kDisconnected})"
  using reachable_conn_inv [OF assms] by (auto simp: conn_inv_def closing_def)

theorem conn_stream_integrity_witness:
  "\<exists>d. tc_sent d = ''he'' \<and> contents (tc_output d) = ''llo'' \<and> concat (tc_accepted d) = ''hello'' \<and> tc_isWriting d \<and> \<not> tc_fin d"
proof -
  obtain c d where "reachable conn_init (conn_step quiet_program close_by_queue) c" "conn_step quiet_program close_by_queue c d"
    and d: "tc_sent d = ''he''" "contents (tc_output d) = ''llo''"
    using example_connection by blast
  then have "reachable conn_init (conn_step quiet_program close_by_queue) d" by (blast intro: reach_step)
  from conn_stream_integrity [OF _ this] d
  have s: "''he'' @ ''llo'' = concat (tc_accepted d)" "tc_isWriting d" "tc_fin d \<longrightarrow> ''he'' = concat (tc_accepted d)" by auto
  have "\<not> tc_fin d"
  proof
    assume "tc_fin d"
    with s(1,3) have "''he'' @ ''llo'' = ''he''" by metis
    then show False by simp
  qed
  with s d show ?thesis by (intro exI [of _ d]) simp
qed

text \<open>The state machine only goes forward: connecting, connected, disconnecting, disconnected.
  No step of a reachable connection returns to an earlier state.\<close>

theorem conn_state_forward:
  assumes "close = close_by_queue \<or> close = close_at_once" and "reachable conn_init (conn_step user close) c"
    and "(conn_step user close)\<^sup>*\<^sup>* c c'"
  shows "state_rank (tc_state c) \<le> state_rank (tc_state c')"
proof -
  have cf: "\<And>c c'. close c = Inr c' \<Longrightarrow> forward c c'" using assms(1) close_forward by blast
  show ?thesis using assms(3)
  proof (induction rule: rtranclp_induct)
    case (step d e)
    have "conn_inv d" using reachable_conn_inv [OF assms(1) reachable_steps [OF step.hyps(1) assms(2)]] .
    then have "state_rank (tc_state d) \<le> state_rank (tc_state e)" using conn_step_forward [of close, OF cf step.hyps(2)] by blast
    with step.IH show ?case by simp
  qed simp
qed

theorem conn_state_forward_witness:
  "\<exists>c d. (conn_step quiet_program close_by_queue)\<^sup>*\<^sup>* c d \<and> contents (tc_output d) = ''llo''
     \<and> state_rank (tc_state c) \<le> state_rank (tc_state d)"
proof -
  obtain c d where r: "reachable conn_init (conn_step quiet_program close_by_queue) c"
    and s: "conn_step quiet_program close_by_queue c d" and d: "contents (tc_output d) = ''llo''"
    using example_connection by blast
  from conn_state_forward [OF _ r r_into_rtranclp [of "conn_step quiet_program close_by_queue", OF s]] s d show ?thesis by blast
qed

text \<open>C27: a shutdown is graceful. A connection that is disconnecting with bytes still waiting sends
  all of them and then shuts its writing side, as soon as the system takes enough bytes, in however many
  pieces.\<close>

theorem shutdown_flushes:
  assumes "conn_inv c" and "tc_state c = kDisconnecting" and "tc_registered c" and "contents (tc_output c) \<noteq> []"
    and "\<forall>n \<in> set ns. 0 < n" and "length (contents (tc_output c)) \<le> sum_list ns"
  shows "\<exists>c'. write_rounds ns c = Inr c' \<and> tc_sent c' = concat (tc_accepted c) \<and> tc_fin c' \<and> contents (tc_output c') = []"
  using assms
proof (induction ns arbitrary: c)
  case Nil
  then show ?case by simp
next
  case (Cons n ns)
  obtain d where d: "handleWrite True (Wrote n) c = Inr d" "conn_inv d" "tc_registered d" "tc_state d = kDisconnecting"
    "contents (tc_output d) = drop n (contents (tc_output c))" "tc_accepted d = tc_accepted c"
    "contents (tc_output d) = [] \<longrightarrow> tc_fin d"
    using handleWrite_round [of c n] Cons.prems by auto
  show ?case
  proof (cases "contents (tc_output d) = []")
    case False
    have "length (contents (tc_output d)) \<le> sum_list ns" using Cons.prems(6) d(5) by simp
    with Cons.IH [of d] d Cons.prems(5) False show ?thesis by auto
  next
    case True
    then have "\<not> tc_isWriting d" "tc_sent d = concat (tc_accepted c)" using d(2,6) by (auto simp: conn_inv_def)
    moreover from this(1) have "write_rounds ns d = Inr d" by (induction ns) (simp_all add: handleWrite_def)
    ultimately show ?thesis using d True by auto
  qed
qed

theorem shutdown_flushes_witness:
  "\<exists>c c'. tc_state c = kDisconnecting \<and> contents (tc_output c) = ''llo'' \<and> write_rounds [1, 5] c = Inr c' \<and> tc_sent c' = ''hello'' \<and> tc_fin c'"
proof -
  obtain d where d: "contents (tc_output d) = ''llo''" "tc_state d = kConnected" "tc_registered d" "conn_inv d" "tc_accepted d = [''hello'']"
    using example_connection by blast
  let ?c = "d\<lparr>tc_state := kDisconnecting\<rparr>"
  have "conn_inv ?c" using d(2,4) by (auto simp: conn_inv_def closing_def)
  from shutdown_flushes [OF this, of "[1, 5]"] d obtain c' where
    "write_rounds [1, 5] ?c = Inr c'" "tc_sent c' = ''hello''" "tc_fin c'" by auto
  then show ?thesis using d by (intro exI [of _ ?c] exI [of _ c']) simp
qed

text \<open>A message sent while output is waiting is lost. On a connected connection whose output
  buffer is not empty, or when the system is not ready to write, \<open>send\<close> from the loop's thread does
  nothing at all: the message is neither sent nor kept, and nobody is told.\<close>

theorem send_lost_while_pending:
  assumes "conn_inv c" and "contents (tc_output c) \<noteq> [] \<or> w = WriteError err"
  shows "tc_send True message w c = Inr c"
proof (cases "contents (tc_output c) = []")
  case True
  then have "w = WriteError err" using assms(2) by simp
  then show ?thesis by (simp add: tc_send_def sendInLoop_def sys_write_def)
next
  case False
  then have "tc_isWriting c" using assms(1) by (simp add: conn_inv_def)
  then show ?thesis by (simp add: tc_send_def sendInLoop_def)
qed

theorem send_lost_while_pending_witness:
  "\<exists>d. tc_state d = kConnected \<and> tc_send True ''more'' (Wrote 4) d = Inr d"
proof -
  obtain d where d: "contents (tc_output d) = ''llo''" "tc_state d = kConnected" "conn_inv d"
    using example_connection by blast
  from send_lost_while_pending [OF d(3), of "Wrote 4" 0 "''more''"] d show ?thesis by auto
qed

text \<open>An event before \<open>connectEstablished\<close> is fatal. The constructor already has reading
  enabled, and in the state it leaves, a peer that closes at once fails the assertion of
  \<open>handleClose\<close>, and bytes that arrive before the message callback is set throw.\<close>

theorem early_read_faults:
  assumes "construct_connection True loop fd = Inr c"
  shows "tc_registered c \<and> has_bits (ch_events (tc_channel c)) POLLIN
    \<and> handleRead user close (ReadvBytes []) t c = Inl AssertFailed
    \<and> handleRead user close (ReadvBytes [x]) t c = Inl BadFunctionCall"
proof -
  have c: "tc_registered c" "tc_state c = kConnnecting" "\<not> tc_hasMessage c" "has_bits (ch_events (tc_channel c)) POLLIN"
    "Buffer_inv (tc_input c)"
    using assms Buffer_inv_init
    by (auto simp: construct_connection_def enableReadInLoop_def TcpConnection_new_def set_index_def enableReading_def)
  obtain b0 b1 where "readFd (ReadvBytes []) (tc_input c) = Inr (0, None, b0)" "readFd (ReadvBytes [x]) (tc_input c) = Inr (1, None, b1)"
    using readFd_ok [OF c(5), of "[]"] readFd_ok [OF c(5), of "[x]"] by auto
  then show ?thesis using c by (simp add: handleRead_eq Let_def handleClose_def call_user_def)
qed

theorem early_read_faults_witness:
  "\<exists>c. construct_connection True 0 5 = Inr c
     \<and> handleRead quiet_program close_by_queue (ReadvBytes []) (Timestamp 0) c = Inl AssertFailed"
proof -
  obtain c where c: "construct_connection True 0 5 = Inr c"
    by (simp add: construct_connection_def enableReadInLoop_def tc_interest_def TcpConnection_new_def Channel_new_def)
  from early_read_faults [OF c, of quiet_program close_by_queue "Timestamp 0" "CHR ''a''"] c show ?thesis by blast
qed

end
