(* ===== verification/Doubles.thy ===== *)
theory Doubles
  imports Complex_Main "HOL-Library.Log_Nat" Timestamps
begin

text \<open>
  The arithmetic of \<open>double\<close>: a finite value is a rational, an operation is the exact operation
  followed by \<open>rnd\<close>, the rounding of IEEE 754 binary64 to nearest, ties to even, with gradual underflow.
  Values above \<open>DBL_MAX\<close> are kept as they are instead of becoming infinite: the program only compares
  them or converts them, which faults either way. NaN does not occur: the program divides only by a
  limit, and a zero limit faults in the conversion that follows. The laws of rounding are a locale,
  which \<open>rnd\<close> interprets.
\<close>

section \<open>Rounding\<close>

definition ilog2 :: "rat \<Rightarrow> int" where
  "ilog2 x =
     (let (a, b) = quotient_of x; d = int (floorlog 2 (nat a)) - int (floorlog 2 (nat b))
      in if 2 powi d \<le> x then d else d - 1)"

definition ulp_exp :: "rat \<Rightarrow> int" where
  "ulp_exp x = (if x = 0 then -1074 else max (ilog2 \<bar>x\<bar> - 52) (-1074))"

definition rne :: "rat \<Rightarrow> int" where
  "rne x =
     (let f = \<lfloor>x\<rfloor>; r = x - of_int f
      in if r < 1 / 2 then f else if r > 1 / 2 then f + 1 else if even f then f else f + 1)"

definition rnd :: "rat \<Rightarrow> rat" where
  "rnd x = of_int (rne (x / 2 powi ulp_exp x)) * 2 powi ulp_exp x"

definition is_double :: "rat \<Rightarrow> bool" where
  "is_double x \<longleftrightarrow> rnd x = x"

definition DBL_MAX :: rat where
  "DBL_MAX = (2 ^ 53 - 1) * 2 ^ 971"

text \<open>\<open>static_cast<int64_t>\<close> of a double truncates towards zero.\<close>

definition trunc :: "rat \<Rightarrow> int" where
  "trunc x = (if 0 \<le> x then \<lfloor>x\<rfloor> else \<lceil>x\<rceil>)"

definition cast_int64 :: "rat \<Rightarrow> int res" where
  "cast_int64 x = (if in_int64 (trunc x) then Inr (trunc x) else Inl FloatCast)"

definition cast_int32 :: "rat \<Rightarrow> int res" where
  "cast_int32 x = (if in_int32 (trunc x) then Inr (trunc x) else Inl FloatCast)"

section \<open>The laws of rounding\<close>

locale rounding =
  fixes round_to :: "rat \<Rightarrow> rat"
  assumes round_mono: "x \<le> y \<Longrightarrow> round_to x \<le> round_to y"
    and round_int: "\<bar>n\<bar> < 2 ^ 53 \<Longrightarrow> round_to (of_int n) = of_int n"
    and round_idem: "round_to (round_to x) = round_to x"
begin

lemma round_nonneg: "0 \<le> x \<Longrightarrow> 0 \<le> round_to x"
  using round_mono [of 0 x] round_int [of 0] by simp

lemma round_le_int: "\<bar>n\<bar> < 2 ^ 53 \<Longrightarrow> x \<le> of_int n \<Longrightarrow> round_to x \<le> of_int n"
  using round_mono [of x "of_int n"] round_int [of n] by simp

lemma round_ge_fix: "round_to y = y \<Longrightarrow> y \<le> x \<Longrightarrow> y \<le> round_to x"
  using round_mono [of y x] by simp

end

section \<open>\<open>rnd\<close> is a rounding\<close>

lemma two_powi_pos [simp]: "0 < (2::rat) powi e"
  by simp

lemma two_powi_mono: "d \<le> e \<Longrightarrow> (2::rat) powi d \<le> 2 powi e"
  by (rule power_int_increasing) simp_all

lemma two_powi_less: "(2::rat) powi d < 2 powi e \<Longrightarrow> d < e"
  using two_powi_mono [of e d] by (meson linorder_not_less)

lemma floorlog_rat:
  assumes "0 < (a :: int)" "2 ^ (l - 1) \<le> nat a" "nat a < 2 ^ l" "0 < l"
  shows "(2::rat) powi (int l - 1) \<le> of_int a" "of_int a < (2::rat) powi int l"
proof -
  have n: "of_int a = (of_nat (nat a) :: rat)" using assms(1) by simp
  have "(2::rat) powi (int l - 1) = of_nat (2 ^ (l - 1))"
    using assms(4) power_int_of_nat [of "2::rat" "l - 1"] by (simp add: of_nat_diff)
  then show "(2::rat) powi (int l - 1) \<le> of_int a" unfolding n using assms(2) by (metis of_nat_mono)
  have "(2::rat) powi int l = of_nat (2 ^ l)" by simp
  then show "of_int a < (2::rat) powi int l" unfolding n using assms(3) by (metis of_nat_less_iff)
qed

lemma ilog2_bounds:
  assumes "0 < x" shows "2 powi ilog2 x \<le> x" "x < 2 powi (ilog2 x + 1)"
proof -
  obtain a b where q: "quotient_of x = (a, b)" by fastforce
  then have b: "0 < b" and x: "x = of_int a / of_int b" by (auto simp: quotient_of_denom_pos quotient_of_div)
  with assms have a: "0 < a" by (simp add: zero_less_divide_iff)
  define la lb where "la = floorlog 2 (nat a)" and "lb = floorlog 2 (nat b)"
  have la: "2 ^ (la - 1) \<le> nat a" "nat a < 2 ^ la" and lb: "2 ^ (lb - 1) \<le> nat b" "nat b < 2 ^ lb"
    using floorlog_bounds [of "nat a" 2] floorlog_bounds [of "nat b" 2] a b by (simp_all add: la_def lb_def)
  have pos: "0 < la" "0 < lb"
    using floorlog_ge_SucI [of 2 0 "nat a"] floorlog_ge_SucI [of 2 0 "nat b"] a b by (simp_all add: la_def lb_def Suc_le_eq)
  have pa: "(2::rat) powi (int la - 1) \<le> of_int a" "of_int a < (2::rat) powi int la"
    by (rule floorlog_rat [OF a la(1,2) pos(1)])+
  have pb: "(2::rat) powi (int lb - 1) \<le> of_int b" "of_int b < (2::rat) powi int lb"
    by (rule floorlog_rat [OF b lb(1,2) pos(2)])+
  define d where "d = int la - int lb"
  have b': "(0::rat) < of_int b" using b by simp
  have lower: "2 powi (d - 1) \<le> x"
  proof -
    have "(2::rat) powi (d - 1) * of_int b \<le> 2 powi (d - 1) * 2 powi int lb"
      using pb(2) by (intro mult_left_mono) auto
    also have "\<dots> = 2 powi (int la - 1)" by (subst power_int_add [symmetric]) (simp_all add: d_def)
    also have "\<dots> \<le> of_int a" by (rule pa(1))
    finally show ?thesis using b' by (simp add: x pos_le_divide_eq)
  qed
  have upper: "x < 2 powi (d + 1)"
  proof -
    have "of_int a < (2::rat) powi int la" by (rule pa(2))
    also have "\<dots> = 2 powi (d + 1) * 2 powi (int lb - 1)" by (subst power_int_add [symmetric]) (simp_all add: d_def)
    also have "\<dots> \<le> 2 powi (d + 1) * of_int b" using pb(1) by (intro mult_left_mono) auto
    finally show ?thesis using b' by (simp add: x pos_divide_less_eq)
  qed
  have "ilog2 x = (if 2 powi d \<le> x then d else d - 1)" by (simp add: ilog2_def q d_def la_def lb_def)
  with lower upper show "2 powi ilog2 x \<le> x" "x < 2 powi (ilog2 x + 1)" by auto
qed

lemma ilog2_mono: "0 < x \<Longrightarrow> x \<le> y \<Longrightarrow> ilog2 x \<le> ilog2 y"
  using two_powi_less [of "ilog2 x" "ilog2 y + 1"] ilog2_bounds [of x] ilog2_bounds [of y] by fastforce

lemma ilog2_less: "0 < x \<Longrightarrow> x < 2 powi e \<Longrightarrow> ilog2 x < e"
  using two_powi_less [of "ilog2 x" e] ilog2_bounds(1) [of x] by fastforce

lemma rne_mono: "x \<le> y \<Longrightarrow> rne x \<le> rne y"
proof -
  assume le: "x \<le> y"
  have n: "rne z = \<lfloor>z\<rfloor> \<or> rne z = \<lfloor>z\<rfloor> + 1" for z by (auto simp: rne_def Let_def)
  show ?thesis
  proof (cases "\<lfloor>x\<rfloor> = \<lfloor>y\<rfloor>")
    case True
    then show ?thesis using le by (auto simp: rne_def Let_def)
  next
    case False
    then have "\<lfloor>x\<rfloor> + 1 \<le> \<lfloor>y\<rfloor>" using floor_mono [OF le] by simp
    with n [of x] n [of y] show ?thesis by auto
  qed
qed

lemma rne_int [simp]: "rne (of_int n) = n"
  by (simp add: rne_def)

lemma two_powi_int: "0 \<le> e \<Longrightarrow> \<exists>n. (2::rat) powi e = of_int n"
  by (rule exI [of _ "2 ^ nat e"]) (simp add: power_int_nonneg_exp)

lemma two_powi_div: "(2::rat) powi a / 2 powi b = 2 powi (a - b)"
  by (simp add: power_int_diff)

text \<open>Values on the grid of \<open>x\<close>, and values on a finer grid, are not moved.\<close>

lemma rnd_on_grid: "x = of_int n * 2 powi e \<Longrightarrow> ulp_exp x \<le> e \<Longrightarrow> rnd x = x"
proof -
  assume x: "x = of_int n * 2 powi e" and le: "ulp_exp x \<le> e"
  obtain k where k: "(2::rat) powi (e - ulp_exp x) = of_int k" using two_powi_int [of "e - ulp_exp x"] le by auto
  have "x / 2 powi ulp_exp x = of_int n * (2 powi e / 2 powi ulp_exp x)" by (subst x) simp
  also have "\<dots> = of_int (n * k)" by (simp only: two_powi_div k of_int_mult)
  finally have e: "x / 2 powi ulp_exp x = of_int (n * k)" .
  have "rne (x / 2 powi ulp_exp x) = n * k" unfolding e by (rule rne_int)
  then have "rnd x = of_int (n * k) * 2 powi ulp_exp x" by (simp only: rnd_def)
  also have "\<dots> = x" by (subst e [symmetric]) simp
  finally show ?thesis .
qed

lemma ulp_exp_ge: "-1074 \<le> ulp_exp x"
  by (simp add: ulp_exp_def)

lemma ulp_exp_le:
  assumes "\<bar>x\<bar> < 2 powi (e + 53)" "-1074 \<le> e" shows "ulp_exp x \<le> e"
proof (cases "x = 0")
  case False
  then show ?thesis using ilog2_less [of "\<bar>x\<bar>" "e + 53"] assms by (simp add: ulp_exp_def)
qed (use assms in \<open>simp add: ulp_exp_def\<close>)

lemma two53: "(2::rat) powi (e + 53) = 2 ^ 53 * 2 powi e"
  by (simp add: power_int_add)

lemma rnd_fix:
  assumes x: "x = of_int n * 2 powi e" and n: "\<bar>n\<bar> \<le> 2 ^ 53" and e: "-1074 \<le> e"
  shows "rnd x = x"
proof (cases "\<bar>n\<bar> < 2 ^ 53")
  case True
  have "\<bar>x\<bar> = of_int \<bar>n\<bar> * 2 powi e" by (simp add: x abs_mult)
  also have "\<dots> < 2 ^ 53 * 2 powi e"
  proof (rule mult_strict_right_mono)
    have "of_int \<bar>n\<bar> < (of_int (2 ^ 53) :: rat)" using True by (rule of_int_less_iff [THEN iffD2])
    then show "of_int \<bar>n\<bar> < (2 :: rat) ^ 53" by simp
  qed simp
  finally have "\<bar>x\<bar> < 2 powi (e + 53)" by (simp only: two53)
  with e show ?thesis by (intro rnd_on_grid [OF x] ulp_exp_le)
next
  case False
  then have n: "\<bar>n\<bar> = 2 ^ 53" using n by simp
  then have "n = sgn n * 2 ^ 53" by (metis mult.commute abs_mult_sgn)
  then have "x = of_int (sgn n * 2 ^ 53) * 2 powi e" using x by argo
  then have x': "x = of_int (sgn n) * 2 powi (e + 53)" by (simp add: two53)
  have "\<bar>sgn n\<bar> = 1" using n by (auto simp: sgn_if)
  then have "\<bar>x\<bar> = 2 powi (e + 53)" by (simp add: x' abs_mult flip: of_int_abs)
  also have "\<dots> < 2 powi (e + 1 + 53)" by (rule power_int_strict_increasing) simp_all
  finally have "ulp_exp x \<le> e + 1" using e by (intro ulp_exp_le) simp_all
  then show ?thesis by (intro rnd_on_grid [OF x']) simp
qed

lemma abs_less_ulp: "\<bar>x\<bar> < 2 powi (ulp_exp x + 53)"
proof (cases "x = 0")
  case False
  then have "\<bar>x\<bar> < 2 powi (ilog2 \<bar>x\<bar> + 1)" by (intro ilog2_bounds(2)) simp
  also have "\<dots> \<le> 2 powi (ulp_exp x + 53)" using False by (intro two_powi_mono) (simp add: ulp_exp_def)
  finally show ?thesis .
qed simp

lemma rne_bound: "\<bar>rne (x / 2 powi ulp_exp x)\<bar> \<le> 2 ^ 53"
proof -
  have "\<bar>x\<bar> < 2 ^ 53 * 2 powi ulp_exp x" using abs_less_ulp [of x] by (simp only: two53)
  then have "\<bar>x / 2 powi ulp_exp x\<bar> < 2 ^ 53" by (simp add: pos_divide_less_eq)
  then have "x / 2 powi ulp_exp x < 2 ^ 53" "- (x / 2 powi ulp_exp x) < 2 ^ 53" unfolding abs_less_iff by blast+
  then have "x / 2 powi ulp_exp x \<le> of_int (2 ^ 53)" "of_int (- (2 ^ 53)) \<le> x / 2 powi ulp_exp x"
    unfolding of_int_minus of_int_power of_int_numeral by linarith+
  then have "rne (x / 2 powi ulp_exp x) \<le> 2 ^ 53" "- (2 ^ 53) \<le> rne (x / 2 powi ulp_exp x)"
    using rne_mono rne_int by metis+
  then show ?thesis by simp
qed

lemma rnd_idem: "rnd (rnd x) = rnd x"
  by (rule rnd_fix [OF rnd_def rne_bound ulp_exp_ge])

lemma rnd_int: "\<bar>n\<bar> < 2 ^ 53 \<Longrightarrow> rnd (of_int n) = of_int n"
  by (rule rnd_fix [of _ n 0]) simp_all

lemma rne_uminus: "rne (- x) = - rne x"
proof (cases "of_int \<lfloor>x\<rfloor> = x")
  case True
  then show ?thesis by (metis rne_int of_int_minus)
next
  case False
  have "\<lfloor>- x\<rfloor> = - \<lfloor>x\<rfloor> - 1" using False by (simp add: floor_minus ceiling_altdef)
  moreover have "even (- \<lfloor>x\<rfloor> - 1) = odd \<lfloor>x\<rfloor>" by simp
  ultimately have "even \<lfloor>- x\<rfloor> = odd \<lfloor>x\<rfloor>" by metis
  with \<open>\<lfloor>- x\<rfloor> = - \<lfloor>x\<rfloor> - 1\<close> show ?thesis unfolding rne_def Let_def by (auto simp: field_simps)
qed

lemma rnd_uminus: "rnd (- x) = - rnd x"
  by (simp add: rnd_def rne_uminus ulp_exp_def)

lemma rnd_mono_pos:
  assumes x: "0 < x" and le: "x \<le> y" shows "rnd x \<le> rnd y"
proof -
  have u: "ulp_exp x \<le> ulp_exp y" using ilog2_mono [OF x le] x le by (auto simp: ulp_exp_def)
  show ?thesis
  proof (cases "ulp_exp x = ulp_exp y")
    case True
    have "rne (x / 2 powi ulp_exp y) \<le> rne (y / 2 powi ulp_exp y)"
      using le by (intro rne_mono divide_right_mono) simp_all
    then show ?thesis unfolding rnd_def True by (intro mult_right_mono) simp_all
  next
    case False
    let ?k = "ilog2 y"
    have k: "ulp_exp y = ?k - 52" "ulp_exp x < ?k - 52" "ilog2 x < ?k"
      using False u x le ulp_exp_ge [of x] by (auto simp: ulp_exp_def)
    have step: "rne z * 1 = rne z" for z by simp
    have "x \<le> 2 powi ?k"
      using ilog2_bounds(2) [OF x] two_powi_mono [of "ilog2 x + 1" ?k] k(3) by simp
    then have "x / 2 powi ulp_exp x \<le> 2 powi ?k / 2 powi ulp_exp x" by (intro divide_right_mono) simp_all
    then have a: "x / 2 powi ulp_exp x \<le> 2 powi (?k - ulp_exp x)" by (simp only: two_powi_div)
    obtain n where n: "(2::rat) powi (?k - ulp_exp x) = of_int n" using two_powi_int [of "?k - ulp_exp x"] k(2) by auto
    have "rne (x / 2 powi ulp_exp x) \<le> n" using rne_mono [OF a] n by simp
    then have "rnd x \<le> of_int n * 2 powi ulp_exp x" unfolding rnd_def by (intro mult_right_mono) simp_all
    also have "\<dots> = 2 powi ?k" unfolding n [symmetric] by (subst power_int_add [symmetric]) simp_all
    also have "\<dots> \<le> rnd y"
    proof -
      have y: "0 < y" using x le by simp
      have "2 powi ?k / 2 powi ulp_exp y \<le> y / 2 powi ulp_exp y"
        using ilog2_bounds(1) [OF y] by (intro divide_right_mono) simp_all
      then have b: "of_int (2 ^ 52) \<le> y / 2 powi ulp_exp y" unfolding two_powi_div k(1) by simp
      have "2 ^ 52 \<le> rne (y / 2 powi ulp_exp y)" using rne_mono [OF b] by (simp only: rne_int)
      then have "of_int (2 ^ 52) * 2 powi ulp_exp y \<le> rnd y"
        unfolding rnd_def by (intro mult_right_mono) (simp_all only: of_int_le_iff two_powi_pos less_imp_le)
      moreover have "(of_int (2 ^ 52) :: rat) * 2 powi ulp_exp y = 2 powi ?k"
        using power_int_add [of "2::rat" 52 "?k - 52"] by (simp add: k(1))
      ultimately show ?thesis by simp
    qed
    finally show ?thesis .
  qed
qed

lemma rnd_0 [simp]: "rnd 0 = 0"
  using rnd_int [of 0] by simp

lemma rnd_pos: "0 < x \<Longrightarrow> 0 \<le> rnd x"
proof -
  assume "0 < x"
  then have "of_int 0 \<le> x / 2 powi ulp_exp x" by simp
  then have "0 \<le> rne (x / 2 powi ulp_exp x)" using rne_mono rne_int by metis
  then show ?thesis by (simp add: rnd_def)
qed

lemma rnd_mono: "x \<le> y \<Longrightarrow> rnd x \<le> rnd y"
proof -
  assume le: "x \<le> y"
  consider "0 < x" | "y < 0" | "x \<le> 0" "0 \<le> y" using le by linarith
  then show ?thesis
  proof cases
    case 2
    then have "rnd (- y) \<le> rnd (- x)" using le by (intro rnd_mono_pos) simp_all
    then show ?thesis by (simp add: rnd_uminus)
  next
    case 3
    have "0 \<le> rnd y" using 3(2) rnd_pos [of y] by (cases "y = 0") auto
    moreover have "0 \<le> - rnd x" using 3(1) rnd_pos [of "- x"] by (cases "x = 0") (auto simp: rnd_uminus)
    ultimately show ?thesis by simp
  qed (use rnd_mono_pos le in blast)
qed

interpretation fp: rounding rnd
  by unfold_locales (simp_all add: rnd_mono rnd_int rnd_idem)

end
