(* ===== verification/RateLimiters.thy ===== *)
theory RateLimiters
  imports Doubles
begin

text \<open>
  The double arithmetic of \<open>Timestamp\<close> (winterfell/base/wf_timestamp.h) and the rate limiter
  (winterfell/base/wf_rate.h, wf_rate.cc). Every call of \<open>Timestamp::now()\<close> is an argument. The mutex
  of the limiter is not modelled: the operations are what one thread does.
\<close>

section \<open>Times as doubles\<close>

definition secondsSinceEpochDouble :: "Timestamp \<Rightarrow> rat" where
  "secondsSinceEpochDouble t = rnd (rnd (of_int (microSecondsSinceEpoch t)) / of_int kMicroSecondsPerSecond)"

definition addTime :: "Timestamp \<Rightarrow> rat \<Rightarrow> Timestamp res" where
  "addTime timestamp seconds =
     rbind (cast_int64 (rnd (seconds * of_int kMicroSecondsPerSecond))) (\<lambda>delta.
     rbind (int64 (microSecondsSinceEpoch timestamp + delta)) (\<lambda>us. Inr (Timestamp us)))"

section \<open>The limiter\<close>

definition Inf_limit :: rat where
  "Inf_limit = DBL_MAX"

definition Every :: "Timestamp \<Rightarrow> rat" where
  "Every interval =
     (if microSecondsSinceEpoch interval \<le> 0 then Inf_limit
      else rnd (of_int kMicroSecondsPerSecond / rnd (of_int (microSecondsSinceEpoch interval))))"

text \<open>A zero limit gives an infinite quotient, whose conversion is undefined.\<close>

definition durationFromTokens :: "rat \<Rightarrow> rat \<Rightarrow> Timestamp res" where
  "durationFromTokens limit tokens =
     (if limit = 0 then Inl FloatCast
      else rbind (cast_int64 (rnd (rnd (tokens / limit) * of_int kMicroSecondsPerSecond))) (\<lambda>us. Inr (Timestamp us)))"

record Limiter =
  lm_limit :: rat
  lm_burst :: int
  lm_tokens :: rat
  lm_last :: Timestamp

definition Limiter_new :: "rat \<Rightarrow> int \<Rightarrow> Limiter" where
  "Limiter_new r b = \<lparr>lm_limit = r, lm_burst = b, lm_tokens = 0, lm_last = Timestamp 0\<rparr>"

definition setLast :: "Timestamp \<Rightarrow> Limiter \<Rightarrow> Limiter" where
  "setLast t L = L\<lparr>lm_last := t\<rparr>"

definition advance :: "Timestamp \<Rightarrow> Limiter \<Rightarrow> rat res" where
  "advance t L =
     (let since = (if microSecondsSinceEpoch t < microSecondsSinceEpoch (lm_last L) then t else lm_last L) in
      rbind (ts_sub t since) (\<lambda>elapsed.
        let delta = rnd (lm_limit L * secondsSinceEpochDouble elapsed);
            tokens = rnd (lm_tokens L + delta)
        in Inr (if tokens > of_int (lm_burst L) then of_int (lm_burst L) else tokens)))"

definition tokensAt :: "Timestamp \<Rightarrow> Limiter \<Rightarrow> rat res" where
  "tokensAt t L = advance t L"

record Reservation =
  rv_ok :: bool
  rv_tokens :: int
  rv_timeToAct :: Timestamp

text \<open>\<open>now\<close> is read first, \<open>now2\<close> inside \<open>tokens()\<close>.\<close>

definition reserveN :: "int \<Rightarrow> Timestamp \<Rightarrow> Timestamp \<Rightarrow> Limiter \<Rightarrow> (Reservation \<times> Limiter) res" where
  "reserveN n now now2 L =
     (if lm_limit L = Inf_limit then Inr (\<lparr>rv_ok = True, rv_tokens = n, rv_timeToAct = now\<rparr>, L)
      else
        rbind (tokensAt now2 L) (\<lambda>tokens.
          let tokensAtNow = rnd (tokens - of_int n) in
          rbind (if tokensAtNow < 0 then durationFromTokens (lm_limit L) (- tokensAtNow) else Inr ts_default) (\<lambda>waitDuring.
          let ok = n \<le> lm_burst L in
          rbind (if ok then addTime now (secondsSinceEpochDouble waitDuring) else Inr ts_default) (\<lambda>timeToAct.
          rbind (cast_int32 tokensAtNow) (\<lambda>left.
            Inr (\<lparr>rv_ok = ok, rv_tokens = left, rv_timeToAct = timeToAct\<rparr>, if ok then setLast now L else L))))))"

definition reserve :: "Timestamp \<Rightarrow> Timestamp \<Rightarrow> Limiter \<Rightarrow> (Reservation \<times> Limiter) res" where
  "reserve now now2 L = reserveN 1 now now2 L"

definition delay :: "Timestamp \<Rightarrow> Reservation \<Rightarrow> Timestamp res" where
  "delay now r =
     (if \<not> rv_ok r then Inr (Timestamp (2 ^ 63 - 1))
      else rbind (ts_sub (rv_timeToAct r) now) (\<lambda>d. Inr (if microSecondsSinceEpoch d < 0 then Timestamp 0 else d)))"

text \<open>Many reservations made at one instant.\<close>

fun reserve_many :: "int list \<Rightarrow> Timestamp \<Rightarrow> Limiter \<Rightarrow> (Reservation list \<times> Limiter) res" where
  "reserve_many [] now L = Inr ([], L)"
| "reserve_many (n # ns) now L =
     rbind (reserveN n now now L) (\<lambda>(r, L). rbind (reserve_many ns now L) (\<lambda>(rs, L). Inr (r # rs, L)))"

section \<open>Facts\<close>

lemma trunc_int [simp]: "trunc (of_int n) = n"
  by (simp add: trunc_def)

lemma trunc_mono: "x \<le> y \<Longrightarrow> trunc x \<le> trunc y"
proof -
  assume le: "x \<le> y"
  have "\<lceil>x\<rceil> \<le> \<lfloor>y\<rfloor>" if "x < 0" "0 \<le> y"
    using ceiling_mono [of x 0] that zero_le_floor [of y] by linarith
  then show ?thesis using le floor_mono [OF le] ceiling_mono [OF le] by (auto simp: trunc_def)
qed

lemma trunc_nonneg: "0 \<le> x \<Longrightarrow> trunc x = \<lfloor>x\<rfloor>"
  by (simp add: trunc_def)

lemma rne_error: "\<bar>of_int (rne x) - x\<bar> \<le> 1 / 2"
proof -
  have b: "of_int \<lfloor>x\<rfloor> \<le> x" "x < of_int \<lfloor>x\<rfloor> + 1" by linarith+
  have "rne x = \<lfloor>x\<rfloor> \<and> x - of_int \<lfloor>x\<rfloor> \<le> 1 / 2 \<or> rne x = \<lfloor>x\<rfloor> + 1 \<and> 1 / 2 \<le> x - of_int \<lfloor>x\<rfloor>"
    by (auto simp: rne_def Let_def)
  then show ?thesis
  proof (elim disjE conjE)
    assume "rne x = \<lfloor>x\<rfloor>" "x - of_int \<lfloor>x\<rfloor> \<le> 1 / 2"
    then show ?thesis using b unfolding abs_le_iff by (simp only:) linarith
  next
    assume "rne x = \<lfloor>x\<rfloor> + 1" "1 / 2 \<le> x - of_int \<lfloor>x\<rfloor>"
    then show ?thesis using b unfolding abs_le_iff by (simp only: of_int_add of_int_1) linarith
  qed
qed

lemma rnd_error: "\<bar>rnd x - x\<bar> \<le> 2 powi ulp_exp x / 2"
proof -
  let ?u = "2 powi ulp_exp x :: rat"
  have "rnd x - x = (of_int (rne (x / ?u)) - x / ?u) * ?u" by (simp add: rnd_def left_diff_distrib)
  then have "\<bar>rnd x - x\<bar> = \<bar>of_int (rne (x / ?u)) - x / ?u\<bar> * ?u" by (simp add: abs_mult)
  also have "\<dots> \<le> 1 / 2 * ?u" by (intro mult_right_mono rne_error) simp
  finally show ?thesis by simp
qed

text \<open>Away from underflow the error is at most \<open>2\<close> to the \<open>-53\<close> of the value.\<close>

lemma rnd_relative:
  assumes "1 / 2 ^ 100 \<le> x" shows "\<bar>rnd x - x\<bar> \<le> x / 2 ^ 53"
proof -
  have x: "0 < x" using assms less_le_trans [of 0 "1 / 2 ^ 100 :: rat" x] by simp
  have "-101 < ilog2 x"
  proof (rule ccontr)
    assume "\<not> -101 < ilog2 x"
    then have "x < 2 powi (-100)" using ilog2_bounds(2) [OF x] two_powi_mono [of "ilog2 x + 1" "-100"] by simp
    then show False using assms by (simp add: power_int_minus)
  qed
  then have u: "ulp_exp x = ilog2 x - 52" using x by (simp add: ulp_exp_def)
  have "\<bar>rnd x - x\<bar> \<le> 2 powi (ilog2 x - 52) / 2" using rnd_error [of x] u by simp
  also have "\<dots> = 2 powi ilog2 x / 2 ^ 53" by (simp add: power_int_diff)
  also have "\<dots> \<le> x / 2 ^ 53" using ilog2_bounds(1) [OF x] by (intro divide_right_mono) simp_all
  finally show ?thesis .
qed

text \<open>A value is rounded to the multiple of its unit in the last place that is next to it.\<close>

lemma rnd_eqI:
  assumes "2 powi e \<le> x" "x < 2 powi (e + 1)" "-1022 \<le> e" "\<bar>x / 2 powi (e - 52) - of_int n\<bar> < 1 / 2"
  shows "rnd x = of_int n * 2 powi (e - 52)"
proof -
  have x: "0 < x" using assms(1) less_le_trans [OF two_powi_pos assms(1)] by simp
  have "e < ilog2 x + 1" "ilog2 x < e + 1"
    using two_powi_less [of e "ilog2 x + 1"] ilog2_bounds(2) [OF x] assms(1) ilog2_less [OF x assms(2)] by simp_all
  then have u: "ulp_exp x = e - 52" using x assms(3) by (simp add: ulp_exp_def)
  let ?z = "x / 2 powi (e - 52)"
  have "\<bar>of_int (rne ?z) - of_int n :: rat\<bar> < 1" using rne_error [of ?z] assms(4) unfolding abs_le_iff abs_less_iff by linarith
  then have "rne ?z = n" by (metis of_int_diff of_int_abs of_int_less_1_iff abs_ge_zero int_one_le_iff_zero_less linorder_not_less not_less_iff_gr_or_eq zero_less_abs_iff eq_iff_diff_eq_0)
  then show ?thesis by (simp add: rnd_def u)
qed

lemma seconds_of_int: "\<bar>us\<bar> < 2 ^ 53 \<Longrightarrow> secondsSinceEpochDouble (Timestamp us) = rnd (of_int us / 1000000)"
  by (simp add: secondsSinceEpochDouble_def kMicroSecondsPerSecond_def rnd_int)

text \<open>The microseconds a duration comes back as, through seconds as a double.\<close>

lemma duration_error:
  assumes "0 \<le> d" "d < 2 ^ 50"
  shows "trunc (rnd (rnd (of_int d / 1000000) * 1000000)) \<in> {d - 1, d}"
proof (cases "d = 0")
  case False
  then have d: "1 \<le> d" using assms(1) by simp
  let ?d = "of_int d :: rat" and ?s = "rnd (of_int d / 1000000)"
  have dp: "1 \<le> ?d" using d by simp
  have db: "?d < 2 ^ 50" using assms(2) of_int_less_iff [of d "2 ^ 50", where 'a = rat] by simp
  have "1 / 2 ^ 100 \<le> ?d / 1000000" using dp by (simp add: field_simps)
  from rnd_relative [OF this] have s: "\<bar>?s * 1000000 - ?d\<bar> \<le> ?d / 2 ^ 53"
    by (simp add: abs_le_iff field_simps)
  have small: "?d / 2 ^ 53 < 1 / 8" using db by simp
  let ?z = "?s * 1000000"
  have z: "?d - 1 / 8 < ?z" "?z < ?d + 1 / 8" using s small unfolding abs_le_iff by linarith+
  have "rnd ?z \<le> rnd (?d + 1 / 8)" using z(2) by (intro rnd_mono) simp
  also have "?d + 1 / 8 = of_int (8 * d + 1) * 2 powi (-3)" by (simp add: power_int_minus)
  also have "rnd \<dots> = of_int (8 * d + 1) * 2 powi (-3)" using assms by (intro rnd_fix [OF refl]) simp_all
  finally have up: "rnd ?z \<le> ?d + 1 / 8" by (simp add: power_int_minus)
  have "of_int (d - 1) \<le> ?z" using z(1) by simp
  then have "rnd (of_int (d - 1)) \<le> rnd ?z" by (rule rnd_mono)
  then have lo: "of_int (d - 1) \<le> rnd ?z" using rnd_int [of "d - 1"] assms d by simp
  have "d - 1 \<le> trunc (rnd ?z)" using trunc_mono [OF lo] by (simp only: trunc_int)
  moreover have "trunc (rnd ?z) \<le> d"
  proof -
    have "(0::rat) \<le> of_int (d - 1)" using d by simp
    then have "0 \<le> rnd ?z" using lo by (rule order_trans)
    then have "trunc (rnd ?z) = \<lfloor>rnd ?z\<rfloor>" by (rule trunc_nonneg)
    also have "\<dots> \<le> \<lfloor>?d + 1 / 8\<rfloor>" by (rule floor_mono [OF up])
    also have "\<dots> = d" by (simp add: floor_eq_iff)
    finally show ?thesis .
  qed
  ultimately show ?thesis by auto
qed (simp add: trunc_def)

lemma seconds_zero [simp]: "secondsSinceEpochDouble (Timestamp 0) = 0" "secondsSinceEpochDouble ts_default = 0"
  using seconds_of_int [of 0] by (simp_all add: ts_default_def)

lemma seconds_mono: "us \<le> us' \<Longrightarrow> secondsSinceEpochDouble (Timestamp us) \<le> secondsSinceEpochDouble (Timestamp us')"
  by (auto simp: secondsSinceEpochDouble_def kMicroSecondsPerSecond_def intro!: rnd_mono divide_right_mono)

lemma seconds_nonneg: "0 \<le> us \<Longrightarrow> 0 \<le> secondsSinceEpochDouble (Timestamp us)"
  using seconds_mono [of 0 us] by simp

lemma addTime_0: "Timestamp_ok t \<Longrightarrow> addTime t 0 = Inr t"
  by (cases t) (simp add: addTime_def cast_int64_def trunc_def in_int64_def int64_def Timestamp_ok_def)

text \<open>The time that counts as elapsed at \<open>t\<close>.\<close>

definition elapsed :: "Timestamp \<Rightarrow> Limiter \<Rightarrow> int" where
  "elapsed t L = max 0 (microSecondsSinceEpoch t - microSecondsSinceEpoch (lm_last L))"

lemma advance_eq:
  assumes "in_int64 (elapsed t L)"
  shows "advance t L = Inr (min (rnd (lm_tokens L + rnd (lm_limit L * secondsSinceEpochDouble (Timestamp (elapsed t L))))) (of_int (lm_burst L)))"
  using assms by (auto simp: advance_def elapsed_def ts_sub_def int64_def Let_def max_def min_def in_int64_def split: if_splits)

lemma elapsed_mono: "microSecondsSinceEpoch t \<le> microSecondsSinceEpoch t' \<Longrightarrow> elapsed t L \<le> elapsed t' L"
  by (simp add: elapsed_def)

section \<open>Properties\<close>

text \<open>C34: the bucket fills with time and never overflows. With a non-negative limit the tokens
  \<open>advance\<close> computes, in double arithmetic, are at least those stored, at most the burst, and never
  fewer at a later time.\<close>

theorem advance_bounded_monotone:
  assumes "0 \<le> lm_limit L" and "is_double (lm_tokens L)" and "lm_tokens L \<le> of_int (lm_burst L)"
    and "microSecondsSinceEpoch t \<le> microSecondsSinceEpoch t'" and "in_int64 (elapsed t' L)"
  shows "\<exists>x x'. advance t L = Inr x \<and> advance t' L = Inr x' \<and> lm_tokens L \<le> x \<and> x \<le> x' \<and> x' \<le> of_int (lm_burst L)"
proof -
  let ?s = "\<lambda>t. secondsSinceEpochDouble (Timestamp (elapsed t L))"
  let ?x = "\<lambda>t. rnd (lm_tokens L + rnd (lm_limit L * ?s t))"
  have e: "0 \<le> elapsed t L" "elapsed t L \<le> elapsed t' L" by (simp_all add: elapsed_mono [OF assms(4)]) (simp add: elapsed_def)
  then have "in_int64 (elapsed t L)" using assms(5) by (simp add: in_int64_def)
  then have a: "advance t L = Inr (min (?x t) (of_int (lm_burst L)))" "advance t' L = Inr (min (?x t') (of_int (lm_burst L)))"
    using advance_eq assms(5) by blast+
  have "0 \<le> rnd (lm_limit L * ?s t)"
    using assms(1) seconds_nonneg [OF e(1)] by (intro fp.round_nonneg) simp
  then have "lm_tokens L \<le> ?x t" using assms(2) by (intro fp.round_ge_fix) (simp_all add: is_double_def)
  moreover have "?x t \<le> ?x t'"
    using assms(1) seconds_mono [OF e(2)] by (intro rnd_mono add_left_mono mult_left_mono) simp_all
  ultimately show ?thesis using assms(3) by (simp add: a)
qed

theorem advance_bounded_monotone_witness:
  "\<exists>x x'. advance (Timestamp 1000000) (Limiter_new 5 10) = Inr x \<and> advance (Timestamp 3000000) (Limiter_new 5 10) = Inr x'
     \<and> 0 \<le> x \<and> x \<le> x' \<and> x' \<le> 10"
  using advance_bounded_monotone [of "Limiter_new 5 10" "Timestamp 1000000" "Timestamp 3000000"]
  by (simp add: Limiter_new_def is_double_def elapsed_def in_int64_def)

text \<open>Reservations do not consume tokens. Once \<open>last\<close> is the present instant, a successful
  reservation leaves the limiter exactly as it was, so any number of simultaneous reservations of
  \<open>n\<close> events all get the very reservation that a single one gets, far beyond the burst.\<close>

theorem reservations_forget_debt:
  assumes "lm_last L = now" and "reserveN n now now L = Inr (r, L')"
  shows "L' = L \<and> reserve_many (replicate k n) now L = Inr (replicate k r, L)"
proof -
  have same: "L' = L"
    using assms unfolding reserveN_def Let_def setLast_def
    by (cases L) (auto simp: rbind_Inr_iff split: if_splits)
  have "reserve_many (replicate k n) now L = Inr (replicate k r, L)"
    using assms(2) same by (induction k) simp_all
  with same show ?thesis by blast
qed

theorem reservations_forget_debt_witness:
  "reserve_many (replicate 1000 20) (Timestamp 7) (setLast (Timestamp 7) (Limiter_new 5 30))
   = Inr (replicate 1000 \<lparr>rv_ok = True, rv_tokens = -20, rv_timeToAct = Timestamp 4000007\<rparr>,
       setLast (Timestamp 7) (Limiter_new 5 30))"
proof -
  have r: "rnd (- 20) = -20" "rnd 4 = 4" "rnd 4000000 = 4000000"
    using rnd_int [of "-20"] rnd_int [of 4] rnd_int [of 4000000] by simp_all
  have s: "secondsSinceEpochDouble (Timestamp 4000000) = 4" using seconds_of_int [of 4000000] r by simp
  have t: "trunc (- 20) = -20" "trunc 4000000 = 4000000" using trunc_int [of "-20"] trunc_int [of 4000000] by simp_all
  have "reserveN 20 (Timestamp 7) (Timestamp 7) (setLast (Timestamp 7) (Limiter_new 5 30))
    = Inr (\<lparr>rv_ok = True, rv_tokens = -20, rv_timeToAct = Timestamp 4000007\<rparr>, setLast (Timestamp 7) (Limiter_new 5 30))"
    by (simp add: reserveN_def setLast_def Limiter_new_def Inf_limit_def DBL_MAX_def tokensAt_def advance_def Let_def ts_sub_def
        int64_def in_int64_def r s t durationFromTokens_def kMicroSecondsPerSecond_def cast_int64_def cast_int32_def in_int32_def addTime_def)
  from reservations_forget_debt [OF _ this, of 1000] show ?thesis by (simp add: setLast_def)
qed

text \<open>An event that has its tokens happens now. When the tokens at the time of the call cover
  the \<open>n\<close> events, the reservation is granted for \<open>now\<close>, its delay at any later time is 0, and
  \<open>last\<close> becomes \<open>now\<close>.\<close>

theorem reserve_immediate:
  assumes "lm_limit L \<noteq> Inf_limit" and "tokensAt now2 L = Inr x" and "of_int n \<le> x" and "0 \<le> n"
    and "lm_burst L < 2 ^ 31" and "Timestamp_ok now" and "now \<le> later" and "Timestamp_ok later" and "ts_valid now"
  shows "\<exists>r. reserveN n now now2 L = Inr (r, setLast now L) \<and> rv_ok r \<and> rv_timeToAct r = now \<and> delay later r = Inr (Timestamp 0)"
proof -
  obtain a where "x = (if a > of_int (lm_burst L) then of_int (lm_burst L) else a)"
    using assms(2) by (auto simp: tokensAt_def advance_def Let_def rbind_Inr_iff)
  then have xb: "x \<le> of_int (lm_burst L)" by auto
  then have nb: "n \<le> lm_burst L" using assms(3) by (meson of_int_le_iff order_trans)
  let ?y = "rnd (x - of_int n)"
  have y: "0 \<le> ?y" using assms(3) by (intro fp.round_nonneg) simp
  have "?y \<le> of_int (lm_burst L)" using xb assms(4,5) nb by (intro fp.round_le_int) (simp_all add: le_diff_eq add_increasing2)
  then have "trunc ?y \<le> lm_burst L" using trunc_mono [of ?y "of_int (lm_burst L)"] by simp
  moreover have "0 \<le> trunc ?y" using trunc_mono [OF y] by (simp add: trunc_def)
  ultimately have c: "cast_int32 ?y = Inr (trunc ?y)" using assms(5) by (simp add: cast_int32_def in_int32_def)
  let ?r = "\<lparr>rv_ok = True, rv_tokens = trunc ?y, rv_timeToAct = now\<rparr>"
  have "reserveN n now now2 L = Inr (?r, setLast now L)"
    using assms(1,2) y nb c addTime_0 [OF assms(6)] by (simp add: reserveN_def Let_def)
  moreover have "delay later ?r = Inr (Timestamp 0)"
    using assms(6-9) by (cases now; cases later)
      (auto simp: delay_def ts_sub_def int64_def in_int64_def Timestamp_ok_def ts_valid_def Timestamp_le_iff)
  ultimately show ?thesis by fastforce
qed

theorem reserve_immediate_witness:
  "\<exists>r. reserveN 3 (Timestamp 1000000) (Timestamp 1000000) (Limiter_new 5 10) = Inr (r, setLast (Timestamp 1000000) (Limiter_new 5 10))
     \<and> rv_ok r \<and> delay (Timestamp 1000001) r = Inr (Timestamp 0)"
proof -
  have r: "rnd 1 = 1" "rnd 5 = 5" using rnd_int [of 1] rnd_int [of 5] by simp_all
  then have "secondsSinceEpochDouble (Timestamp 1000000) = 1" using seconds_of_int [of 1000000] by simp
  then have "tokensAt (Timestamp 1000000) (Limiter_new 5 10) = Inr 5"
    by (simp add: tokensAt_def advance_eq elapsed_def in_int64_def Limiter_new_def r)
  moreover have "lm_limit (Limiter_new 5 10) \<noteq> Inf_limit" by (simp add: Limiter_new_def Inf_limit_def DBL_MAX_def)
  ultimately have "tokensAt (Timestamp 1000000) (Limiter_new 5 10) = Inr 5" "lm_limit (Limiter_new 5 10) \<noteq> Inf_limit" by blast+
  from reserve_immediate [OF this(2,1), of 3 "Timestamp 1000000" "Timestamp 1000001"] show ?thesis
    by (auto simp: Limiter_new_def Timestamp_ok_def in_int64_def ts_valid_def Timestamp_le_iff)
qed

text \<open>A wait loses at most one microsecond on its way through doubles. A duration of \<open>d\<close>
  microseconds, given to \<open>addTime\<close> as \<open>reserveN\<close> gives its wait, moves the time by \<open>d\<close> or by
  \<open>d - 1\<close> microseconds; 249 microseconds do lose one.\<close>

theorem duration_loses_at_most_one:
  assumes "0 \<le> d" and "d < 2 ^ 50" and "0 \<le> us" and "us < 2 ^ 62"
  shows "addTime (Timestamp us) (secondsSinceEpochDouble (Timestamp d)) \<in> {Inr (Timestamp (us + d)), Inr (Timestamp (us + d - 1))}"
proof -
  have s: "secondsSinceEpochDouble (Timestamp d) = rnd (of_int d / 1000000)" using assms(1,2) by (intro seconds_of_int) simp
  from duration_error [OF assms(1,2)]
  have "trunc (rnd (secondsSinceEpochDouble (Timestamp d) * 1000000)) \<in> {d - 1, d}" by (simp add: s)
  then show ?thesis using assms
    by (auto simp: addTime_def kMicroSecondsPerSecond_def cast_int64_def int64_def in_int64_def)
qed

theorem duration_loses_at_most_one_witness:
  "addTime (Timestamp 0) (secondsSinceEpochDouble (Timestamp 249)) \<in> {Inr (Timestamp 249), Inr (Timestamp 248)}
   \<and> addTime (Timestamp 0) (secondsSinceEpochDouble (Timestamp 249)) = Inr (Timestamp 248)"
proof
  show "addTime (Timestamp 0) (secondsSinceEpochDouble (Timestamp 249)) \<in> {Inr (Timestamp 249), Inr (Timestamp 248)}"
    using duration_loses_at_most_one [of 249 0] by simp
  have "rnd (249 / 1000000) = of_int 4593239274353678 * 2 powi (-12 - 52)"
    by (rule rnd_eqI) (simp_all add: power_int_minus abs_less_iff)
  then have s: "secondsSinceEpochDouble (Timestamp 249) = of_int 4593239274353678 * 2 powi (-12 - 52)" using seconds_of_int [of 249] by simp
  have "rnd (secondsSinceEpochDouble (Timestamp 249) * 1000000) = of_int 8760908650119167 * 2 powi (7 - 52)"
    unfolding s by (rule rnd_eqI) (simp_all add: power_int_minus abs_less_iff)
  then show "addTime (Timestamp 0) (secondsSinceEpochDouble (Timestamp 249)) = Inr (Timestamp 248)"
    by (simp add: addTime_def kMicroSecondsPerSecond_def cast_int64_def trunc_def in_int64_def int64_def power_int_minus floor_eq_iff)
qed

end
