(* ===== verification/Endpoints.thy ===== *)
theory Endpoints
  imports Formats "HOL-Library.Word"
begin

unbundle bit_operations_syntax

text \<open>
  \<open>Endpoint\<close> (winterfell/net/wf_endpoint.h, wf_endpoint.cc), the address handling of the socket
  wrappers (wf_sockets_ops.cc) and the ownership of a descriptor by \<open>Socket\<close> (wf_socket.h,
  wf_socket.cc). An address is a \<open>sockaddr_in\<close>, whose 16 bytes matter where the system writes only
  some of them. The machine is little-endian. \<open>inet_pton\<close> and \<open>inet_ntoa\<close> are those of the C library:
  four decimal numbers below 256 without leading zeros, separated by dots.
\<close>

section \<open>Addresses\<close>

record sockaddr_in =
  sin_family :: "16 word"
  sin_port :: "16 word"
  s_addr :: "32 word"
  sin_zero :: "8 word list"

definition AF_INET :: "16 word" where "AF_INET = 2"
definition INADDR_ANY :: "32 word" where "INADDR_ANY = 0"

definition zero_addr :: sockaddr_in where
  "zero_addr = \<lparr>sin_family = 0, sin_port = 0, s_addr = 0, sin_zero = replicate 8 0\<rparr>"

definition byte_of :: "nat \<Rightarrow> nat \<Rightarrow> nat" where
  "byte_of i n = n div 256 ^ i mod 256"

text \<open>\<open>htobe16\<close>, \<open>htons\<close> and \<open>htobe32\<close> on a little-endian machine.\<close>

definition bswap16 :: "16 word \<Rightarrow> 16 word" where
  "bswap16 w = word_of_nat (byte_of 0 (unat w) * 256 + byte_of 1 (unat w))"

definition bswap32 :: "32 word \<Rightarrow> 32 word" where
  "bswap32 w = word_of_nat (byte_of 0 (unat w) * 256 ^ 3 + byte_of 1 (unat w) * 256 ^ 2 + byte_of 2 (unat w) * 256 + byte_of 3 (unat w))"

section \<open>Dotted addresses\<close>

fun split_at_char :: "char \<Rightarrow> char list \<Rightarrow> char list list" where
  "split_at_char c [] = [[]]"
| "split_at_char c (x # xs) =
     (if x = c then [] # split_at_char c xs
      else case split_at_char c xs of p # ps \<Rightarrow> (x # p) # ps | [] \<Rightarrow> [[x]])"

definition dotted_part :: "char list \<Rightarrow> nat option" where
  "dotted_part p =
     (if p \<noteq> [] \<and> list_all is_digit p \<and> undec p < 256 \<and> dec (undec p) = p then Some (undec p) else None)"

definition inet_pton :: "char list \<Rightarrow> 32 word option" where
  "inet_pton ip =
     (case List.map dotted_part (split_at_char (CHR ''.'') ip) of
        [Some a, Some b, Some c, Some d] \<Rightarrow> Some (word_of_nat (a + 256 * b + 256 ^ 2 * c + 256 ^ 3 * d))
      | _ \<Rightarrow> None)"

definition inet_ntoa :: "32 word \<Rightarrow> char list" where
  "inet_ntoa w =
     (let n = unat w in
      dec (byte_of 0 n) @ ''.'' @ dec (byte_of 1 n) @ ''.'' @ dec (byte_of 2 n) @ ''.'' @ dec (byte_of 3 n))"

section \<open>\<open>Endpoint\<close>\<close>

definition Endpoint_port :: "16 word \<Rightarrow> sockaddr_in" where
  "Endpoint_port port = zero_addr\<lparr>sin_family := AF_INET, s_addr := bswap32 INADDR_ANY, sin_port := bswap16 port\<rparr>"

text \<open>When the text is not an address, an error is logged and the address stays zero.\<close>

definition Endpoint_ip :: "char list \<Rightarrow> 16 word \<Rightarrow> sockaddr_in" where
  "Endpoint_ip ip port =
     (let addr = zero_addr\<lparr>sin_family := AF_INET, sin_port := bswap16 port\<rparr>
      in case inet_pton ip of Some a \<Rightarrow> addr\<lparr>s_addr := a\<rparr> | None \<Rightarrow> addr)"

definition getIp :: "sockaddr_in \<Rightarrow> char list" where
  "getIp e = inet_ntoa (s_addr e)"

definition getPort :: "sockaddr_in \<Rightarrow> 16 word" where
  "getPort e = bswap16 (sin_port e)"

definition getIpPort :: "sockaddr_in \<Rightarrow> char list" where
  "getIpPort e = getIp e @ '':'' @ dec (unat (bswap16 (sin_port e)))"

section \<open>Sockets\<close>

text \<open>The bytes of an address in memory.\<close>

definition addr_bytes :: "sockaddr_in \<Rightarrow> 8 word list" where
  "addr_bytes a =
     List.map word_of_nat
       [byte_of 0 (unat (sin_family a)), byte_of 1 (unat (sin_family a)),
        byte_of 0 (unat (sin_port a)), byte_of 1 (unat (sin_port a)),
        byte_of 0 (unat (s_addr a)), byte_of 1 (unat (s_addr a)), byte_of 2 (unat (s_addr a)), byte_of 3 (unat (s_addr a))]
     @ sin_zero a"

definition addr_of_bytes :: "8 word list \<Rightarrow> sockaddr_in" where
  "addr_of_bytes bs =
     \<lparr>sin_family = word_of_nat (unat (bs ! 0) + 256 * unat (bs ! 1)),
      sin_port = word_of_nat (unat (bs ! 2) + 256 * unat (bs ! 3)),
      s_addr = word_of_nat (unat (bs ! 4) + 256 * unat (bs ! 5) + 256 ^ 2 * unat (bs ! 6) + 256 ^ 3 * unat (bs ! 7)),
      sin_zero = drop 8 bs\<rparr>"

text \<open>\<open>accept\<close> gives the size of a pointer as the size of the address, so the system writes the
  first 8 bytes of \<open>peer\<close> over what the caller's variable held.\<close>

definition sizeof_pointer :: nat where
  "sizeof_pointer = 8"

definition sockets_accept :: "int \<Rightarrow> sockaddr_in \<Rightarrow> sockaddr_in \<Rightarrow> int \<times> sockaddr_in" where
  "sockets_accept connfd peer addr =
     (connfd, if connfd < 0 then addr
              else addr_of_bytes (take sizeof_pointer (addr_bytes peer) @ drop sizeof_pointer (addr_bytes addr)))"

text \<open>The wrappers that abort when the system call fails.\<close>

definition createNonblocking :: "int \<Rightarrow> int res" where
  "createNonblocking sockfd = (if sockfd < 0 then Inl Aborted else Inr sockfd)"

definition sockets_bind :: "int \<Rightarrow> unit res" where
  "sockets_bind ret = (if ret < 0 then Inl Aborted else Inr ())"

definition sockets_listen :: "int \<Rightarrow> unit res" where
  "sockets_listen ret = (if ret < 0 then Inl Aborted else Inr ())"

definition getSocketError :: "int \<Rightarrow> int \<Rightarrow> int \<Rightarrow> int" where
  "getSocketError ret err optval = (if ret \<noteq> 0 then err else optval)"

text \<open>A socket object owns its descriptor until it is moved from; the destructor closes what is owned.\<close>

type_synonym Socket = "int option"

definition Socket_new :: "int \<Rightarrow> Socket" where
  "Socket_new sockfd = Some sockfd"

definition Socket_fd :: "Socket \<Rightarrow> int res" where
  "Socket_fd s = (case s of None \<Rightarrow> Inl NullDeref | Some fd \<Rightarrow> Inr fd)"

definition Socket_move :: "Socket \<Rightarrow> (Socket \<times> Socket) res" where
  "Socket_move s = rbind (Socket_fd s) (\<lambda>fd. Inr (Socket_new fd, None))"

definition Socket_destroy :: "Socket \<Rightarrow> int list" where
  "Socket_destroy s = (case s of None \<Rightarrow> [] | Some fd \<Rightarrow> [fd])"

definition Socket_accept :: "int \<Rightarrow> sockaddr_in \<Rightarrow> sockaddr_in \<Rightarrow> int \<times> sockaddr_in" where
  "Socket_accept connfd peer garbage = sockets_accept connfd peer garbage"

section \<open>Facts\<close>

lemma byte_of_less [simp]: "byte_of i n < 256"
  by (simp add: byte_of_def)

lemma unat_of_small16: "n < 2 ^ 16 \<Longrightarrow> unat (word_of_nat n :: 16 word) = n"
  by (simp add: unat_of_nat take_bit_eq_mod)

lemma unat_of_small32: "n < 2 ^ 32 \<Longrightarrow> unat (word_of_nat n :: 32 word) = n"
  by (simp add: unat_of_nat take_bit_eq_mod)

lemma bytes16: "n < 2 ^ 16 \<Longrightarrow> byte_of 0 n + 256 * byte_of 1 n = n"
  unfolding byte_of_def by simp

lemma bytes32:
  assumes "n < 2 ^ 32"
  shows "byte_of 0 n + 256 * byte_of 1 n + 256 ^ 2 * byte_of 2 n + 256 ^ 3 * byte_of 3 n = n"
proof -
  define a b c where "a = n div 256" and "b = a div 256" and "c = b div 256"
  have c: "c < 256" using assms unfolding a_def b_def c_def by (simp add: div_mult2_eq [symmetric] less_mult_imp_div_less)
  have n: "n = 256 * a + n mod 256" "a = 256 * b + a mod 256" "b = 256 * c + b mod 256"
    unfolding a_def b_def c_def by simp_all
  have e: "byte_of 0 n = n mod 256" "byte_of 1 n = a mod 256" "byte_of 2 n = b mod 256" "byte_of 3 n = c"
    using c by (simp_all add: byte_of_def a_def b_def c_def div_mult2_eq [symmetric])
  have p: "256 ^ 2 = (65536 :: nat)" "256 ^ 3 = (16777216 :: nat)" by simp_all
  show ?thesis unfolding e p using n by linarith
qed

lemma unat_bswap16: "unat (bswap16 w) = byte_of 0 (unat w) * 256 + byte_of 1 (unat w)"
  unfolding bswap16_def
proof (rule unat_of_small16)
  have "x < 256 \<Longrightarrow> y < 256 \<Longrightarrow> x * 256 + y < 2 ^ 16" for x y :: nat by simp
  then show "byte_of 0 (unat w) * 256 + byte_of 1 (unat w) < 2 ^ 16" by (meson byte_of_less)
qed

lemma unat_less16: "unat (v :: 16 word) < 2 ^ 16"
  using unsigned_less [of v, where ?'a = nat] by simp

lemma unat_less32: "unat (v :: 32 word) < 2 ^ 32"
  using unsigned_less [of v, where ?'a = nat] by simp

lemma bswap16_twice [simp]: "bswap16 (bswap16 w) = w"
proof -
  have "byte_of 0 (unat (bswap16 w)) = byte_of 1 (unat w)" "byte_of 1 (unat (bswap16 w)) = byte_of 0 (unat w)"
    unfolding unat_bswap16 by (simp_all add: byte_of_def)
  then have "bswap16 (bswap16 w) = word_of_nat (byte_of 1 (unat w) * 256 + byte_of 0 (unat w))"
    by (simp only: bswap16_def [of "bswap16 w"])
  also have "byte_of 1 (unat w) * 256 + byte_of 0 (unat w) = unat w"
    using bytes16 [of "unat w"] unsigned_less [of w] by (simp add: ac_simps)
  finally show ?thesis by simp
qed

text \<open>What a split text was before it was split.\<close>

lemma split_at_char_join:
  "c \<notin> set p \<Longrightarrow> split_at_char c (p @ c # xs) = p # split_at_char c xs"
  by (induction p) auto

lemma split_at_char_none: "c \<notin> set p \<Longrightarrow> split_at_char c p = [p]"
  by (induction p) auto

lemma dec_list_all_digits [simp]: "list_all is_digit (dec n)"
  using dec_digits by (auto simp: list_all_iff)

lemma dot_notin_dec [simp]: "CHR ''.'' \<notin> set (dec n)"
proof
  assume "CHR ''.'' \<in> set (dec n)"
  then have "is_digit (CHR ''.'')" by (rule dec_digits)
  then show False by (simp add: is_digit_def)
qed

lemma dotted_part_dec [simp]: "dotted_part (dec n) = (if n < 256 then Some n else None)"
  by (simp add: dotted_part_def)

definition dotted :: "nat \<Rightarrow> nat \<Rightarrow> nat \<Rightarrow> nat \<Rightarrow> char list" where
  "dotted a b c d = dec a @ ''.'' @ dec b @ ''.'' @ dec c @ ''.'' @ dec d"

lemma split_dotted: "split_at_char (CHR ''.'') (dotted a b c d) = [dec a, dec b, dec c, dec d]"
  by (simp add: dotted_def split_at_char_join split_at_char_none)

lemma bytes_of_sum:
  assumes "a < 256" "b < 256" "c < 256" "d < 256"
  defines "n \<equiv> a + 256 * b + 256 ^ 2 * c + 256 ^ 3 * d"
  shows "n < 2 ^ 32" "byte_of 0 n = a" "byte_of 1 n = b" "byte_of 2 n = c" "byte_of 3 n = d"
proof -
  have n: "n = a + 256 * (b + 256 * (c + 256 * d))" by (simp add: n_def)
  show "n < 2 ^ 32" using assms by simp
  have 1: "n div 256 = b + 256 * (c + 256 * d)" using assms(1) unfolding n by simp
  have 2: "n div 256 ^ 2 = c + 256 * d"
  proof -
    have "n div 256 ^ 2 = n div 256 div 256" by (simp add: div_mult2_eq [symmetric])
    then show ?thesis unfolding 1 using assms(2) by simp
  qed
  have 3: "n div 256 ^ 3 = d"
  proof -
    have "n div 256 ^ 3 = n div 256 ^ 2 div 256" by (simp add: div_mult2_eq [symmetric])
    then show ?thesis unfolding 2 using assms(3) by simp
  qed
  have "n mod 256 = a" using assms(1) unfolding n by (simp del: distrib_left_numeral)
  then show "byte_of 0 n = a" by (simp add: byte_of_def)
  have "n div 256 mod 256 = b" using assms(2) unfolding 1 by (simp del: distrib_left_numeral)
  then show "byte_of 1 n = b" by (simp add: byte_of_def)
  have "n div 256 ^ 2 mod 256 = c" using assms(3) unfolding 2 by (simp del: distrib_left_numeral)
  then show "byte_of 2 n = c" by (simp add: byte_of_def)
  show "byte_of 3 n = d" using 3 assms(4) by (simp add: byte_of_def)
qed

lemma inet_pton_dotted:
  "a < 256 \<Longrightarrow> b < 256 \<Longrightarrow> c < 256 \<Longrightarrow> d < 256 \<Longrightarrow>
     inet_pton (dotted a b c d) = Some (word_of_nat (a + 256 * b + 256 ^ 2 * c + 256 ^ 3 * d))"
  by (simp add: inet_pton_def split_dotted)

lemma inet_ntoa_sum:
  assumes "a < 256" "b < 256" "c < 256" "d < 256"
  shows "inet_ntoa (word_of_nat (a + 256 * b + 256 ^ 2 * c + 256 ^ 3 * d)) = dotted a b c d"
proof -
  let ?n = "a + 256 * b + 256 ^ 2 * c + 256 ^ 3 * d"
  have "unat (word_of_nat ?n :: 32 word) = ?n"
    by (rule unat_of_small32) (rule bytes_of_sum(1) [OF assms])
  then show ?thesis
    using bytes_of_sum(2-5) [OF assms] unfolding inet_ntoa_def dotted_def Let_def by simp
qed

text \<open>What the descriptor is worth after a chain of moves: the objects made on the way own nothing.\<close>

fun move_chain :: "nat \<Rightarrow> Socket \<Rightarrow> Socket list res" where
  "move_chain 0 s = Inr [s]"
| "move_chain (Suc n) s =
     rbind (Socket_move s) (\<lambda>(new, old). rbind (move_chain n new) (\<lambda>rest. Inr (old # rest)))"

lemma move_chain_owned: "move_chain n (Some fd) = Inr (replicate n None @ [Some fd])"
  by (induction n) (simp_all add: Socket_move_def Socket_fd_def Socket_new_def)

lemma addr_bytes_eight:
  "take 8 (addr_bytes a) = List.map word_of_nat
     [byte_of 0 (unat (sin_family a)), byte_of 1 (unat (sin_family a)),
      byte_of 0 (unat (sin_port a)), byte_of 1 (unat (sin_port a)),
      byte_of 0 (unat (s_addr a)), byte_of 1 (unat (s_addr a)), byte_of 2 (unat (s_addr a)), byte_of 3 (unat (s_addr a))]"
  "drop 8 (addr_bytes a) = sin_zero a"
  by (simp_all add: addr_bytes_def)

lemma unat_byte [simp]: "unat (word_of_nat (byte_of i n) :: 8 word) = byte_of i n"
  by (simp add: unat_of_nat take_bit_eq_mod)

section \<open>Properties\<close>

lemma digit_zero: "digit 0 = CHR ''0''"
  by code_simp

text \<open>C35: The text an address prints is the one it was made from: an endpoint made from four numbers
  below 256 and a port gives back the dotted text as its ip, the port as its port, and the two
  with a colon between them.\<close>

theorem endpoint_roundtrip:
  assumes "a < 256" "b < 256" "c < 256" "d < 256"
  shows "getIp (Endpoint_ip (dotted a b c d) port) = dotted a b c d
    \<and> getPort (Endpoint_ip (dotted a b c d) port) = port
    \<and> getIpPort (Endpoint_ip (dotted a b c d) port) = dotted a b c d @ '':'' @ dec (unat port)"
proof -
  let ?e = "Endpoint_ip (dotted a b c d) port"
  have "?e = zero_addr\<lparr>sin_family := AF_INET, sin_port := bswap16 port,
      s_addr := word_of_nat (a + 256 * b + 256 ^ 2 * c + 256 ^ 3 * d)\<rparr>"
    by (simp only: Endpoint_ip_def Let_def inet_pton_dotted [OF assms] option.case)
  then have "s_addr ?e = word_of_nat (a + 256 * b + 256 ^ 2 * c + 256 ^ 3 * d)" "sin_port ?e = bswap16 port"
    by simp_all
  then show ?thesis
    by (simp only: getIp_def getPort_def getIpPort_def inet_ntoa_sum [OF assms] bswap16_twice simp_thms)
qed

theorem endpoint_roundtrip_witness:
  "getIpPort (Endpoint_ip (dotted 192 168 0 1) 8080) = dotted 192 168 0 1 @ '':'' @ dec (unat (8080 :: 16 word))"
  using endpoint_roundtrip [of 192 168 0 1 8080] by simp

text \<open>A text that is not four dotted numbers, such as the name of a host, is not refused: the
  endpoint then stands for the address 0.0.0.0 with the given port, which is the address the other
  constructor gives for every interface.\<close>

theorem endpoint_bad_ip:
  "inet_pton ip = None \<Longrightarrow>
     getIp (Endpoint_ip ip port) = ''0.0.0.0'' \<and> Endpoint_ip ip port = Endpoint_port port"
  by (simp add: Endpoint_ip_def Endpoint_port_def getIp_def inet_ntoa_def zero_addr_def bswap32_def
      INADDR_ANY_def byte_of_def dec_small digit_zero Let_def)

theorem endpoint_bad_ip_witness:
  "Endpoint_ip ''localhost'' 9981 = Endpoint_port 9981"
proof -
  have "inet_pton ''localhost'' = None" by (simp add: inet_pton_def dotted_part_def is_digit_def)
  from endpoint_bad_ip [OF this] show ?thesis by simp
qed

text \<open>The wrong size \<open>accept\<close> passes (that of a pointer, 8, where an address has 16 bytes) is
  harmless: the family, the port and the address of the peer arrive, only the unused bytes keep what
  the caller's variable held.\<close>

theorem accept_address_complete:
  "0 \<le> connfd \<Longrightarrow>
     snd (Socket_accept connfd peer garbage)
       = garbage\<lparr>sin_family := sin_family peer, sin_port := sin_port peer, s_addr := s_addr peer\<rparr>"
proof -
  have v: "word_of_nat (byte_of 0 (unat v) + 256 * byte_of 1 (unat v)) = v" for v :: "16 word"
    by (simp only: bytes16 [OF unat_less16] of_nat_unat ucast_id)
  have w: "word_of_nat (byte_of 0 (unat u) + 256 * byte_of 1 (unat u) + 256 ^ 2 * byte_of 2 (unat u)
      + 256 ^ 3 * byte_of 3 (unat u)) = u" for u :: "32 word"
    by (simp only: bytes32 [OF unat_less32] of_nat_unat ucast_id)
  assume "0 \<le> connfd"
  then have "snd (Socket_accept connfd peer garbage)
      = addr_of_bytes (take 8 (addr_bytes peer) @ drop 8 (addr_bytes garbage))"
    by (simp add: Socket_accept_def sockets_accept_def sizeof_pointer_def)
  also have "... = \<lparr>sin_family = sin_family peer, sin_port = sin_port peer, s_addr = s_addr peer,
      sin_zero = sin_zero garbage\<rparr>"
    unfolding addr_bytes_eight addr_of_bytes_def
    by (simp add: v [simplified] w [simplified])
  finally show ?thesis by simp
qed

theorem accept_address_complete_witness:
  "s_addr (snd (Socket_accept 7 (Endpoint_ip (dotted 10 0 0 1) 80) zero_addr)) = s_addr (Endpoint_ip (dotted 10 0 0 1) 80)"
  using accept_address_complete [of 7 "Endpoint_ip (dotted 10 0 0 1) 80" zero_addr] by simp

text \<open>However often a socket is moved, its descriptor is closed exactly once, by the last owner.\<close>

theorem socket_closed_once:
  "\<exists>ss. move_chain n (Socket_new fd) = Inr ss \<and> concat (List.map Socket_destroy ss) = [fd]
     \<and> (\<forall>i < n. Socket_destroy (ss ! i) = [])"
  by (simp add: Socket_new_def move_chain_owned Socket_destroy_def nth_append)

end
