(* ===== verification/Applications.thy ===== *)
theory Applications
  imports HttpServers TcpConnections RateLimiters Endpoints
begin

text \<open>
  The programs of the repository that are built on the library: the file server (example/ftp/ftp_server.cc),
  the echo server (example/echo/server.cc) and the rate-limited echo server (example/echo_rate/server.cc).
  The directory, the file system and the clock are inputs.
\<close>

section \<open>The file server\<close>

text \<open>What \<open>readdir\<close> gives, with the result of \<open>stat\<close> on each entry: it failed, or the entry is or is not a
  regular file. \<open>None\<close> is a directory that cannot be opened, whose null pointer \<open>readdir\<close> reads.\<close>

type_synonym directory = "(char list \<times> bool option) list"

definition listed :: "char list \<times> bool option \<Rightarrow> bool" where
  "listed e \<longleftrightarrow> fst e \<noteq> ''.'' \<and> fst e \<noteq> ''..'' \<and> snd e = Some True"

definition join_lines :: "char list list \<Rightarrow> char list" where
  "join_lines files = foldl (\<lambda>a b. if a = [] then b else a @ [CHR 0x0A] @ b) [] files"

definition list_files :: "directory option \<Rightarrow> char list res" where
  "list_files dir =
     (case dir of None \<Rightarrow> Inl NullDeref | Some entries \<Rightarrow> Inr (join_lines (List.map fst (filter listed entries))))"

text \<open>\<open>std::stoi\<close>: blanks, a sign, digits; without digits it throws, and when the value does not fit.\<close>

definition stoi :: "char list \<Rightarrow> int res" where
  "stoi s =
     (let t = skip_space s;
          (neg, u) = (if t \<noteq> [] \<and> hd t = CHR ''-'' then (True, tl t) else if t \<noteq> [] \<and> hd t = CHR ''+'' then (False, tl t) else (False, t));
          ds = takeWhile is_digit u;
          v = (if neg then - int (undec ds) else int (undec ds))
      in if ds = [] then Inl InvalidArgument else if in_int32 v then Inr v else Inl OutOfRange)"

text \<open>
  \<open>getline(ss, str, delim)\<close>: the text up to the delimiter, and what is left, \<open>None\<close> when the stream has
  reached its end; then it leaves the string as it is.
\<close>

definition getline :: "char \<Rightarrow> char list \<Rightarrow> char list option \<Rightarrow> char list \<times> char list option" where
  "getline delim str s =
     (case s of
        None \<Rightarrow> (str, None)
      | Some cs \<Rightarrow>
          if delim \<in> set cs then (takeWhile (\<lambda>c. c \<noteq> delim) cs, Some (tl (dropWhile (\<lambda>c. c \<noteq> delim) cs)))
          else (cs, None))"

definition parse_range :: "char list \<Rightarrow> (int \<times> int) res" where
  "parse_range rng =
     (let (sub_str, ss) = getline (CHR ''-'') [] (Some rng) in
      rbind (stoi sub_str) (\<lambda>beg.
      let (sub_str, ss) = getline (CHR 0x0A) sub_str ss in
      rbind (stoi sub_str) (\<lambda>fin. Inr (beg, fin))))"

text \<open>\<open>buf\<close> is an array of \<open>end - beg + 1\<close> characters; \<open>file\<close> is what \<open>read\<close> put into it, no more than that.
  Then the terminating NUL is stored, and the body is the text up to the first NUL.\<close>

definition ftp_read_range :: "char list \<Rightarrow> int \<Rightarrow> int \<Rightarrow> char list res" where
  "ftp_read_range file beg fin =
     rbind (int32 (fin - beg)) (\<lambda>d.
     rbind (int32 (d + 1)) (\<lambda>n.
     if n < 0 then Inl LengthError
     else
       let buf = take (nat n) file @ replicate (nat n - length file) (CHR 0x00) in
       rbind (copy_in buf n [CHR 0x00]) (\<lambda>buf. Inr (takeWhile (\<lambda>c. c \<noteq> CHR 0x00) buf))))"

definition ftp_onRequest ::
  "directory option \<Rightarrow> (char list \<Rightarrow> int \<Rightarrow> char list) \<Rightarrow> HttpRequest \<Rightarrow> HttpResponse \<Rightarrow> HttpResponse res" where
  "ftp_onRequest dir files req resp =
     (if req_query req = ''?ls'' then
        let resp = addResponseHeader ''server'' ''ftp'' (setContentType ''text/plain'' (setStatusMessage ''OK'' (setStatusCode k200ok resp)))
        in rbind (list_files dir) (\<lambda>listfiles. Inr (setBody listfiles resp))
      else if req_query req = ''?get'' then
        let filename = getHeader ''filename'' req;
            resp = addResponseHeader ''server'' ''ftp'' (setContentType ''application/octet-stream'' (setStatusCode k206PartialContent resp))
        in rbind (parse_range (getHeader ''Range'' req)) (\<lambda>(beg, fin).
           rbind (ftp_read_range (files filename beg) beg fin) (\<lambda>body. Inr (setBody body resp)))
      else Inr (setCloseConnection True (setStatusMessage ''Not Found'' (setStatusCode k404NotFound resp))))"

section \<open>The echo servers\<close>

definition echo_onConnect :: "TcpConnection \<Rightarrow> TcpConnection res" where
  "echo_onConnect c = (if tc_connected c then Inr c else Inl Aborted)"

definition echo_onMessage :: "write_result \<Rightarrow> TcpConnection \<Rightarrow> TcpConnection res" where
  "echo_onMessage w c =
     rassert (tc_connected c)
       (rbind (retrieveAllAsString (tc_input c)) (\<lambda>(msg, buf). tc_send True msg w (c\<lparr>tc_input := buf\<rparr>)))"

text \<open>The server sleeps when the reservation is for later; the four times are the clock's readings: two
  in \<open>reserve\<close>, one in the test of \<open>delay\<close>, and further ones when it prints and sleeps.\<close>

definition echo_rate_onMessage ::
  "Timestamp \<Rightarrow> Timestamp \<Rightarrow> Timestamp \<Rightarrow> Timestamp \<Rightarrow> Timestamp \<Rightarrow> write_result \<Rightarrow> Limiter \<Rightarrow> TcpConnection
    \<Rightarrow> (Limiter \<times> int option \<times> TcpConnection) res" where
  "echo_rate_onMessage now now2 t1 t2 t3 w L c =
     rbind (reserve now now2 L) (\<lambda>(r, L).
       if \<not> rv_ok r then Inr (L, None, c)
       else
         rbind (delay t1 r) (\<lambda>d.
         rbind (if microSecondsSinceEpoch d > 0
                then rbind (delay t2 r) (\<lambda>_. rbind (delay t3 r) (\<lambda>d3. Inr (Some (microSecondsSinceEpoch d3 mod 2 ^ 32))))
                else Inr None) (\<lambda>slept.
         rbind (echo_onMessage w c) (\<lambda>c. Inr (L, slept, c)))))"

section \<open>Facts\<close>

lemma join_lines_snoc: "join_lines (fs @ [f]) = (if join_lines fs = [] then f else join_lines fs @ [CHR 0x0A] @ f)"
  by (simp add: join_lines_def)

lemma join_lines_empty: "(\<forall>f \<in> set fs. f \<noteq> []) \<Longrightarrow> join_lines fs = [] \<longleftrightarrow> fs = []"
  by (induction fs rule: rev_induct) (auto simp: join_lines_snoc join_lines_def)

lemma split_at_char_ne: "split_at_char c xs \<noteq> []"
  by (cases xs) (auto split: list.splits)

lemma split_at_char_snoc:
  "c \<notin> set f \<Longrightarrow> split_at_char c (xs @ [c] @ f) = split_at_char c xs @ [f]"
  by (induction xs) (auto simp: split_at_char_none split_at_char_ne split: list.splits)

lemma split_join_lines:
  "fs \<noteq> [] \<Longrightarrow> \<forall>f \<in> set fs. f \<noteq> [] \<and> CHR 0x0A \<notin> set f \<Longrightarrow> split_at_char (CHR 0x0A) (join_lines fs) = fs"
proof (induction fs rule: rev_induct)
  case (snoc f fs)
  show ?case
  proof (cases "fs = []")
    case True
    then show ?thesis using snoc.prems by (simp add: join_lines_def split_at_char_none)
  next
    case False
    then have "join_lines fs \<noteq> []" using join_lines_empty [of fs] snoc.prems by auto
    then show ?thesis using snoc False split_at_char_snoc [of "CHR 0x0A" f "join_lines fs"] by (simp add: join_lines_snoc)
  qed
qed simp

text \<open>Storing one character past the end of the array.\<close>

lemma ftp_read_range_fault: "\<exists>flt. ftp_read_range file beg fin = Inl flt"
proof (cases "in_int32 (fin - beg) \<and> in_int32 (fin - beg + 1) \<and> 0 \<le> fin - beg + 1")
  case True
  let ?n = "fin - beg + 1"
  have "length (take (nat ?n) file @ replicate (nat ?n - length file) (CHR 0x00)) = nat ?n" by simp
  then have "copy_in (take (nat ?n) file @ replicate (nat ?n - length file) (CHR 0x00)) ?n [CHR 0x00] = Inl OutOfBounds"
    using True by (simp add: copy_in_def)
  then show ?thesis using True by (simp add: ftp_read_range_def int32_def Let_def)
qed (auto simp: ftp_read_range_def int32_def)

text \<open>One echo: a read, its message handled, the whole of it written.\<close>

definition echo_ready :: "TcpConnection \<Rightarrow> bool" where
  "echo_ready c \<longleftrightarrow> tc_state c = kConnected \<and> \<not> tc_isWriting c \<and> \<not> tc_fin c \<and> Buffer_inv (tc_input c) \<and> Buffer_inv (tc_output c)
     \<and> contents (tc_input c) = [] \<and> contents (tc_output c) = []"

definition echo_read :: "char list \<Rightarrow> write_result \<Rightarrow> TcpConnection \<Rightarrow> TcpConnection res" where
  "echo_read bytes w c =
     rbind (readFd (ReadvBytes bytes) (tc_input c)) (\<lambda>(n, err, inp). echo_onMessage w (c\<lparr>tc_input := inp\<rparr>))"

fun echo_reads :: "(char list \<times> nat) list \<Rightarrow> TcpConnection \<Rightarrow> TcpConnection res" where
  "echo_reads [] c = Inr c"
| "echo_reads ((bytes, n) # rs) c = rbind (echo_read bytes (Wrote n) c) (echo_reads rs)"

lemma echo_one:
  assumes e: "echo_ready c" and n: "length bytes \<le> n"
  shows "\<exists>c'. echo_read bytes (Wrote n) c = Inr c' \<and> echo_ready c' \<and> tc_sent c' = tc_sent c @ bytes"
proof -
  obtain b where b: "readFd (ReadvBytes bytes) (tc_input c) = Inr (int (length bytes), None, b)" "Buffer_inv b" "contents b = bytes"
    using readFd_ok [of "tc_input c" bytes] e by (auto simp: echo_ready_def)
  have a: "retrieveAllAsString b = Inr (bytes, retrieveAll b)" using retrieveAllAsString_ok [OF b(2)] b(3) by simp
  have r: "Buffer_inv (retrieveAll b)" "contents (retrieveAll b) = []"
    using b(2) by (simp_all add: Buffer_inv_retrieveAll contents_retrieveAll)
  let ?c = "c\<lparr>tc_input := retrieveAll b\<rparr>"
  let ?d = "?c\<lparr>tc_sent := tc_sent c @ bytes, tc_accepted := tc_accepted c @ [bytes]\<rparr>"
  have z: "readableBytes (tc_output c) = 0" using e readable_zero by (auto simp: echo_ready_def)
  have "echo_read bytes (Wrote n) c = Inr (if tc_hasWriteComplete c then tc_queue WriteComplete ?d else ?d)"
    using e n a b(1) z
    by (simp add: echo_read_def echo_onMessage_def echo_ready_def tc_connected_def tc_send_def sendInLoop_def sys_write_def min_def Let_def)
  moreover have "echo_ready ?d" using e r by (simp add: echo_ready_def)
  then have "echo_ready (if tc_hasWriteComplete c then tc_queue WriteComplete ?d else ?d)"
    by (simp add: echo_ready_def tc_queue_def)
  ultimately show ?thesis by (auto simp: tc_queue_def)
qed

section \<open>Properties\<close>

text \<open>C40: The file server never answers a \<open>?get\<close> request: whatever the range, the file and the response,
  the handler ends in a fault, because the array has no room for the terminating NUL it stores after
  the bytes it has read (or because the range does not parse or is not a size).\<close>

theorem ftp_get_never_answers:
  assumes "req_query req = ''?get''"
  shows "\<exists>flt. ftp_onRequest dir files req resp = Inl flt"
proof (cases "parse_range (getHeader ''Range'' req)")
  case (Inr r)
  obtain beg fin where "r = (beg, fin)" by (cases r)
  then show ?thesis using Inr assms ftp_read_range_fault [of "files (getHeader ''filename'' req) beg" beg fin]
    by (auto simp: ftp_onRequest_def Let_def)
qed (use assms in \<open>simp add: ftp_onRequest_def Let_def\<close>)

theorem ftp_get_never_answers_witness:
  "\<exists>flt. ftp_onRequest (Some []) (\<lambda>name beg. ''abc'')
     (HttpRequest_new\<lparr>req_query := ''?get'', req_headers := [(''Range'', ''0-2'')]\<rparr>) (HttpResponse_new False) = Inl flt"
  by (rule ftp_get_never_answers) simp

text \<open>The listing is the directory: the answer to \<open>?ls\<close> is a 200 whose body, split into lines, is the
  regular files in the order of the directory, without the entries \<open>stat\<close> failed on. (No name is empty
  or has a line break, and there is at least one file.)\<close>

theorem ftp_ls_lists:
  assumes "req_query req = ''?ls''" and "filter listed entries \<noteq> []"
    and "\<forall>e \<in> set entries. fst e \<noteq> [] \<and> CHR 0x0A \<notin> set (fst e)"
  shows "\<exists>r. ftp_onRequest (Some entries) files req resp = Inr r \<and> rs_statusCode r = k200ok
    \<and> split_at_char (CHR 0x0A) (rs_body r) = List.map fst (filter listed entries)"
proof -
  have "split_at_char (CHR 0x0A) (join_lines (List.map fst (filter listed entries))) = List.map fst (filter listed entries)"
    by (rule split_join_lines) (use assms(2,3) in auto)
  then show ?thesis using assms(1)
    by (simp add: ftp_onRequest_def list_files_def Let_def setBody_def addResponseHeader_def setContentType_def setStatusMessage_def
        setStatusCode_def)
qed

theorem ftp_ls_lists_witness:
  "\<exists>r. ftp_onRequest (Some [(''.'', Some False), (''b.txt'', Some True), (''gone'', None), (''a.txt'', Some True)]) (\<lambda>name beg. [])
      (HttpRequest_new\<lparr>req_query := ''?ls''\<rparr>) (HttpResponse_new False) = Inr r
    \<and> split_at_char (CHR 0x0A) (rs_body r) = [''b.txt'', ''a.txt'']"
proof -
  let ?es = "[(''.'', Some False), (''b.txt'', Some True), (''gone'', None), (''a.txt'', Some True)]"
  have l: "filter listed ?es = [(''b.txt'', Some True), (''a.txt'', Some True)]" by (simp add: listed_def)
  have "\<forall>e \<in> set ?es. fst e \<noteq> [] \<and> CHR 0x0A \<notin> set (fst e)" by simp
  from ftp_ls_lists [of "HttpRequest_new\<lparr>req_query := ''?ls''\<rparr>" ?es, OF _ _ this] l show ?thesis by auto
qed

text \<open>The echo server returns what it receives: over any sequence of reads whose answers the system
  takes whole, the bytes sent are the bytes received, in order, and nothing is left behind in either
  buffer.\<close>

theorem echo_returns_stream:
  assumes "echo_ready c" and "\<forall>(bytes, n) \<in> set reads. length bytes \<le> n"
  shows "\<exists>c'. echo_reads reads c = Inr c' \<and> tc_sent c' = tc_sent c @ concat (List.map fst reads) \<and> echo_ready c'"
  using assms
proof (induction reads arbitrary: c)
  case (Cons r reads)
  obtain bytes n where r: "r = (bytes, n)" by (cases r)
  then obtain d where d: "echo_read bytes (Wrote n) c = Inr d" "echo_ready d" "tc_sent d = tc_sent c @ bytes"
    using echo_one [OF Cons.prems(1), of bytes n] Cons.prems(2) by auto
  from Cons.IH [OF d(2)] Cons.prems(2) show ?case using d r by auto
qed simp

theorem echo_returns_stream_witness:
  "\<exists>c'. echo_reads [(''hi'', 2), (''there'', 9)] ((TcpConnection_new 0 5)\<lparr>tc_state := kConnected\<rparr>) = Inr c' \<and> tc_sent c' = ''hithere''"
proof -
  let ?c = "(TcpConnection_new 0 5)\<lparr>tc_state := kConnected\<rparr>"
  have "echo_ready ?c"
    using Buffer_inv_init by (simp add: echo_ready_def TcpConnection_new_def tc_isWriting_def ch_isWriting_def Channel_new_def queue_simps)
  from echo_returns_stream [OF this, of "[(''hi'', 2), (''there'', 9)]"] show ?thesis
    by (auto simp: TcpConnection_new_def)
qed

end
