(* ===== verification/ConnClosures.thy ===== *)
theory ConnClosures
  imports TcpConnections
begin

text \<open>
  What the operations of a connection are made of. A relation between two states of a connection that
  is reflexive and transitive and holds of the few updates below holds of every call of the program and
  of every event but the beginning and the end of the connection's life. \<open>ready\<close> restricts the states in
  which the loop is given a message to send.
\<close>

locale conn_closure =
  fixes R :: "TcpConnection \<Rightarrow> TcpConnection \<Rightarrow> bool" and ready :: "StateE \<Rightarrow> bool"
  assumes refl: "R c c"
    and trans: "R a b \<Longrightarrow> R b c \<Longrightarrow> R a c"
    and input: "R c (c\<lparr>tc_input := inp\<rparr>)"
    and accepted: "R c (c\<lparr>tc_sent := bs, tc_accepted := ms\<rparr>)"
    and sent: "R c (c\<lparr>tc_sent := bs, tc_output := out\<rparr>)"
    and out: "R c (c\<lparr>tc_output := out\<rparr>)"
    and fin: "R c (c\<lparr>tc_fin := True\<rparr>)"
    and write_complete: "R c (tc_queue WriteComplete c)"
    and queue_send: "tc_state c = kConnected \<Longrightarrow> R c (tc_queue (SendInLoop m) c)"
    and queue_shutdown: "R c (tc_queue ShutdownInLoop c)"
    and stop: "tc_state c = kConnected \<Longrightarrow> R c (c\<lparr>tc_state := kDisconnecting\<rparr>)"
    and writing_on: "ready (tc_state c) \<Longrightarrow> tc_interest EnableWriting c = Inr c' \<Longrightarrow> R c c'"
    and writing_off: "tc_isWriting c \<Longrightarrow> tc_interest DisableWriting c = Inr c' \<Longrightarrow> R c c'"
    and ready: "ready kConnected"
begin

lemma shutdownInLoop_closed: "shutdownInLoop b c = Inr c' \<Longrightarrow> R c c'"
  using refl fin by (auto simp: shutdownInLoop_def split: if_splits)

lemma shutdown_closed: "tc_shutdown b c = Inr c' \<Longrightarrow> R c c'"
proof (cases "tc_state c = kConnected")
  case True
  assume "tc_shutdown b c = Inr c'"
  then have "R (c\<lparr>tc_state := kDisconnecting\<rparr>) c'"
    using True shutdownInLoop_closed queue_shutdown by (auto simp: tc_shutdown_def Let_def split: if_splits)
  then show ?thesis using stop [OF True] trans by blast
qed (simp add: tc_shutdown_def refl)

lemma sendInLoop_closed:
  assumes "sendInLoop b message w c = Inr c'" "ready (tc_state c)" shows "R c c'"
proof (cases "b \<and> \<not> tc_isWriting c \<and> readableBytes (tc_output c) = 0 \<and> (\<exists>n. sys_write (tc_fin c) w message = Wrote n)")
  case False
  then have "c' = c" using assms by (auto simp: sendInLoop_def split: if_splits write_result.splits)
  then show ?thesis by (simp add: refl)
next
  case True
  then obtain n where b: b and n: "sys_write (tc_fin c) w message = Wrote n" and nw: "\<not> tc_isWriting c"
    and rz: "readableBytes (tc_output c) = 0" by blast
  let ?c = "c\<lparr>tc_sent := tc_sent c @ take n message, tc_accepted := tc_accepted c @ [message]\<rparr>"
  show ?thesis
  proof (cases "n < length message")
    case True
    then obtain out where e: "tc_interest EnableWriting (?c\<lparr>tc_output := out\<rparr>) = Inr c'"
      using assms b n nw rz by (auto simp: sendInLoop_def Let_def rbind_Inr_iff simp del: tc_interest_Inr)
    have "R (?c\<lparr>tc_output := out\<rparr>) c'" using writing_on [OF _ e] assms(2) by simp
    then show ?thesis using accepted out trans by blast
  next
    case False
    then have "c' = (if tc_hasWriteComplete c then tc_queue WriteComplete ?c else ?c)"
      using assms b n nw rz by (auto simp: sendInLoop_def Let_def split: if_splits)
    then show ?thesis using accepted trans [OF accepted write_complete] by simp
  qed
qed

lemma send_closed: "tc_send b message w c = Inr c' \<Longrightarrow> R c c'"
  using sendInLoop_closed [of True message w c c'] queue_send refl ready
  by (auto simp: tc_send_def split: if_splits)

lemma handleWrite_closed:
  assumes "handleWrite b w c = Inr c'" shows "R c c'"
proof (cases "b \<and> tc_isWriting c \<and> (case sys_write (tc_fin c) w (contents (tc_output c)) of Wrote n \<Rightarrow> 0 < n | WriteError e \<Rightarrow> False)")
  case False
  then have "c' = c" using assms by (simp add: handleWrite_def split: if_splits write_result.splits)
  then show ?thesis by (simp add: refl)
next
  case True
  then obtain n where b: b and n: "sys_write (tc_fin c) w (contents (tc_output c)) = Wrote n" and n0: "0 < n" and wr: "tc_isWriting c"
    by (auto split: write_result.splits)
  obtain out where o: "retrieve (int n) (tc_output c) = Inr out"
    using assms b n n0 wr by (auto simp: handleWrite_def Let_def rbind_Inr_iff)
  let ?c = "c\<lparr>tc_sent := tc_sent c @ take n (contents (tc_output c)), tc_output := out\<rparr>"
  have 1: "R c ?c" by (rule sent)
  show ?thesis
  proof (cases "readableBytes out = 0")
    case False
    then show ?thesis using assms b n n0 wr o 1 by (auto simp: handleWrite_def Let_def)
  next
    case True
    then obtain d where d: "tc_interest DisableWriting ?c = Inr d"
      and r: "(let c = (if tc_hasWriteComplete d then tc_queue WriteComplete d else d)
               in if tc_state c = kDisconnecting then shutdownInLoop True c else Inr c) = Inr c'"
      using assms b n n0 wr o by (auto simp: handleWrite_def Let_def rbind_Inr_iff simp del: tc_interest_Inr)
    let ?e = "if tc_hasWriteComplete d then tc_queue WriteComplete d else d"
    have "R ?c d" using writing_off [OF _ d] wr by (simp add: tc_isWriting_def)
    moreover have "R d ?e" using write_complete refl by simp
    moreover have "R ?e c'"
      using r shutdownInLoop_closed [of True ?e c'] refl [of ?e] by (auto simp: Let_def split: if_splits)
    ultimately show ?thesis using 1 trans by blast
  qed
qed

lemma user_steps_closed: "user_steps us c = Inr c' \<Longrightarrow> R c c'"
proof (induction us arbitrary: c)
  case (Cons u us)
  then obtain d where "user_step u c = Inr d" and r: "user_steps us d = Inr c'" by (auto simp: rbind_Inr_iff)
  then have "R c d" by (cases u) (auto simp: rbind_Inr_iff intro: send_closed shutdown_closed input)
  then show ?case using Cons.IH [OF r] trans by blast
qed (simp add: refl)

lemma call_user_closed: "call_user user e b c = Inr c' \<Longrightarrow> R c c'"
  by (auto simp: call_user_def intro: user_steps_closed split: if_splits)

text \<open>A read ends in a call of the program, in the close callback or in nothing.\<close>

lemma handleRead_closed:
  assumes "handleRead user close r t c = Inr c'"
  obtains "R c c'" | inp where "handleClose close True (c\<lparr>tc_input := inp\<rparr>) = Inr c'"
proof -
  obtain n err inp where r: "readFd r (tc_input c) = Inr (n, err, inp)"
    using assms by (cases "readFd r (tc_input c)") (auto simp: handleRead_eq)
  have "(if n > 0 then call_user user (OnMessage t) (tc_hasMessage c) (c\<lparr>tc_input := inp\<rparr>)
       else if n = 0 then handleClose close True (c\<lparr>tc_input := inp\<rparr>) else Inr (c\<lparr>tc_input := inp\<rparr>)) = Inr c'"
    using assms by (simp add: handleRead_eq r Let_def handleError_def split: if_splits)
  then have "R (c\<lparr>tc_input := inp\<rparr>) c' \<or> handleClose close True (c\<lparr>tc_input := inp\<rparr>) = Inr c'"
    using call_user_closed refl by (auto split: if_splits)
  then show ?thesis using that input trans by blast
qed

end

end
