(* ===== verification/ConnObjects.thy ===== *)
theory ConnObjects
  imports ConnClosures Endpoints
begin

text \<open>
  Connections as objects on the heap. \<open>TcpServer\<close> and \<open>TcpClient\<close> hold a connection through a
  \<open>shared_ptr\<close>; so do the functors bound to one (\<open>connectEstablished\<close>, \<open>connectDestroyed\<close>, the write
  complete callback), while \<open>enableReadInLoop\<close>, \<open>sendInLoop\<close> and \<open>shutdownInLoop\<close> are bound to the bare
  pointer. When the last holder drops the connection its destructor runs: what is reached through the
  bare pointer afterwards is a use after free. The owner gives \<open>holds\<close>, whether it holds the connection,
  and \<open>on_close\<close>, the close callback it sets.
\<close>

section \<open>Objects\<close>

text \<open>A freed object keeps the functors that are still queued for it.\<close>

datatype conn_obj = Live "char list" TcpConnection | Freed "conn_functor list"

text \<open>\<open>objs_closed\<close> are the descriptors that were closed.\<close>

record Objects =
  objs :: "conn_obj list"
  objs_closed :: "int list"

definition live_conn :: "nat \<Rightarrow> 'a Objects_scheme \<Rightarrow> TcpConnection option" where
  "live_conn oid s = (if oid < length (objs s) then case objs s ! oid of Live nm c \<Rightarrow> Some c | Freed fs \<Rightarrow> None else None)"

definition live_name :: "nat \<Rightarrow> 'a Objects_scheme \<Rightarrow> char list" where
  "live_name oid s = (if oid < length (objs s) then case objs s ! oid of Live nm c \<Rightarrow> nm | Freed fs \<Rightarrow> [] else [])"

definition set_conn :: "nat \<Rightarrow> TcpConnection \<Rightarrow> 'a Objects_scheme \<Rightarrow> 'a Objects_scheme" where
  "set_conn oid c s = s\<lparr>objs := (objs s)[oid := Live (live_name oid s) c]\<rparr>"

fun strong :: "conn_functor \<Rightarrow> bool" where
  "strong ConnectEstablished = True" | "strong WriteComplete = True" | "strong ConnectDestroyed = True"
| "strong EnableReadInLoop = False" | "strong (SendInLoop m) = False" | "strong ShutdownInLoop = False"

text \<open>A \<open>shared_ptr\<close> to the connection is dropped.\<close>

definition release ::
  "('a Objects_scheme \<Rightarrow> nat \<Rightarrow> bool) \<Rightarrow> nat \<Rightarrow> 'a Objects_scheme \<Rightarrow> 'a Objects_scheme res" where
  "release holds oid s =
     (case live_conn oid s of
        None \<Rightarrow> Inl UseAfterFree
      | Some c \<Rightarrow>
          if holds s oid \<or> list_ex strong (tc_functors c) then Inr s
          else rbind (destroy_connection c) (\<lambda>_.
            Inr (s\<lparr>objs := (objs s)[oid := Freed (tc_functors c)],
                   objs_closed := objs_closed s @ Socket_destroy (Socket_new (ch_fd (tc_channel c)))\<rparr>)))"

section \<open>Events and functors of an object\<close>

type_synonym 's on_close = "nat \<Rightarrow> 's \<Rightarrow> 's res"

text \<open>The close callback gets a \<open>shared_ptr\<close> that is dropped when it returns.\<close>

definition close_object ::
  "('a Objects_scheme \<Rightarrow> nat \<Rightarrow> bool) \<Rightarrow> 'a Objects_scheme on_close \<Rightarrow> nat \<Rightarrow> 'a Objects_scheme
    \<Rightarrow> TcpConnection \<Rightarrow> 'a Objects_scheme res" where
  "close_object holds on_close oid s c = rbind (on_close oid (set_conn oid c s)) (release holds oid)"

definition run_callback ::
  "('a Objects_scheme \<Rightarrow> nat \<Rightarrow> bool) \<Rightarrow> 'a Objects_scheme on_close \<Rightarrow> program \<Rightarrow> readv_result \<Rightarrow> write_result \<Rightarrow> nat
    \<Rightarrow> unit \<Rightarrow> event_kind \<Rightarrow> 'a Objects_scheme \<Rightarrow> 'a Objects_scheme res" where
  "run_callback holds on_close user r w oid cb k s =
     (case live_conn oid s of
        None \<Rightarrow> Inl UseAfterFree
      | Some c \<Rightarrow>
          (case k of
             ReadEvent t \<Rightarrow>
               handleRead_ret user (\<lambda>c. release holds oid (set_conn oid c s)) (close_object holds on_close oid s) r t c
           | WriteEvent \<Rightarrow> rbind (handleWrite True w c) (\<lambda>c. Inr (set_conn oid c s))
           | ErrorEvent \<Rightarrow> Inr (set_conn oid (handleError c) s)
           | CloseEvent \<Rightarrow> handleClose (close_object holds on_close oid s) True c))"

definition obj_channel :: "nat \<Rightarrow> 'a Objects_scheme \<Rightarrow> unit Channel option" where
  "obj_channel oid s = map_option tc_channel (live_conn oid s)"

text \<open>The poller reported \<open>revents\<close> for the channel, and the loop handles the event.\<close>

definition object_event ::
  "('a Objects_scheme \<Rightarrow> nat \<Rightarrow> bool) \<Rightarrow> 'a Objects_scheme on_close \<Rightarrow> program \<Rightarrow> 32 word \<Rightarrow> readv_result \<Rightarrow> write_result
    \<Rightarrow> Timestamp \<Rightarrow> nat \<Rightarrow> 'a Objects_scheme \<Rightarrow> 'a Objects_scheme res" where
  "object_event holds on_close user revents r w t oid s =
     (case live_conn oid s of
        None \<Rightarrow> Inl UseAfterFree
      | Some c \<Rightarrow>
          handleEvent (obj_channel oid) (run_callback holds on_close user r w oid) t
            (set_conn oid (c\<lparr>tc_channel := set_revents revents (tc_channel c)\<rparr>) s))"

text \<open>\<open>doPendingFunctors\<close>, for the functors of one connection: they are taken out of the queue, run in
  order, and dropped together at the end.\<close>

fun run_functors :: "program \<Rightarrow> (conn_functor \<Rightarrow> write_result) \<Rightarrow> conn_functor list \<Rightarrow> TcpConnection \<Rightarrow> TcpConnection res" where
  "run_functors user w [] c = Inr c"
| "run_functors user w (f # fs) c = rbind (run_functor user (w f) f c) (run_functors user w fs)"

definition object_functors ::
  "('a Objects_scheme \<Rightarrow> nat \<Rightarrow> bool) \<Rightarrow> program \<Rightarrow> (conn_functor \<Rightarrow> write_result) \<Rightarrow> nat
    \<Rightarrow> 'a Objects_scheme \<Rightarrow> 'a Objects_scheme res" where
  "object_functors holds user w oid s =
     (if oid < length (objs s) then
        (case objs s ! oid of
           Freed fs \<Rightarrow> if fs = [] then Inr s else Inl UseAfterFree
         | Live nm c \<Rightarrow>
             rbind (run_functors user w (tc_functors c) (c\<lparr>tc_functors := []\<rparr>)) (\<lambda>c'.
               if list_ex strong (tc_functors c) then release holds oid (set_conn oid c' s) else Inr (set_conn oid c' s)))
      else Inl UseAfterFree)"

section \<open>What the operations leave alone\<close>

text \<open>Every operation of a connection but the two ends of its life keeps its descriptor, its loop and its
  callbacks, does not queue an end of its life, and neither begins nor ends it.\<close>

definition keeps :: "TcpConnection \<Rightarrow> TcpConnection \<Rightarrow> bool" where
  "keeps c c' \<longleftrightarrow>
     (tc_state c = kConnnecting \<longleftrightarrow> tc_state c' = kConnnecting) \<and> (tc_state c = kDisconnected \<longleftrightarrow> tc_state c' = kDisconnected)
     \<and> count_list (tc_functors c') ConnectEstablished = count_list (tc_functors c) ConnectEstablished
     \<and> count_list (tc_functors c') ConnectDestroyed = count_list (tc_functors c) ConnectDestroyed
     \<and> tc_hasClose c' = tc_hasClose c \<and> ch_fd (tc_channel c') = ch_fd (tc_channel c)
     \<and> ch_loop (tc_channel c') = ch_loop (tc_channel c)
     \<and> ch_readCallback (tc_channel c') = ch_readCallback (tc_channel c)"

lemma keeps_refl [simp]: "keeps c c"
  by (simp add: keeps_def)

lemma keeps_trans: "keeps a b \<Longrightarrow> keeps b c \<Longrightarrow> keeps a c"
  by (auto simp: keeps_def)

lemma keeps_queue: "f \<noteq> ConnectEstablished \<Longrightarrow> f \<noteq> ConnectDestroyed \<Longrightarrow> keeps c (tc_queue f c)"
  by (auto simp: keeps_def tc_queue_def)

lemma fd_set_interest [simp]: "ch_fd (set_interest i ch) = ch_fd ch" "ch_loop (set_interest i ch) = ch_loop ch"
  "ch_fd (set_index k ch) = ch_fd ch" "ch_loop (set_index k ch) = ch_loop ch"
  "ch_readCallback (set_interest i ch) = ch_readCallback ch" "ch_readCallback (set_index k ch) = ch_readCallback ch"
  by (cases i; simp add: enableReading_def enableWriting_def disableWriting_def disableAll_def set_index_def)+

lemma keeps_updates [simp]:
  "keeps c (tc_input_update g1 c)" "keeps c (tc_output_update g2 c)" "keeps c (tc_sent_update g3 c)"
  "keeps c (tc_accepted_update g4 c)" "keeps c (tc_fin_update g5 c)"
  by (simp_all add: keeps_def)

lemma keeps_interest: "tc_interest i c = Inr c' \<Longrightarrow> keeps c c'"
  by (auto simp: keeps_def)

interpretation ck: conn_closure keeps "\<lambda>st. True"
  by unfold_locales (auto simp: keeps_def tc_queue_def enableWriting_def disableWriting_def)

lemmas keeps_shutdownInLoop = ck.shutdownInLoop_closed
lemmas keeps_shutdown = ck.shutdown_closed
lemmas keeps_sendInLoop = ck.sendInLoop_closed [OF _ TrueI]
lemmas keeps_send = ck.send_closed
lemmas keeps_handleWrite = ck.handleWrite_closed
lemmas keeps_user_steps = ck.user_steps_closed
lemmas keeps_call_user = ck.call_user_closed

lemma connectEstablished_keeps:
  assumes "connectEstablished user b c = Inr c'" shows "keeps (c\<lparr>tc_state := kConnected\<rparr>) c'"
proof -
  obtain d where "tc_interest EnableReading (c\<lparr>tc_state := kConnected\<rparr>) = Inr d"
    and "call_user user OnConnection (tc_hasConnection d) d = Inr c'"
    using assms by (auto simp: connectEstablished_def rbind_Inr_iff split: if_splits simp del: tc_interest_Inr)
  then show ?thesis using keeps_interest keeps_call_user keeps_trans by blast
qed

lemma connectDestroyed_keeps:
  "connectDestroyed b c = Inr c' \<Longrightarrow>
     keeps (c\<lparr>tc_state := kDisconnected\<rparr>) c' \<and> (tc_state c = kConnected \<or> tc_state c = kDisconnecting) \<and> \<not> tc_registered c'"
  unfolding connectDestroyed_def
  by (auto simp: rassert_Inr_iff rbind_Inr_iff keeps_def split: if_splits)

lemmas keeps_ops = keeps_interest keeps_shutdownInLoop keeps_sendInLoop keeps_handleWrite keeps_call_user
  keeps_send keeps_shutdown

section \<open>The life of an object\<close>

text \<open>With \<open>fs\<close> still to be run: a connection is established once, before anything else of its life.\<close>

definition pending_ok :: "conn_functor list \<Rightarrow> TcpConnection \<Rightarrow> bool" where
  "pending_ok fs c \<longleftrightarrow>
     count_list fs ConnectEstablished + count_list (tc_functors c) ConnectEstablished \<le> 1
     \<and> (0 < count_list fs ConnectEstablished + count_list (tc_functors c) ConnectEstablished \<longrightarrow> tc_state c = kConnnecting)"

lemma pending_keeps: "keeps c c' \<Longrightarrow> pending_ok fs c \<Longrightarrow> pending_ok fs c'"
  by (auto simp: pending_ok_def keeps_def)

definition same_end :: "TcpConnection \<Rightarrow> TcpConnection \<Rightarrow> bool" where
  "same_end c c' \<longleftrightarrow>
     (tc_state c = kDisconnected \<longrightarrow> tc_state c' = kDisconnected)
     \<and> count_list (tc_functors c') ConnectDestroyed = count_list (tc_functors c) ConnectDestroyed
     \<and> tc_hasClose c' = tc_hasClose c \<and> ch_fd (tc_channel c') = ch_fd (tc_channel c)
     \<and> ch_loop (tc_channel c') = ch_loop (tc_channel c)
     \<and> ch_readCallback (tc_channel c') = ch_readCallback (tc_channel c)"

lemma same_end_trans: "same_end a b \<Longrightarrow> same_end b c \<Longrightarrow> same_end a c"
  by (auto simp: same_end_def)

lemma keeps_same_end: "keeps c c' \<Longrightarrow> same_end c c'"
  by (auto simp: keeps_def same_end_def)

lemma run_functor_life:
  assumes "run_functor user w f c = Inr c'" "pending_ok (f # fs) c"
  shows "pending_ok fs c' \<and> same_end c c' \<and> (f \<noteq> ConnectDestroyed \<longrightarrow> tc_state c \<noteq> kDisconnected \<longrightarrow> tc_state c' \<noteq> kDisconnected)"
proof (cases f)
  case ConnectEstablished
  then have k: "keeps (c\<lparr>tc_state := kConnected\<rparr>) c'" using assms(1) connectEstablished_keeps by auto
  have "pending_ok fs (c\<lparr>tc_state := kConnected\<rparr>)" "same_end c (c\<lparr>tc_state := kConnected\<rparr>)"
    using assms(2) ConnectEstablished by (auto simp: pending_ok_def same_end_def)
  then show ?thesis using pending_keeps [OF k] keeps_same_end [OF k] same_end_trans k by (auto simp: keeps_def)
next
  case ConnectDestroyed
  then have k: "keeps (c\<lparr>tc_state := kDisconnected\<rparr>) c'" and st: "tc_state c = kConnected \<or> tc_state c = kDisconnecting"
    using assms(1) connectDestroyed_keeps by auto
  have "pending_ok fs (c\<lparr>tc_state := kDisconnected\<rparr>)" "same_end c (c\<lparr>tc_state := kDisconnected\<rparr>)"
    using assms(2) ConnectDestroyed st by (auto simp: pending_ok_def same_end_def)
  then show ?thesis using pending_keeps [OF k] keeps_same_end [OF k] same_end_trans ConnectDestroyed by blast
next
  case EnableReadInLoop
  then have k: "keeps c c'" using assms(1) keeps_interest by (simp add: enableReadInLoop_def del: tc_interest_Inr)
  moreover have "pending_ok fs c" using assms(2) EnableReadInLoop by (simp add: pending_ok_def)
  ultimately show ?thesis using pending_keeps keeps_same_end by (auto simp: keeps_def)
next
  case (SendInLoop m)
  then have k: "keeps c c'" using assms(1) keeps_sendInLoop by auto
  moreover have "pending_ok fs c" using assms(2) SendInLoop by (simp add: pending_ok_def)
  ultimately show ?thesis using pending_keeps keeps_same_end by (auto simp: keeps_def)
next
  case ShutdownInLoop
  then have k: "keeps c c'" using assms(1) keeps_shutdownInLoop by auto
  moreover have "pending_ok fs c" using assms(2) ShutdownInLoop by (simp add: pending_ok_def)
  ultimately show ?thesis using pending_keeps keeps_same_end by (auto simp: keeps_def)
next
  case WriteComplete
  then have k: "keeps c c'" using assms(1) keeps_call_user by auto
  moreover have "pending_ok fs c" using assms(2) WriteComplete by (simp add: pending_ok_def)
  ultimately show ?thesis using pending_keeps keeps_same_end by (auto simp: keeps_def)
qed

lemma run_functors_life:
  assumes "run_functors user w fs c = Inr c'" "pending_ok fs c"
  shows "pending_ok [] c' \<and> same_end c c'
    \<and> (ConnectDestroyed \<notin> set fs \<longrightarrow> tc_state c \<noteq> kDisconnected \<longrightarrow> tc_state c' \<noteq> kDisconnected)"
  using assms
proof (induction fs arbitrary: c)
  case (Cons f fs)
  then obtain d where d: "run_functor user (w f) f c = Inr d" and r: "run_functors user w fs d = Inr c'"
    by (auto simp: rbind_Inr_iff)
  note 1 = run_functor_life [OF d Cons.prems(2)]
  with Cons.IH [OF r] show ?case using same_end_trans by auto
qed (simp add: same_end_def)

section \<open>Access to objects\<close>

lemma live_conn_Some: "live_conn oid s = Some c \<longleftrightarrow> oid < length (objs s) \<and> objs s ! oid = Live (live_name oid s) c"
  by (auto simp: live_conn_def live_name_def split: conn_obj.splits)

lemma objs_set_conn:
  "objs (set_conn oid c s) ! i = (if i = oid \<and> oid < length (objs s) then Live (live_name oid s) c else objs s ! i)"
  by (cases "oid < length (objs s)") (auto simp: set_conn_def nth_list_update list_update_beyond)

lemma length_set_conn [simp]: "length (objs (set_conn oid c s)) = length (objs s)"
  by (simp add: set_conn_def)

lemma set_conn_simps [simp]:
  "live_conn i (set_conn oid c s) = (if i = oid \<and> oid < length (objs s) then Some c else live_conn i s)"
  "objs_closed (set_conn oid c s) = objs_closed s"
  by (auto simp: live_conn_def objs_set_conn) (simp add: set_conn_def)

lemma live_name_set_conn [simp]: "live_name i (set_conn oid c s) = live_name i s"
  by (auto simp: live_name_def objs_set_conn)

lemma set_conn_twice [simp]: "set_conn oid d (set_conn oid c s) = set_conn oid d s"
  unfolding set_conn_def [of oid d] live_name_set_conn by (simp add: set_conn_def)

lemma set_conn_same: "live_conn oid s = Some c \<Longrightarrow> set_conn oid c s = s"
  by (cases s) (auto simp: live_conn_Some set_conn_def list_update_same_conv)

lemma release_held: "live_conn oid s = Some c \<Longrightarrow> holds s oid \<Longrightarrow> release holds oid s = Inr s"
  by (simp add: release_def)

lemma release_bound:
  "live_conn oid s = Some c \<Longrightarrow> list_ex strong (tc_functors c) \<Longrightarrow> release holds oid s = Inr s"
  by (simp add: release_def)

text \<open>The last holder lets go of a connection that is not connected.\<close>

lemma release_last:
  "live_conn oid s = Some c \<Longrightarrow> \<not> holds s oid \<Longrightarrow> \<not> list_ex strong (tc_functors c) \<Longrightarrow> tc_state c \<noteq> kConnected \<Longrightarrow>
     release holds oid s = Inr (s\<lparr>objs := (objs s)[oid := Freed (tc_functors c)],
       objs_closed := objs_closed s @ [ch_fd (tc_channel c)]\<rparr>)"
  by (simp add: release_def destroy_connection_def tc_connected_def Socket_destroy_def Socket_new_def)

section \<open>What an owner promises\<close>

lemma handleClose_cases:
  assumes "handleClose close b c = Inr x"
  shows "\<exists>d. keeps c d \<and> (tc_state d = kConnected \<or> tc_state d = kDisconnecting) \<and> close d = Inr x"
proof -
  obtain d where d: "tc_interest DisableAll c = Inr d" "close d = Inr x" and st: "tc_state c = kConnected \<or> tc_state c = kDisconnecting"
    using assms by (auto simp: handleClose_def rassert_Inr_iff rbind_Inr_iff split: if_splits simp del: tc_interest_Inr)
  have "tc_state d = tc_state c" using d(1) by auto
  then show ?thesis using keeps_interest [OF d(1)] d(2) st by auto
qed

lemma handleRead_ret_cases:
  assumes "handleRead_ret user ret close r t c = Inr x"
  shows "\<exists>d. keeps c d \<and> (ret d = Inr x \<or> close d = Inr x)"
proof -
  obtain n err inp where r: "readFd r (tc_input c) = Inr (n, err, inp)"
    using assms unfolding handleRead_ret_def rbind_Inr_iff by auto
  let ?c = "c\<lparr>tc_input := inp\<rparr>"
  have k: "keeps c ?c" by simp
  consider (msg) d where "n > 0" "call_user user (OnMessage t) (tc_hasMessage ?c) ?c = Inr d" "ret d = Inr x"
    | (eof) "n = 0" "handleClose close True ?c = Inr x" | (err) "n < 0" "ret ?c = Inr x"
  proof -
    have rest: "(if n > 0 then rbind (call_user user (OnMessage t) (tc_hasMessage ?c) ?c) ret
       else if n = 0 then handleClose close True ?c else ret ?c) = Inr x"
      using assms by (simp add: handleRead_ret_def r Let_def handleError_def split: if_splits)
    consider "n > 0" | "n = 0" | "n < 0" by linarith
    then show ?thesis
    proof cases
      case 1
      then show ?thesis using rest msg by (simp add: rbind_Inr_iff) blast
    qed (use rest eof err in simp_all)
  qed
  then show ?thesis
  proof cases
    case (msg d)
    then show ?thesis using keeps_trans [OF k keeps_call_user] by blast
  next
    case eof
    then show ?thesis using handleClose_cases [OF eof(2)] keeps_trans [OF k] by blast
  qed (use k in blast)
qed

lemma handleEvent_preserves:
  assumes "\<And>cb k s s'. P s \<Longrightarrow> run cb k s = Inr s' \<Longrightarrow> P s'" and "handleEvent look run t s = Inr s'" and "P s"
  shows "P s'"
proof -
  have d: "P b" if "dispatch look run k a = Inr b" "P a" for k a b
    using that assms(1) by (auto simp: dispatch_def split: option.splits if_splits)
  show ?thesis using assms(2,3) d unfolding handleEvent_def rbind_Inr_iff by blast
qed

text \<open>
  An owner of connections keeps its invariant when a connection changes within its life, when a
  reference is dropped, when its close callback runs and when the queue of a connection is run. Then
  every event and every batch of functors keeps it.
\<close>

locale conn_owner =
  fixes holds :: "'a Objects_scheme \<Rightarrow> nat \<Rightarrow> bool" and on_close :: "'a Objects_scheme on_close"
    and Inv :: "'a Objects_scheme \<Rightarrow> bool"
  assumes own_keeps: "Inv s \<Longrightarrow> live_conn oid s = Some c \<Longrightarrow> keeps c c' \<Longrightarrow> Inv (set_conn oid c' s)"
    and own_release: "Inv s \<Longrightarrow> release holds oid s = Inr s' \<Longrightarrow> Inv s'"
    and own_close: "Inv s \<Longrightarrow> live_conn oid s = Some c \<Longrightarrow> on_close oid s = Inr s' \<Longrightarrow> Inv s'"
    and own_functors: "Inv s \<Longrightarrow> live_conn oid s = Some c \<Longrightarrow>
      run_functors user w (tc_functors c) (c\<lparr>tc_functors := []\<rparr>) = Inr c' \<Longrightarrow> Inv (set_conn oid c' s)"
begin

lemma close_object_inv:
  assumes "Inv s" "live_conn oid s = Some c" "keeps c d" "close_object holds on_close oid s d = Inr s'"
  shows "Inv s'"
proof -
  obtain t where t: "on_close oid (set_conn oid d s) = Inr t" "release holds oid t = Inr s'"
    using assms(4) by (auto simp: close_object_def rbind_Inr_iff)
  have "live_conn oid (set_conn oid d s) = Some d" using assms(2) by (auto simp: live_conn_Some objs_set_conn)
  with t own_keeps [OF assms(1-3)] own_close own_release show ?thesis by blast
qed

lemma callback_inv:
  assumes i: "Inv s" and r: "run_callback holds on_close user r w oid cb k s = Inr s'"
  shows "Inv s'"
proof -
  obtain c where c: "live_conn oid s = Some c" using r by (cases "live_conn oid s") (auto simp: run_callback_def)
  show ?thesis
  proof (cases k)
    case (ReadEvent t)
    then obtain d where "keeps c d" "release holds oid (set_conn oid d s) = Inr s' \<or> close_object holds on_close oid s d = Inr s'"
      using handleRead_ret_cases [of user "\<lambda>c. release holds oid (set_conn oid c s)" "close_object holds on_close oid s" r t c s']
        r c by (auto simp: run_callback_def)
    then show ?thesis using own_keeps [OF i c] own_release close_object_inv [OF i c] by blast
  next
    case WriteEvent
    then show ?thesis using r c own_keeps [OF i c keeps_handleWrite] by (auto simp: run_callback_def rbind_Inr_iff)
  next
    case ErrorEvent
    then show ?thesis using r c i by (auto simp: run_callback_def handleError_def set_conn_same)
  next
    case CloseEvent
    then have h: "handleClose (close_object holds on_close oid s) True c = Inr s'" using r c by (simp add: run_callback_def)
    show ?thesis using handleClose_cases [OF h] close_object_inv [OF i c] by blast
  qed
qed

lemma event_inv:
  assumes i: "Inv s" and e: "object_event holds on_close user revents r w t oid s = Inr s'"
  shows "Inv s'"
proof -
  obtain c where c: "live_conn oid s = Some c" using e by (cases "live_conn oid s") (auto simp: object_event_def)
  have "keeps c (c\<lparr>tc_channel := set_revents revents (tc_channel c)\<rparr>)" by (simp add: keeps_def set_revents_def)
  then have s: "Inv (set_conn oid (c\<lparr>tc_channel := set_revents revents (tc_channel c)\<rparr>) s)" by (rule own_keeps [OF i c])
  have h: "handleEvent (obj_channel oid) (run_callback holds on_close user r w oid) t
      (set_conn oid (c\<lparr>tc_channel := set_revents revents (tc_channel c)\<rparr>) s) = Inr s'"
    using e c by (simp add: object_event_def)
  show ?thesis using handleEvent_preserves [where P = Inv, OF _ h s] callback_inv by blast
qed

lemma functors_inv:
  assumes i: "Inv s" and e: "object_functors holds user w oid s = Inr s'"
  shows "Inv s'"
proof (cases "live_conn oid s")
  case None
  then show ?thesis using e i
    by (auto simp: object_functors_def live_conn_def split: if_splits conn_obj.splits)
next
  case (Some c)
  then obtain c' where c': "run_functors user w (tc_functors c) (c\<lparr>tc_functors := []\<rparr>) = Inr c'"
    and s': "s' = set_conn oid c' s \<or> release holds oid (set_conn oid c' s) = Inr s'"
    using e by (auto simp: object_functors_def live_conn_Some rbind_Inr_iff split: if_splits)
  then show ?thesis using own_functors [OF i Some] own_release by blast
qed

end

end
