(* ===== verification/TcpServers.thy ===== *)
theory TcpServers
  imports ConnObjects StdMaps Formats
begin

text \<open>
  \<open>SubLoops\<close> (winterfell/net/wf_sub_loops.h, wf_sub_loops.cc), \<open>Acceptor\<close> (wf_acceptor.h,
  wf_acceptor.cc) and \<open>TcpServer\<close> (wf_tcp_server.h, wf_tcp_server.cc): the server accepts in its own
  loop, names the connection, hands it to the next sub-loop, which runs in another thread, and keeps it
  in a map until its close callback erases it. The calls the server makes in a sub-loop's thread are
  steps of their own.
\<close>

section \<open>Sub-loops\<close>

record SubLoops =
  sl_started :: bool
  sl_numThreads :: int
  sl_next :: int
  sl_threads :: nat
  sl_loops :: "nat list"

definition SubLoops_new :: SubLoops where
  "SubLoops_new = \<lparr>sl_started = False, sl_numThreads = 1, sl_next = 0, sl_threads = 0, sl_loops = []\<rparr>"

definition sl_setThreadNum :: "int \<Rightarrow> SubLoops \<Rightarrow> SubLoops" where
  "sl_setThreadNum n sl = sl\<lparr>sl_numThreads := n\<rparr>"

text \<open>\<open>start\<close> starts the threads; each of them creates its loop and appends it some time later.\<close>

definition sl_start :: "SubLoops \<Rightarrow> SubLoops res" where
  "sl_start sl =
     rassert (\<not> sl_started sl)
       (Inr (sl\<lparr>sl_threads := sl_threads sl + nat (sl_numThreads sl), sl_started := True\<rparr>))"

definition sl_thread_ready :: "nat \<Rightarrow> SubLoops \<Rightarrow> SubLoops" where
  "sl_thread_ready loop sl = sl\<lparr>sl_loops := sl_loops sl @ [loop]\<rparr>"

definition getNextLoop :: "SubLoops \<Rightarrow> (nat \<times> SubLoops) res" where
  "getNextLoop sl =
     rbind (int32 (sl_next sl + 1)) (\<lambda>n.
     if sl_numThreads sl = 0 then Inl DivByZero
     else let next = n smod sl_numThreads sl in
       if 0 \<le> next \<and> next < int (length (sl_loops sl))
       then Inr (sl_loops sl ! nat next, sl\<lparr>sl_next := next\<rparr>)
       else Inl OutOfBounds)"

section \<open>The acceptor\<close>

record Acceptor =
  ac_channel :: "unit Channel"
  ac_listening :: bool

text \<open>The results of \<open>socket\<close> and \<open>bind\<close> are inputs.\<close>

definition Acceptor_new :: "nat \<Rightarrow> int \<Rightarrow> int \<Rightarrow> Acceptor res" where
  "Acceptor_new loop sockfd bind_ret =
     rbind (createNonblocking sockfd) (\<lambda>fd.
     rbind (sockets_bind bind_ret) (\<lambda>_.
     Inr \<lparr>ac_channel = (Channel_new loop fd)\<lparr>ch_readCallback := Some ()\<rparr>, ac_listening = False\<rparr>))"

definition ac_listen :: "bool \<Rightarrow> int \<Rightarrow> Acceptor \<Rightarrow> Acceptor res" where
  "ac_listen in_loop listen_ret a =
     (if \<not> in_loop then Inl Aborted
      else rbind (sockets_listen listen_ret) (\<lambda>_.
        Inr (a\<lparr>ac_listening := True, ac_channel := enableReading (ac_channel a)\<rparr>)))"

text \<open>
  \<open>cb\<close> is the callback for new connections, if it is set; it takes the socket over, otherwise the
  destructor of the local variable closes what was accepted. \<open>garbage\<close> is what the address variable of
  \<open>Socket::accept\<close> held, which is never initialised. The result has the descriptors closed here.
\<close>

definition ac_handleRead ::
  "(int \<Rightarrow> sockaddr_in \<Rightarrow> 's \<Rightarrow> 's res) option \<Rightarrow> bool \<Rightarrow> int \<Rightarrow> sockaddr_in \<Rightarrow> sockaddr_in \<Rightarrow> 's \<Rightarrow> ('s \<times> int list) res" where
  "ac_handleRead cb in_loop connfd peer garbage s =
     (if \<not> in_loop then Inl Aborted
      else
        let (connfd, peerEndpoint) = Socket_accept connfd peer garbage;
            sock = Socket_new connfd
        in if 0 \<le> connfd then
             (case cb of
                Some f \<Rightarrow>
                  rbind (Socket_move sock) (\<lambda>(taken, sock).
                  rbind (Socket_fd taken) (\<lambda>fd.
                  rbind (f fd peerEndpoint s) (\<lambda>s. Inr (s, Socket_destroy sock))))
              | None \<Rightarrow> Inr (s, Socket_destroy sock))
           else Inr (s, Socket_destroy sock))"

section \<open>The server\<close>

record TcpServer = Objects +
  srv_name :: "char list"
  srv_started :: bool
  srv_nextConnId :: int
  srv_connections :: "(char list, nat) stdmap"
  srv_subLoops :: SubLoops
  srv_acceptor :: Acceptor
  srv_ipPort :: "char list"
  srv_callbacks :: "bool \<times> bool \<times> bool"

text \<open>\<open>started\<close> is what the uninitialised \<open>started_\<close> holds.\<close>

definition TcpServer_new :: "bool \<Rightarrow> nat \<Rightarrow> sockaddr_in \<Rightarrow> char list \<Rightarrow> int \<Rightarrow> int \<Rightarrow> TcpServer res" where
  "TcpServer_new started loop listenEndpoint name sockfd bind_ret =
     rbind (Acceptor_new loop sockfd bind_ret) (\<lambda>acceptor.
     Inr \<lparr>objs = [], objs_closed = [], srv_name = name, srv_started = started, srv_nextConnId = 1,
          srv_connections = [], srv_subLoops = SubLoops_new, srv_acceptor = acceptor,
          srv_ipPort = getIpPort listenEndpoint, srv_callbacks = (False, False, False)\<rparr>)"

definition srv_setConnectionCallback :: "TcpServer \<Rightarrow> TcpServer" where
  "srv_setConnectionCallback s =
     (case srv_callbacks s of (connection, message, writeComplete) \<Rightarrow> s\<lparr>srv_callbacks := (True, message, writeComplete)\<rparr>)"

definition srv_setMessageCallback :: "TcpServer \<Rightarrow> TcpServer" where
  "srv_setMessageCallback s =
     (case srv_callbacks s of (connection, message, writeComplete) \<Rightarrow> s\<lparr>srv_callbacks := (connection, True, writeComplete)\<rparr>)"

definition srv_setWriteCompleteCallback :: "TcpServer \<Rightarrow> TcpServer" where
  "srv_setWriteCompleteCallback s =
     (case srv_callbacks s of (connection, message, writeComplete) \<Rightarrow> s\<lparr>srv_callbacks := (connection, message, True)\<rparr>)"

definition srv_setThreadNum :: "bool \<Rightarrow> int \<Rightarrow> TcpServer \<Rightarrow> TcpServer res" where
  "srv_setThreadNum in_loop n s =
     (if \<not> in_loop then Inl Aborted else Inr (s\<lparr>srv_subLoops := sl_setThreadNum n (srv_subLoops s)\<rparr>))"

text \<open>Called in the loop's thread, so that \<open>listen\<close> runs at once.\<close>

definition srv_start :: "int \<Rightarrow> TcpServer \<Rightarrow> TcpServer res" where
  "srv_start listen_ret s =
     (let s = (if \<not> srv_started s then s\<lparr>srv_started := True\<rparr> else s) in
      rbind (if \<not> ac_listening (srv_acceptor s) then ac_listen True listen_ret (srv_acceptor s) else Inr (srv_acceptor s)) (\<lambda>a.
      rbind (sl_start (srv_subLoops s)) (\<lambda>sl.
      Inr (s\<lparr>srv_acceptor := a, srv_subLoops := sl\<rparr>))))"

definition srv_conn_name :: "char list \<Rightarrow> int \<Rightarrow> char list" where
  "srv_conn_name name connId = name @ snprintf_buf 32 (''#'' @ dec_int connId)"

definition srv_set_callbacks :: "bool \<times> bool \<times> bool \<Rightarrow> TcpConnection \<Rightarrow> TcpConnection" where
  "srv_set_callbacks cbs c =
     (case cbs of (connection, message, writeComplete) \<Rightarrow>
        c\<lparr>tc_hasConnection := connection, tc_hasMessage := message, tc_hasClose := True, tc_hasWriteComplete := writeComplete\<rparr>)"

text \<open>The connection belongs to a loop of another thread: what it queues there runs later.\<close>

definition newConnectionCallback :: "bool \<Rightarrow> int \<Rightarrow> sockaddr_in \<Rightarrow> TcpServer \<Rightarrow> TcpServer res" where
  "newConnectionCallback in_loop sockfd peer s =
     (if \<not> in_loop then Inl Aborted
      else
        let connName = srv_conn_name (srv_name s) (srv_nextConnId s) in
        rbind (int32 (srv_nextConnId s + 1)) (\<lambda>nextConnId.
        rbind (getNextLoop (srv_subLoops s)) (\<lambda>(subLoop, subLoops).
        rbind (construct_connection False subLoop sockfd) (\<lambda>conn.
        let conn = tc_queue ConnectEstablished (srv_set_callbacks (srv_callbacks s) conn) in
        Inr (s\<lparr>srv_nextConnId := nextConnId, srv_subLoops := subLoops,
               objs := objs s @ [Live connName conn],
               srv_connections := map_put connName (length (objs s)) (srv_connections s)\<rparr>)))))"

text \<open>The close callback, run by the sub-loop's thread in the connection's \<open>handleClose\<close>.\<close>

definition removeConnectionInLoop :: "bool \<Rightarrow> nat \<Rightarrow> TcpServer \<Rightarrow> TcpServer res" where
  "removeConnectionInLoop in_loop oid s =
     (case live_conn oid s of
        None \<Rightarrow> Inl UseAfterFree
      | Some c \<Rightarrow>
          let n = (if map_find (live_name oid s) (srv_connections s) = None then 0 else 1 :: nat);
              s = s\<lparr>srv_connections := map_erase (live_name oid s) (srv_connections s)\<rparr>
          in rassert (n = 1)
               (if in_loop then rbind (connectDestroyed True c) (\<lambda>c. Inr (set_conn oid c s))
                else Inr (set_conn oid (tc_queue ConnectDestroyed c) s)))"

definition srv_removeConnection :: "nat \<Rightarrow> TcpServer \<Rightarrow> TcpServer res" where
  "srv_removeConnection oid s = removeConnectionInLoop True oid s"

definition srv_holds :: "TcpServer \<Rightarrow> nat \<Rightarrow> bool" where
  "srv_holds s oid \<longleftrightarrow> oid \<in> snd ` set (srv_connections s)"

text \<open>The destructor clears the map: every connection loses its owner, in the order of the map.\<close>

fun release_each :: "nat list \<Rightarrow> TcpServer \<Rightarrow> TcpServer res" where
  "release_each [] s = Inr s"
| "release_each (oid # oids) s = rbind (release srv_holds oid s) (release_each oids)"

definition destroy_server :: "TcpServer \<Rightarrow> TcpServer res" where
  "destroy_server s =
     release_each (List.map snd (srv_connections s)) (s\<lparr>srv_connections := []\<rparr>)"

section \<open>Steps\<close>

inductive server_step :: "program \<Rightarrow> TcpServer \<Rightarrow> TcpServer \<Rightarrow> bool" for user where
  server_start: "srv_start listen_ret s = Inr s' \<Longrightarrow> server_step user s s'"
| server_threads: "srv_setThreadNum True n s = Inr s' \<Longrightarrow> server_step user s s'"
| server_ready: "server_step user s (s\<lparr>srv_subLoops := sl_thread_ready loop (srv_subLoops s)\<rparr>)"
| server_accept: "ac_handleRead (Some (newConnectionCallback True)) True connfd peer garbage s = Inr (s', closed) \<Longrightarrow> server_step user s s'"
| server_event:
    "live_conn oid s = Some c \<Longrightarrow> tc_registered c \<Longrightarrow>
     object_event srv_holds srv_removeConnection user revents r w t oid s = Inr s' \<Longrightarrow> server_step user s s'"
| server_functors: "object_functors srv_holds user w oid s = Inr s' \<Longrightarrow> server_step user s s'"
| server_other_thread:
    "live_conn oid s = Some c \<Longrightarrow> tc_send False message w c = Inr c' \<or> tc_shutdown False c = Inr c' \<Longrightarrow>
     server_step user s (set_conn oid c' s)"

inductive_cases server_step_elim: "server_step user s s'"

section \<open>The registry\<close>

definition entry_ok :: "TcpServer \<Rightarrow> nat \<Rightarrow> bool" where
  "entry_ok s oid \<longleftrightarrow>
     (case objs s ! oid of
        Freed fs \<Rightarrow> True
      | Live nm c \<Rightarrow>
          nm = srv_conn_name (srv_name s) (int oid + 1) \<and> pending_ok [] c \<and> ConnectDestroyed \<notin> set (tc_functors c)
          \<and> tc_hasClose c \<and> ch_readCallback (tc_channel c) = Some () \<and> (tc_state c \<noteq> kDisconnected \<longrightarrow> map_find nm (srv_connections s) = Some oid))"

definition server_inv :: "TcpServer \<Rightarrow> bool" where
  "server_inv s \<longleftrightarrow>
     srv_nextConnId s = int (length (objs s)) + 1 \<and> srv_nextConnId s < 2 ^ 31 \<and> map_sorted (srv_connections s)
     \<and> (\<forall>oid < length (objs s). entry_ok s oid)
     \<and> (\<forall>nm oid. map_find nm (srv_connections s) = Some oid \<longrightarrow>
          (\<exists>c. live_conn oid s = Some c \<and> live_name oid s = nm \<and> tc_state c \<noteq> kDisconnected))"

lemma dec_int_inj: "0 \<le> a \<Longrightarrow> 0 \<le> b \<Longrightarrow> dec_int a = dec_int b \<Longrightarrow> a = b"
  by (auto simp: dec_int_def)

lemma conn_name_fits:
  assumes "0 \<le> k" "k < 2 ^ 31" shows "srv_conn_name nm k = nm @ ''#'' @ dec_int k"
proof -
  have "nat k < 10 ^ 10" using assms by simp
  then have "length (dec_int k) \<le> 10" using assms length_dec_le [of "nat k" 10] by (simp add: dec_int_def)
  then show ?thesis by (simp add: srv_conn_name_def snprintf_fits)
qed

lemma conn_name_inj:
  "0 \<le> a \<Longrightarrow> a < 2 ^ 31 \<Longrightarrow> 0 \<le> b \<Longrightarrow> b < 2 ^ 31 \<Longrightarrow> srv_conn_name nm a = srv_conn_name nm b \<Longrightarrow> a = b"
  using dec_int_inj by (auto simp: conn_name_fits)

lemma map_find_mem: "map_find k m = Some v \<Longrightarrow> (k, v) \<in> set m"
  by (simp add: map_find_def map_of_SomeD)

lemma srv_holds_find: "map_find nm (srv_connections s) = Some oid \<Longrightarrow> srv_holds s oid"
  using map_find_mem by (force simp: srv_holds_def)

lemma entry_live:
  assumes "server_inv s" "live_conn oid s = Some c"
  shows "live_name oid s = srv_conn_name (srv_name s) (int oid + 1)" "pending_ok [] c" "ConnectDestroyed \<notin> set (tc_functors c)"
    "tc_hasClose c \<and> ch_readCallback (tc_channel c) = Some ()" "tc_state c \<noteq> kDisconnected \<Longrightarrow> map_find (live_name oid s) (srv_connections s) = Some oid" "oid < length (objs s)"
proof -
  have o: "oid < length (objs s)" "objs s ! oid = Live (live_name oid s) c" using assms(2) by (simp_all add: live_conn_Some)
  then have "entry_ok s oid" using assms(1) by (simp add: server_inv_def)
  then show "live_name oid s = srv_conn_name (srv_name s) (int oid + 1)" "pending_ok [] c" "ConnectDestroyed \<notin> set (tc_functors c)"
    "tc_hasClose c \<and> ch_readCallback (tc_channel c) = Some ()" "tc_state c \<noteq> kDisconnected \<Longrightarrow> map_find (live_name oid s) (srv_connections s) = Some oid" "oid < length (objs s)"
    using o(1) unfolding entry_ok_def o(2) conn_obj.case by blast+
qed

lemma srv_holds_iff:
  assumes "server_inv s" shows "srv_holds s oid \<longleftrightarrow> (\<exists>nm. map_find nm (srv_connections s) = Some oid)"
proof -
  have "map_sorted (srv_connections s)" using assms by (simp add: server_inv_def)
  then have "distinct (List.map fst (srv_connections s))" by (rule map_sorted_distinct)
  then show ?thesis by (force simp: srv_holds_def map_find_def)
qed

lemma srv_set_conn_simps [simp]:
  "srv_connections (set_conn oid c s) = srv_connections s" "srv_name (set_conn oid c s) = srv_name s"
  "srv_nextConnId (set_conn oid c s) = srv_nextConnId s" "srv_subLoops (set_conn oid c s) = srv_subLoops s"
  "srv_holds (set_conn oid c s) = srv_holds s"
  by (auto simp: set_conn_def srv_holds_def)

text \<open>An object may change as long as its life does not end.\<close>

lemma server_inv_set:
  assumes i: "server_inv s" and c: "live_conn oid s = Some c" and p: "pending_ok [] c'" "same_end c c'"
    and e: "tc_state c \<noteq> kDisconnected \<Longrightarrow> tc_state c' \<noteq> kDisconnected"
  shows "server_inv (set_conn oid c' s)"
proof -
  note l = entry_live [OF i c]
  have "ConnectDestroyed \<notin> set (tc_functors c')" "tc_hasClose c' \<and> ch_readCallback (tc_channel c') = Some ()"
    using l(3,4) p(2) by (auto simp: same_end_def count_list_0_iff)
  then have "entry_ok (set_conn oid c' s) k" if "k < length (objs s)" for k
  proof (cases "k = oid")
    case True
    then show ?thesis using l p e \<open>ConnectDestroyed \<notin> set (tc_functors c')\<close> \<open>tc_hasClose c' \<and> ch_readCallback (tc_channel c') = Some ()\<close>
      by (auto simp: entry_ok_def objs_set_conn same_end_def)
  next
    case False
    then show ?thesis using i that by (auto simp: entry_ok_def objs_set_conn server_inv_def split: conn_obj.splits)
  qed
  moreover have "\<exists>d. live_conn k (set_conn oid c' s) = Some d \<and> live_name k s = nm \<and> tc_state d \<noteq> kDisconnected"
    if "map_find nm (srv_connections s) = Some k" for nm k
  proof -
    obtain d where "live_conn k s = Some d" "live_name k s = nm" "tc_state d \<noteq> kDisconnected"
      using i \<open>map_find nm (srv_connections s) = Some k\<close> unfolding server_inv_def by blast
    then show ?thesis using c e l(6) by (cases "k = oid") auto
  qed
  ultimately show ?thesis using i by (auto simp: server_inv_def)
qed

lemma server_inv_keeps:
  "server_inv s \<Longrightarrow> live_conn oid s = Some c \<Longrightarrow> keeps c c' \<Longrightarrow> server_inv (set_conn oid c' s)"
proof (rule server_inv_set)
  assume "server_inv s" "live_conn oid s = Some c" "keeps c c'"
  then show "pending_ok [] c'" "same_end c c'" "tc_state c \<noteq> kDisconnected \<Longrightarrow> tc_state c' \<noteq> kDisconnected"
    using pending_keeps [OF _ entry_live(2)] keeps_same_end by (simp_all add: keeps_def)
qed

text \<open>Dropping a reference frees only what the map does not hold, which has ended.\<close>

lemma server_release:
  assumes i: "server_inv s" and r: "release srv_holds oid s = Inr s'"
  shows "server_inv s'"
proof -
  obtain c where c: "live_conn oid s = Some c" using r by (cases "live_conn oid s") (auto simp: release_def)
  show ?thesis
  proof (cases "srv_holds s oid \<or> list_ex strong (tc_functors c)")
    case True
    then show ?thesis using r c i by (simp add: release_def)
  next
    case False
    have n: "map_find nm (srv_connections s) \<noteq> Some oid" for nm using False srv_holds_find by blast
    have s': "objs s' = (objs s)[oid := Freed (tc_functors c)]" "srv_connections s' = srv_connections s"
      "srv_name s' = srv_name s" "srv_nextConnId s' = srv_nextConnId s"
      using r c False by (auto simp: release_def rbind_Inr_iff)
    have "entry_ok s' k" if "k < length (objs s)" for k
    proof (cases "k = oid")
      case False
      then have "objs s' ! k = objs s ! k" by (simp add: s')
      moreover have "entry_ok s k" using i that by (simp add: server_inv_def)
      ultimately show ?thesis unfolding entry_ok_def s' by simp
    qed (use that in \<open>simp add: entry_ok_def s'\<close>)
    moreover have "live_conn k s' = live_conn k s \<and> live_name k s' = live_name k s" if "k \<noteq> oid" for k
      using that by (simp add: live_conn_def live_name_def s')
    moreover have "\<exists>d. live_conn k s' = Some d \<and> live_name k s' = nm \<and> tc_state d \<noteq> kDisconnected"
      if m: "map_find nm (srv_connections s) = Some k" for nm k
    proof -
      have "k \<noteq> oid" using m n by blast
      then show ?thesis using i m calculation(2) [of k] unfolding server_inv_def by metis
    qed
    ultimately show ?thesis using i by (simp add: server_inv_def s')
  qed
qed

lemma live_srv_updates [simp]:
  "live_conn oid (srv_connections_update g s) = live_conn oid s" "live_name oid (srv_connections_update g s) = live_name oid s"
  "live_conn oid (srv_subLoops_update h s) = live_conn oid s" "live_name oid (srv_subLoops_update h s) = live_name oid s"
  "live_conn oid (srv_acceptor_update k s) = live_conn oid s" "live_name oid (srv_acceptor_update k s) = live_name oid s"
  "live_conn oid (srv_started_update l s) = live_conn oid s" "live_name oid (srv_started_update l s) = live_name oid s"
  by (simp_all add: live_conn_def live_name_def)

lemma server_inv_other [simp]:
  "server_inv (srv_subLoops_update h s) = server_inv s" "server_inv (srv_acceptor_update k s) = server_inv s"
  "server_inv (srv_started_update l s) = server_inv s"
  by (simp_all add: server_inv_def entry_ok_def cong: conn_obj.case_cong)

text \<open>An entry of the map is the connection's own.\<close>

lemma entry_unique:
  assumes i: "server_inv s" and "live_conn j s = Some d" "live_conn oid s = Some c" "live_name j s = live_name oid s"
  shows "j = oid"
proof -
  have "int j + 1 = int oid + 1"
  proof (rule conn_name_inj)
    show "srv_conn_name (srv_name s) (int j + 1) = srv_conn_name (srv_name s) (int oid + 1)"
      using entry_live(1) [OF i assms(2)] entry_live(1) [OF i assms(3)] assms(4) by simp
  qed (use entry_live(6) [OF i assms(2)] entry_live(6) [OF i assms(3)] i in \<open>auto simp: server_inv_def\<close>)
  then show ?thesis by simp
qed

lemma server_close:
  assumes i: "server_inv s" and c: "live_conn oid s = Some c" and r: "srv_removeConnection oid s = Inr s'"
  shows "server_inv s'"
proof -
  let ?nm = "live_name oid s" and ?m = "map_erase (live_name oid s) (srv_connections s)"
  obtain c' where c': "connectDestroyed True c = Inr c'" and s': "s' = set_conn oid c' (s\<lparr>srv_connections := ?m\<rparr>)"
    using r c by (auto simp: srv_removeConnection_def removeConnectionInLoop_def Let_def rassert_Inr_iff rbind_Inr_iff)
  have k: "keeps (c\<lparr>tc_state := kDisconnected\<rparr>) c'" "tc_state c \<noteq> kConnnecting" using connectDestroyed_keeps [OF c'] by auto
  note l = entry_live [OF i c]
  have o: "entry_ok s' oid"
    using l k unfolding entry_ok_def s'
    by (auto simp: objs_set_conn keeps_def pending_ok_def count_list_0_iff)
  have e: "entry_ok s' j" if j: "j < length (objs s)" "j \<noteq> oid" for j
  proof (cases "live_conn j s")
    case None
    then show ?thesis using j by (auto simp: entry_ok_def s' objs_set_conn live_conn_def split: conn_obj.splits)
  next
    case (Some d)
    then have "live_name j s \<noteq> ?nm" using entry_unique [OF i Some c] j by blast
    moreover have "objs s' ! j = Live (live_name j s) d" using Some j by (simp add: s' objs_set_conn live_conn_Some)
    ultimately show ?thesis using entry_live [OF i Some] unfolding entry_ok_def by (simp add: s')
  qed
  have "\<exists>d. live_conn j s' = Some d \<and> live_name j s' = nm \<and> tc_state d \<noteq> kDisconnected"
    if m: "map_find nm (srv_connections s') = Some j" for nm j
  proof -
    have nm: "nm \<noteq> ?nm" "map_find nm (srv_connections s) = Some j" using m by (auto simp: s' split: if_splits)
    then obtain d where "live_conn j s = Some d" "live_name j s = nm" "tc_state d \<noteq> kDisconnected"
      using i unfolding server_inv_def by blast
    then show ?thesis using nm by (auto simp: s')
  qed
  moreover have "map_sorted (srv_connections s')" using i by (auto simp: s' server_inv_def)
  ultimately show ?thesis using i o e unfolding server_inv_def by (auto simp: s' simp del: map_find_erase)
qed

lemma server_functors_inv:
  assumes i: "server_inv s" and c: "live_conn oid s = Some c"
    and r: "run_functors user w (tc_functors c) (c\<lparr>tc_functors := []\<rparr>) = Inr c'"
  shows "server_inv (set_conn oid c' s)"
proof -
  note l = entry_live [OF i c]
  let ?c = "c\<lparr>tc_functors := []\<rparr>"
  have "pending_ok (tc_functors c) ?c" using l(2) by (simp add: pending_ok_def)
  from run_functors_life [OF r this] l(3)
  have 1: "pending_ok [] c'" "same_end ?c c'" "tc_state c \<noteq> kDisconnected \<Longrightarrow> tc_state c' \<noteq> kDisconnected" by auto
  have "count_list (tc_functors c) ConnectDestroyed = 0" using l(3) by (simp add: count_list_0_iff)
  then have "same_end c c'" using 1(2) by (simp add: same_end_def)
  then show ?thesis using server_inv_set [OF i c] 1 by blast
qed

interpretation so: conn_owner srv_holds srv_removeConnection server_inv
  by unfold_locales
    (fact server_inv_keeps, fact server_release, fact server_close, fact server_functors_inv)

text \<open>A new connection gets the next name, which no entry has.\<close>

lemma server_accept_inv:
  assumes i: "server_inv s" and a: "newConnectionCallback b fd peer s = Inr s'"
  shows "server_inv s'"
proof -
  obtain loop sl conn where g: "getNextLoop (srv_subLoops s) = Inr (loop, sl)" and c: "construct_connection False loop fd = Inr conn"
    and n: "srv_nextConnId s + 1 < 2 ^ 31"
    and s': "s' = s\<lparr>srv_nextConnId := srv_nextConnId s + 1, srv_subLoops := sl,
      objs := objs s @ [Live (srv_conn_name (srv_name s) (srv_nextConnId s))
        (tc_queue ConnectEstablished (srv_set_callbacks (srv_callbacks s) conn))],
      srv_connections := map_put (srv_conn_name (srv_name s) (srv_nextConnId s)) (length (objs s)) (srv_connections s)\<rparr>"
    using a by (auto simp: newConnectionCallback_def Let_def rbind_Inr_iff int32_def in_int32_def split: if_splits)
  let ?k = "length (objs s)" and ?nm = "srv_conn_name (srv_name s) (srv_nextConnId s)"
  let ?c = "tc_queue ConnectEstablished (srv_set_callbacks (srv_callbacks s) conn)"
  have id: "srv_nextConnId s = int ?k + 1" using i by (simp add: server_inv_def)
  have live: "live_conn j s' = (if j = ?k then Some ?c else live_conn j s)"
    "live_name j s' = (if j = ?k then ?nm else live_name j s)" for j
    by (auto simp: live_conn_def live_name_def s' nth_append)
  have conn: "tc_functors conn = [EnableReadInLoop]" "tc_state conn = kConnnecting" "ch_readCallback (tc_channel conn) = Some ()"
    using c by (auto simp: construct_connection_def Let_def tc_queue_def TcpConnection_new_def)
  have fresh: "live_name j s \<noteq> ?nm" if j: "live_conn j s = Some d" for j d
  proof
    assume "live_name j s = ?nm"
    then have "srv_conn_name (srv_name s) (int j + 1) = srv_conn_name (srv_name s) (int ?k + 1)"
      using entry_live(1) [OF i j] id by simp
    moreover have "j < ?k" by (rule entry_live(6) [OF i j])
    ultimately have "int j + 1 = int ?k + 1" using n id by (intro conn_name_inj) auto
    then show False using \<open>j < ?k\<close> by simp
  qed
  have e: "entry_ok s' j" if j: "j < ?k" for j
  proof (cases "live_conn j s")
    case None
    then show ?thesis using j by (auto simp: entry_ok_def s' nth_append live_conn_def split: conn_obj.splits)
  next
    case (Some d)
    have "objs s' ! j = Live (live_name j s) d" using Some j by (simp add: s' nth_append live_conn_Some)
    then show ?thesis using fresh [OF Some] entry_live [OF i Some] unfolding entry_ok_def by (simp add: s')
  qed
  have "entry_ok s' ?k"
    unfolding entry_ok_def
    by (simp add: s' id pending_ok_def tc_queue_def srv_set_callbacks_def conn split: prod.splits)
  then have "entry_ok s' j" if "j < length (objs s')" for j
    using e [of j] that by (cases "j = ?k") (auto simp: s')
  moreover have "\<exists>d. live_conn j s' = Some d \<and> live_name j s' = nm \<and> tc_state d \<noteq> kDisconnected"
    if m: "map_find nm (srv_connections s') = Some j" for nm j
  proof (cases "nm = ?nm")
    case True
    then have "j = ?k" using m by (simp add: s')
    then show ?thesis using True conn by (simp add: live tc_queue_def srv_set_callbacks_def split: prod.splits)
  next
    case False
    then have "map_find nm (srv_connections s) = Some j" using m by (simp add: s')
    then obtain d where d: "live_conn j s = Some d" "live_name j s = nm" "tc_state d \<noteq> kDisconnected"
      using i unfolding server_inv_def by blast
    moreover have "j < ?k" by (rule entry_live(6) [OF i d(1)])
    ultimately show ?thesis by (simp add: live)
  qed
  moreover have "map_sorted (srv_connections s')" using i by (auto simp: s' server_inv_def)
  ultimately show ?thesis using id n by (simp add: server_inv_def s')
qed

definition server_init :: "TcpServer \<Rightarrow> bool" where
  "server_init s \<longleftrightarrow>
     (\<exists>started loop addr name fd ret cbs s0. TcpServer_new started loop addr name fd ret = Inr s0 \<and> s = s0\<lparr>srv_callbacks := cbs\<rparr>)"

lemma server_inv_init: "server_init s \<Longrightarrow> server_inv s"
  by (auto simp: server_init_def TcpServer_new_def rbind_Inr_iff server_inv_def)

lemma server_step_inv:
  assumes "server_inv s" "server_step user s s'" shows "server_inv s'"
  using assms(2)
proof cases
  case (server_start ret)
  then show ?thesis using assms(1)
    by (auto simp: srv_start_def Let_def rbind_Inr_iff split: if_splits)
next
  case (server_threads n)
  then show ?thesis using assms(1) by (auto simp: srv_setThreadNum_def)
next
  case (server_accept connfd peer closed)
  then show ?thesis using assms(1) server_accept_inv
    by (auto simp: ac_handleRead_def Let_def rbind_Inr_iff split: prod.splits if_splits)
next
  case (server_event oid c revents r w t)
  then show ?thesis using so.event_inv assms(1) by blast
next
  case (server_functors w oid)
  then show ?thesis using so.functors_inv assms(1) by blast
next
  case (server_other_thread oid c message w c')
  then show ?thesis using server_inv_keeps [OF assms(1)] keeps_send keeps_shutdown by blast
qed (use assms(1) in simp)

interpretation ss: invariant_system server_init "server_step user" server_inv for user
  by unfold_locales (fact server_inv_init, fact server_step_inv)

section \<open>Round robin\<close>

fun accept_all :: "(int \<times> sockaddr_in) list \<Rightarrow> TcpServer \<Rightarrow> TcpServer res" where
  "accept_all [] s = Inr s"
| "accept_all ((fd, peer) # peers) s = rbind (newConnectionCallback True fd peer s) (accept_all peers)"

text \<open>All sub-loops are there.\<close>

definition loops_ready :: "SubLoops \<Rightarrow> bool" where
  "loops_ready sl \<longleftrightarrow>
     0 < sl_numThreads sl \<and> sl_numThreads sl = int (length (sl_loops sl)) \<and> sl_numThreads sl < 2 ^ 31
     \<and> 0 \<le> sl_next sl \<and> sl_next sl < sl_numThreads sl"

lemma smod_pos: "0 \<le> a \<Longrightarrow> 0 < b \<Longrightarrow> a smod b = a mod (b :: int)"
  by (simp add: signed_modulo_int_def zsgn_def minus_div_mult_eq_mod signed_divide_int_def)

lemma getNextLoop_ready:
  assumes "loops_ready sl"
  shows "getNextLoop sl = Inr (sl_loops sl ! nat ((sl_next sl + 1) mod sl_numThreads sl),
      sl\<lparr>sl_next := (sl_next sl + 1) mod sl_numThreads sl\<rparr>)
    \<and> loops_ready (sl\<lparr>sl_next := (sl_next sl + 1) mod sl_numThreads sl\<rparr>)"
proof -
  have "0 \<le> (sl_next sl + 1) mod sl_numThreads sl" "(sl_next sl + 1) mod sl_numThreads sl < sl_numThreads sl"
    using assms by (auto simp: loops_ready_def intro: pos_mod_sign pos_mod_bound simp del: of_nat_less_iff)
  then show ?thesis using assms by (auto simp: getNextLoop_def int32_def in_int32_def loops_ready_def smod_pos Let_def)
qed

text \<open>The loop the connection \<open>oid\<close> was given.\<close>

definition loop_of :: "TcpServer \<Rightarrow> nat \<Rightarrow> nat option" where
  "loop_of s oid = map_option (\<lambda>c. ch_loop (tc_channel c)) (live_conn oid s)"

text \<open>A connection as the server has made it, in the loop it was given.\<close>

definition accepted_conn :: "bool \<times> bool \<times> bool \<Rightarrow> nat \<Rightarrow> int \<Rightarrow> TcpConnection" where
  "accepted_conn cbs loop fd = tc_queue ConnectEstablished (srv_set_callbacks cbs (tc_queue EnableReadInLoop (TcpConnection_new loop fd)))"

lemma accept_one:
  assumes r: "loops_ready (srv_subLoops s)" and n: "- (2 ^ 31) \<le> srv_nextConnId s" "srv_nextConnId s + 1 < 2 ^ 31"
  shows "\<exists>s'. newConnectionCallback True fd peer s = Inr s' \<and> length (objs s') = Suc (length (objs s))
    \<and> loop_of s' (length (objs s)) = Some (sl_loops (srv_subLoops s) ! nat ((sl_next (srv_subLoops s) + 1) mod sl_numThreads (srv_subLoops s)))
    \<and> (\<forall>oid < length (objs s). loop_of s' oid = loop_of s oid)
    \<and> srv_subLoops s' = (srv_subLoops s)\<lparr>sl_next := (sl_next (srv_subLoops s) + 1) mod sl_numThreads (srv_subLoops s)\<rparr>
    \<and> srv_nextConnId s' = srv_nextConnId s + 1 \<and> srv_name s' = srv_name s \<and> srv_callbacks s' = srv_callbacks s
    \<and> objs s' = objs s @ [Live (srv_conn_name (srv_name s) (srv_nextConnId s)) (accepted_conn (srv_callbacks s)
        (sl_loops (srv_subLoops s) ! nat ((sl_next (srv_subLoops s) + 1) mod sl_numThreads (srv_subLoops s))) fd)]"
proof -
  have c: "construct_connection False loop fd = Inr (tc_queue EnableReadInLoop (TcpConnection_new loop fd))" for loop
    by (simp add: construct_connection_def)
  let ?sl = "(srv_subLoops s)\<lparr>sl_next := (sl_next (srv_subLoops s) + 1) mod sl_numThreads (srv_subLoops s)\<rparr>"
  let ?loop = "sl_loops (srv_subLoops s) ! nat ((sl_next (srv_subLoops s) + 1) mod sl_numThreads (srv_subLoops s))"
  let ?nm = "srv_conn_name (srv_name s) (srv_nextConnId s)"
  let ?c = "tc_queue ConnectEstablished (srv_set_callbacks (srv_callbacks s) (tc_queue EnableReadInLoop (TcpConnection_new ?loop fd)))"
  let ?s = "s\<lparr>srv_nextConnId := srv_nextConnId s + 1, srv_subLoops := ?sl, objs := objs s @ [Live ?nm ?c],
    srv_connections := map_put ?nm (length (objs s)) (srv_connections s)\<rparr>"
  have "newConnectionCallback True fd peer s = Inr ?s"
    using n getNextLoop_ready [OF r] by (simp add: newConnectionCallback_def int32_def in_int32_def c Let_def)
  moreover have "ch_loop (tc_channel ?c) = ?loop"
    by (simp add: tc_queue_def srv_set_callbacks_def TcpConnection_new_def Channel_new_def split: prod.splits)
  ultimately show ?thesis
    by (intro exI [of _ ?s]) (simp add: loop_of_def live_conn_def nth_append accepted_conn_def)
qed

lemma accept_all_loops:
  assumes "loops_ready (srv_subLoops s)" "- (2 ^ 31) \<le> srv_nextConnId s" "srv_nextConnId s + int (length peers) < 2 ^ 31"
  shows "\<exists>s'. accept_all peers s = Inr s' \<and> length (objs s') = length (objs s) + length peers
    \<and> (\<forall>oid < length (objs s). loop_of s' oid = loop_of s oid)
    \<and> (\<forall>i < length peers. loop_of s' (length (objs s) + i)
        = Some (sl_loops (srv_subLoops s) ! nat ((sl_next (srv_subLoops s) + 1 + int i) mod sl_numThreads (srv_subLoops s))))"
  using assms
proof (induction peers arbitrary: s)
  case (Cons p peers)
  obtain fd peer where p: "p = (fd, peer)" by (cases p)
  let ?sl = "srv_subLoops s" and ?n = "sl_numThreads (srv_subLoops s)"
  obtain t where t: "newConnectionCallback True fd peer s = Inr t" "length (objs t) = Suc (length (objs s))"
      "loop_of t (length (objs s)) = Some (sl_loops ?sl ! nat ((sl_next ?sl + 1) mod ?n))"
      "\<forall>oid < length (objs s). loop_of t oid = loop_of s oid"
      "srv_subLoops t = ?sl\<lparr>sl_next := (sl_next ?sl + 1) mod ?n\<rparr>" "srv_nextConnId t = srv_nextConnId s + 1"
    using accept_one [OF Cons.prems(1,2), of fd peer] Cons.prems(3) by auto
  have "loops_ready (srv_subLoops t)" using getNextLoop_ready [OF Cons.prems(1)] t(5) by simp
  from Cons.IH [OF this] Cons.prems(2,3) t(6)
  obtain s' where s': "accept_all peers t = Inr s'" "length (objs s') = length (objs t) + length peers"
      "\<forall>oid < length (objs t). loop_of s' oid = loop_of t oid"
      "\<forall>i < length peers. loop_of s' (length (objs t) + i)
        = Some (sl_loops ?sl ! nat (((sl_next ?sl + 1) mod ?n + 1 + int i) mod ?n))"
    by (auto simp: t(5))
  have "loop_of s' (length (objs s) + i) = Some (sl_loops ?sl ! nat ((sl_next ?sl + 1 + int i) mod ?n))"
    if i: "i < length (p # peers)" for i
  proof (cases i)
    case 0
    then show ?thesis using s'(3) t(2,3) by simp
  next
    case (Suc j)
    then have "loop_of s' (length (objs s) + i) = Some (sl_loops ?sl ! nat (((sl_next ?sl + 1) mod ?n + 1 + int j) mod ?n))"
      using s'(4) i t(2) by simp
    moreover have "((sl_next ?sl + 1) mod ?n + 1 + int j) mod ?n = (sl_next ?sl + 1 + int i) mod ?n"
      using Suc by (simp add: mod_add_left_eq add.assoc)
    ultimately show ?thesis by simp
  qed
  then show ?case using s' t p by (intro exI [of _ s']) auto
qed simp

text \<open>The connections themselves.\<close>

lemma accept_all_conns:
  assumes "loops_ready (srv_subLoops s)" "- (2 ^ 31) \<le> srv_nextConnId s" "srv_nextConnId s + int (length peers) < 2 ^ 31"
  shows "\<exists>s'. accept_all peers s = Inr s' \<and> length (objs s') = length (objs s) + length peers
    \<and> take (length (objs s)) (objs s') = objs s
    \<and> (\<forall>i < length peers. objs s' ! (length (objs s) + i)
        = Live (srv_conn_name (srv_name s) (srv_nextConnId s + int i)) (accepted_conn (srv_callbacks s)
            (sl_loops (srv_subLoops s) ! nat ((sl_next (srv_subLoops s) + 1 + int i) mod sl_numThreads (srv_subLoops s)))
            (fst (peers ! i))))"
  using assms
proof (induction peers arbitrary: s)
  case (Cons p peers)
  obtain fd peer where p: "p = (fd, peer)" by (cases p)
  let ?sl = "srv_subLoops s" and ?n = "sl_numThreads (srv_subLoops s)"
  let ?o = "Live (srv_conn_name (srv_name s) (srv_nextConnId s)) (accepted_conn (srv_callbacks s) (sl_loops ?sl ! nat ((sl_next ?sl + 1) mod ?n)) fd)"
  obtain t where t: "newConnectionCallback True fd peer s = Inr t" "objs t = objs s @ [?o]"
      "srv_subLoops t = ?sl\<lparr>sl_next := (sl_next ?sl + 1) mod ?n\<rparr>" "srv_nextConnId t = srv_nextConnId s + 1"
      "srv_name t = srv_name s" "srv_callbacks t = srv_callbacks s"
    using accept_one [OF Cons.prems(1,2), of fd peer] Cons.prems(3) by auto
  have "loops_ready (srv_subLoops t)" using getNextLoop_ready [OF Cons.prems(1)] t(3) by simp
  from Cons.IH [OF this] Cons.prems(2,3) t(4)
  obtain s' where s': "accept_all peers t = Inr s'" "length (objs s') = length (objs t) + length peers"
      "take (length (objs t)) (objs s') = objs t"
      "\<forall>i < length peers. objs s' ! (length (objs t) + i)
        = Live (srv_conn_name (srv_name s) (srv_nextConnId s + 1 + int i)) (accepted_conn (srv_callbacks s)
            (sl_loops ?sl ! nat (((sl_next ?sl + 1) mod ?n + 1 + int i) mod ?n)) (fst (peers ! i)))"
    by (auto simp: t(3,5,6))
  have pre: "take (length (objs s)) (objs s') = objs s" "objs s' ! length (objs s) = ?o"
    using s'(2,3) t(2) nth_take [of "length (objs s)" "length (objs t)" "objs s'"] by (auto simp: take_Suc_conv_app_nth)
  have "objs s' ! (length (objs s) + i)
      = Live (srv_conn_name (srv_name s) (srv_nextConnId s + int i)) (accepted_conn (srv_callbacks s)
          (sl_loops ?sl ! nat ((sl_next ?sl + 1 + int i) mod ?n)) (fst ((p # peers) ! i)))"
    if i: "i < length (p # peers)" for i
  proof (cases i)
    case 0
    then show ?thesis using pre(2) p by simp
  next
    case (Suc j)
    moreover have "((sl_next ?sl + 1) mod ?n + 1 + int j) mod ?n = (sl_next ?sl + 1 + int i) mod ?n"
      using Suc by (simp add: mod_add_left_eq add.assoc)
    ultimately show ?thesis using s'(4) i t(2) by (simp add: add.assoc)
  qed
  then show ?case using s'(1,2) pre(1) t p by (intro exI [of _ s']) auto
qed simp

text \<open>Among \<open>n\<close> consecutive numbers each residue occurs once.\<close>

lemma residue_once:
  assumes "0 < n" "0 \<le> k" "k < int n"
  shows "card {i. m \<le> i \<and> i < m + n \<and> (a + int i) mod int n = k} = 1"
proof -
  let ?j = "nat ((k - a - int m) mod int n)"
  have j: "int ?j = (k - a - int m) mod int n" "?j < n" using assms by (auto simp: nat_less_iff)
  have "(a + int (m + ?j)) mod int n = (a + int m + (k - a - int m) mod int n) mod int n" using j(1) by (simp only: of_nat_add add.assoc)
  also have "... = k" using assms by (simp add: mod_add_right_eq)
  finally have e: "(a + int (m + ?j)) mod int n = k" .
  have "i = m + ?j" if "m \<le> i" "i < m + n" "(a + int i) mod int n = k" for i
  proof -
    have "(a + int i) mod int n = (a + int (m + ?j)) mod int n" using that e by simp
    then have "int n dvd (a + int i) - (a + int (m + ?j))" by (rule mod_eq_dvd_iff [THEN iffD1])
    then have "int n dvd int i - int (m + ?j)" by simp
    moreover have "\<bar>int i - int (m + ?j)\<bar> < int n" using that j(2) by linarith
    ultimately have "int i - int (m + ?j) = 0" using zdvd_not_zless by (metis abs_dvd_iff dvd_abs_iff zdvd_not_zless abs_of_nonneg abs_ge_zero zero_less_abs_iff)
    then show ?thesis by linarith
  qed
  then have "{i. m \<le> i \<and> i < m + n \<and> (a + int i) mod int n = k} = {m + ?j}" using e j(2) by auto
  then show ?thesis by simp
qed

lemma residue_share:
  assumes "0 < n" "0 \<le> k" "k < int n"
  shows "m div n \<le> card {i. i < m \<and> (a + int i) mod int n = k} \<and> card {i. i < m \<and> (a + int i) mod int n = k} \<le> m div n + 1"
proof (induction m rule: less_induct)
  case (less m)
  show ?case
  proof (cases "m < n")
    case True
    have "card {i. i < m \<and> (a + int i) mod int n = k} \<le> card {i. 0 \<le> i \<and> i < 0 + n \<and> (a + int i) mod int n = k}"
      by (rule card_mono) (use True in auto)
    then show ?thesis using residue_once [OF assms, of 0 a] True by simp
  next
    case False
    let ?A = "{i. i < m - n \<and> (a + int i) mod int n = k}" and ?B = "{i. m - n \<le> i \<and> i < m - n + n \<and> (a + int i) mod int n = k}"
    have "{i. i < m \<and> (a + int i) mod int n = k} = ?A \<union> ?B" using False by auto
    moreover have "card (?A \<union> ?B) = card ?A + card ?B" by (rule card_Un_disjoint) auto
    moreover have "card ?B = 1" by (rule residue_once [OF assms])
    moreover have "m div n = (m - n) div n + 1" using False assms(1) by (simp add: le_div_geq)
    ultimately show ?thesis using less.IH [of "m - n"] False assms(1) by simp
  qed
qed

text \<open>How many of \<open>m\<close> connections from \<open>k\<close> on are in a loop.\<close>

definition share :: "TcpServer \<Rightarrow> nat \<Rightarrow> nat \<Rightarrow> nat \<Rightarrow> nat" where
  "share s k m loop = card {i. i < m \<and> loop_of s (k + i) = Some loop}"

section \<open>The end of a connection\<close>

lemma interest_registered:
  "tc_registered c \<Longrightarrow> tc_interest k c =
     Inr (c\<lparr>tc_channel := set_index (max 0 (ch_index (tc_channel c))) (set_interest k (tc_channel c)), tc_registered := True,
       tc_asks := tc_asks c @ [AskInterest k]\<rparr>)"
  by (simp add: tc_interest_def)

text \<open>Reading 0 bytes from an open connection with nothing queued that holds it frees it.\<close>

lemma server_peer_close_frees:
  assumes i: "server_inv s" and c: "live_conn oid s = Some c" and st: "tc_state c = kConnected \<or> tc_state c = kDisconnecting"
    and reg: "tc_registered c" and buf: "Buffer_inv (tc_input c)" and q: "\<not> list_ex strong (tc_functors c)"
  shows "\<exists>s'. run_callback srv_holds srv_removeConnection user (ReadvBytes []) w oid () (ReadEvent t) s = Inr s' \<and> live_conn oid s' = None"
proof -
  let ?m = "map_erase (live_name oid s) (srv_connections s)"
  note l = entry_live [OF i c]
  obtain b where b: "readFd (ReadvBytes []) (tc_input c) = Inr (0, None, b)" using readFd_ok [OF buf, of "[]"] by auto
  obtain d where d: "tc_interest DisableAll (c\<lparr>tc_input := b\<rparr>) = Inr d" "tc_registered d" "tc_state d = tc_state c"
      "tc_hasClose d" "tc_functors d = tc_functors c"
    using reg l(4) by (simp add: interest_registered)
  obtain e where e: "connectDestroyed True d = Inr e" "tc_state e = kDisconnected" "tc_functors e = tc_functors c"
    using d st by (auto simp: connectDestroyed_def interest_registered)
  have rm: "srv_removeConnection oid (set_conn oid d s) = Inr (set_conn oid e (s\<lparr>srv_connections := ?m\<rparr>))" (is "_ = Inr ?s")
  proof -
    have "map_find (live_name oid s) (srv_connections s) = Some oid" using l(5) st by auto
    moreover have "set_conn oid e (set_conn oid d s\<lparr>srv_connections := ?m\<rparr>) = set_conn oid e (s\<lparr>srv_connections := ?m\<rparr>)"
      by (simp add: set_conn_def live_name_def)
    ultimately show ?thesis using e(1) l(6)
      by (simp add: srv_removeConnection_def removeConnectionInLoop_def Let_def)
  qed
  have "server_inv ?s"
  proof (rule server_close [OF server_inv_set [OF i c, of d]])
    show "pending_ok [] d" "same_end c d" using l(2) d by (auto simp: pending_ok_def same_end_def)
    show "live_conn oid (set_conn oid d s) = Some d" using l(6) by simp
  qed (use rm d(3) in auto)
  have "\<not> srv_holds ?s oid"
  proof
    assume "srv_holds ?s oid"
    then obtain nm where m: "map_find nm ?m = Some oid" using srv_holds_iff [OF \<open>server_inv ?s\<close>] by auto
    then have "map_find nm (srv_connections s) = Some oid" "nm \<noteq> live_name oid s" by (auto split: if_splits)
    then show False using i unfolding server_inv_def by blast
  qed
  moreover have "live_conn oid ?s = Some e" using l(6) by simp
  ultimately have "release srv_holds oid ?s = Inr (?s\<lparr>objs := (objs ?s)[oid := Freed (tc_functors e)],
      objs_closed := objs_closed ?s @ [ch_fd (tc_channel e)]\<rparr>)" (is "_ = Inr ?t")
    using e q by (intro release_last) auto
  moreover have "live_conn oid ?t = None" using l(6) by (simp add: live_conn_def)
  ultimately obtain s' where s': "release srv_holds oid ?s = Inr s'" "live_conn oid s' = None" by blast
  have "handleClose (close_object srv_holds srv_removeConnection oid s) True (c\<lparr>tc_input := b\<rparr>) = Inr s'"
    using st by (auto simp: handleClose_def d(1,4) close_object_def rm s'(1) simp del: tc_interest_Inr)
  then show ?thesis using s'(2) by (simp add: run_callback_def c handleRead_ret_def b Let_def)
qed

section \<open>An example\<close>

lemma digit_one: "digit (Suc 0) = CHR ''1''"
  by code_simp

text \<open>A server with two sub-loops that accepted one connection, which is established.\<close>

definition example_server :: TcpServer where
  "example_server =
     \<lparr>objs = [], objs_closed = [], srv_name = ''s'', srv_started = True, srv_nextConnId = 1, srv_connections = [],
      srv_subLoops = \<lparr>sl_started = True, sl_numThreads = 2, sl_next = 0, sl_threads = 2, sl_loops = [10, 11]\<rparr>,
      srv_acceptor = \<lparr>ac_channel = enableReading ((Channel_new 0 3)\<lparr>ch_readCallback := Some ()\<rparr>), ac_listening = True\<rparr>,
      srv_ipPort = getIpPort (Endpoint_port 80), srv_callbacks = (True, True, False)\<rparr>"

lemma example_server_reachable: "reachable server_init (server_step user) example_server"
proof -
  let ?a = "\<lparr>ac_channel = (Channel_new 0 3)\<lparr>ch_readCallback := Some ()\<rparr>, ac_listening = False\<rparr>"
  let ?s0 = "example_server\<lparr>srv_started := False, srv_subLoops := SubLoops_new, srv_acceptor := ?a\<rparr>"
  let ?s1 = "?s0\<lparr>srv_subLoops := sl_setThreadNum 2 SubLoops_new\<rparr>"
  let ?s2 = "example_server\<lparr>srv_subLoops := (srv_subLoops example_server)\<lparr>sl_loops := []\<rparr>\<rparr>"
  let ?s3 = "?s2\<lparr>srv_subLoops := sl_thread_ready 10 (srv_subLoops ?s2)\<rparr>"
  let ?s4 = "?s3\<lparr>srv_subLoops := sl_thread_ready 11 (srv_subLoops ?s3)\<rparr>"
  have "server_init ?s0"
    unfolding server_init_def
    by (rule exI [of _ False], rule exI [of _ 0], rule exI [of _ "Endpoint_port 80"], rule exI [of _ "''s''"], rule exI [of _ 3],
        rule exI [of _ 0], rule exI [of _ "(True, True, False)"], rule exI [of _ "?s0\<lparr>srv_callbacks := (False, False, False)\<rparr>"])
      (simp add: TcpServer_new_def Acceptor_new_def createNonblocking_def sockets_bind_def example_server_def)
  then have "reachable server_init (server_step user) ?s0" by (rule reach_init)
  moreover have "server_step user ?s0 ?s1"
    by (rule server_threads [of 2]) (simp add: srv_setThreadNum_def)
  moreover have "server_step user ?s1 ?s2"
    by (rule server_start [of 0])
      (simp add: srv_start_def example_server_def ac_listen_def sockets_listen_def sl_start_def sl_setThreadNum_def SubLoops_new_def)
  moreover have "server_step user ?s2 ?s3" "server_step user ?s3 ?s4" by (rule server_ready)+
  ultimately have "reachable server_init (server_step user) ?s4" using reach_step by meson
  moreover have "?s4 = example_server" by (simp add: example_server_def sl_thread_ready_def)
  ultimately show ?thesis by simp
qed

lemma example_ready: "loops_ready (srv_subLoops example_server)"
  by (simp add: loops_ready_def example_server_def)

lemma example_connection_open:
  "\<exists>s c. reachable server_init (server_step quiet_program) s \<and> live_conn 0 s = Some c \<and> live_name 0 s = ''s#1''
     \<and> tc_state c = kConnected \<and> tc_registered c \<and> tc_input c = Buffer_init \<and> tc_functors c = []"
proof -
  let ?c0 = "tc_queue ConnectEstablished (srv_set_callbacks (True, True, False) (tc_queue EnableReadInLoop (TcpConnection_new 11 7)))"
  let ?s1 = "example_server\<lparr>srv_nextConnId := 2, srv_subLoops := (srv_subLoops example_server)\<lparr>sl_next := 1\<rparr>,
    objs := [Live ''s#1'' ?c0], srv_connections := [(''s#1'', 0)]\<rparr>"
  have nm: "srv_conn_name ''s'' 1 = ''s#1''"
    by (simp add: conn_name_fits dec_int_def dec_small digit_one)
  have "newConnectionCallback True 7 peer example_server = Inr ?s1" for peer
    using getNextLoop_ready [OF example_ready]
    by (simp add: newConnectionCallback_def construct_connection_def Let_def int32_def in_int32_def nm example_server_def)
  then have "ac_handleRead (Some (newConnectionCallback True)) True 7 zero_addr zero_addr example_server = Inr (?s1, [])"
    by (simp add: ac_handleRead_def Socket_accept_def sockets_accept_def Socket_move_def Socket_fd_def Socket_new_def
        Socket_destroy_def Let_def)
  then have "server_step quiet_program example_server ?s1" by (rule server_accept)
  then have r1: "reachable server_init (server_step quiet_program) ?s1"
    using example_server_reachable reach_step by meson
  have c0: "tc_functors ?c0 = [EnableReadInLoop, ConnectEstablished]" "\<not> tc_registered ?c0" "tc_hasConnection ?c0"
      "ch_index (tc_channel ?c0) = -1" "tc_input ?c0 = Buffer_init"
    by (simp_all add: tc_queue_def srv_set_callbacks_def TcpConnection_new_def Channel_new_def)
  obtain c where c: "run_functors quiet_program (\<lambda>f. Wrote 0) (tc_functors ?c0) (?c0\<lparr>tc_functors := []\<rparr>) = Inr c"
      "tc_state c = kConnected" "tc_registered c" "tc_input c = Buffer_init" "tc_functors c = []"
    using c0 by (simp add: enableReadInLoop_def connectEstablished_def tc_interest_def call_user_def quiet_program_def)
  have l: "live_conn 0 ?s1 = Some ?c0" "live_name 0 ?s1 = ''s#1''" by (simp_all add: live_conn_def live_name_def)
  have "object_functors srv_holds quiet_program (\<lambda>f. Wrote 0) 0 ?s1 = Inr (set_conn 0 c ?s1)"
    using c(1) c0(1) by (simp add: object_functors_def release_def srv_holds_def)
  then have "server_step quiet_program ?s1 (set_conn 0 c ?s1)" by (rule server_functors)
  then have "reachable server_init (server_step quiet_program) (set_conn 0 c ?s1)" by (rule reach_step [OF r1])
  moreover have "live_conn 0 (set_conn 0 c ?s1) = Some c" "live_name 0 (set_conn 0 c ?s1) = ''s#1''"
    using l by simp_all
  ultimately show ?thesis using c by blast
qed

section \<open>Properties\<close>

text \<open>C7: The map of the server is exact. In every state the server can reach, whatever the
  connections, their events and the other threads do, the map holds a name exactly when a living
  connection has that name and has not been disconnected. So the assertion of
  \<open>removeConnectionInLoop\<close> never fails: closing an open, registered connection succeeds and takes out
  exactly its own entry.\<close>

theorem server_registry:
  assumes "reachable server_init (server_step user) s"
  shows "(map_find nm (srv_connections s) = Some oid \<longleftrightarrow>
      oid < length (objs s) \<and> (\<exists>c. objs s ! oid = Live nm c \<and> tc_state c \<noteq> kDisconnected))
    \<and> (live_conn oid s = Some c \<and> tc_registered c \<and> (tc_state c = kConnected \<or> tc_state c = kDisconnecting) \<longrightarrow>
      (\<exists>s'. srv_removeConnection oid s = Inr s' \<and> srv_connections s' = map_erase (live_name oid s) (srv_connections s)))"
proof
  have i: "server_inv s" by (rule ss.inv_reachable [OF assms])
  show "map_find nm (srv_connections s) = Some oid \<longleftrightarrow>
      oid < length (objs s) \<and> (\<exists>c. objs s ! oid = Live nm c \<and> tc_state c \<noteq> kDisconnected)"
  proof
    assume "map_find nm (srv_connections s) = Some oid"
    then show "oid < length (objs s) \<and> (\<exists>c. objs s ! oid = Live nm c \<and> tc_state c \<noteq> kDisconnected)"
      using i unfolding server_inv_def live_conn_Some by blast
  next
    assume "oid < length (objs s) \<and> (\<exists>c. objs s ! oid = Live nm c \<and> tc_state c \<noteq> kDisconnected)"
    then obtain d where "oid < length (objs s)" "objs s ! oid = Live nm d" "tc_state d \<noteq> kDisconnected" by blast
    then show "map_find nm (srv_connections s) = Some oid"
      using entry_live(5) [OF i, of oid d] by (simp add: live_conn_def live_name_def)
  qed
  show "live_conn oid s = Some c \<and> tc_registered c \<and> (tc_state c = kConnected \<or> tc_state c = kDisconnecting) \<longrightarrow>
      (\<exists>s'. srv_removeConnection oid s = Inr s' \<and> srv_connections s' = map_erase (live_name oid s) (srv_connections s))"
  proof
    assume c: "live_conn oid s = Some c \<and> tc_registered c \<and> (tc_state c = kConnected \<or> tc_state c = kDisconnecting)"
    then have "map_find (live_name oid s) (srv_connections s) = Some oid" using entry_live(5) [OF i, of oid c] by auto
    moreover have "\<exists>c'. connectDestroyed True c = Inr c'" using c by (auto simp: connectDestroyed_def tc_interest_def)
    ultimately show "\<exists>s'. srv_removeConnection oid s = Inr s' \<and> srv_connections s' = map_erase (live_name oid s) (srv_connections s)"
      using c by (auto simp: srv_removeConnection_def removeConnectionInLoop_def)
  qed
qed

theorem server_registry_witness:
  "\<exists>s. reachable server_init (server_step quiet_program) s \<and> map_find ''s#1'' (srv_connections s) = Some 0
     \<and> (\<exists>s'. srv_removeConnection 0 s = Inr s' \<and> map_find ''s#1'' (srv_connections s') = None)"
proof -
  obtain s c where s: "reachable server_init (server_step quiet_program) s" "live_conn 0 s = Some c" "live_name 0 s = ''s#1''"
      "tc_state c = kConnected" "tc_registered c" using example_connection_open by blast
  from server_registry [OF s(1), of "''s#1''" 0 c] s show ?thesis by (auto simp: live_conn_Some)
qed

text \<open>With all its sub-loops ready the server accepts every connection, hands them out in turn, and
  so keeps the sub-loops balanced: after any number of new connections no sub-loop was given more than
  one of them above any other. (The number of connections is bounded by the \<open>int\<close> that counts them.)\<close>

theorem accept_round_robin:
  assumes "loops_ready (srv_subLoops s)" "1 \<le> srv_nextConnId s" "srv_nextConnId s + int (length peers) < 2 ^ 31"
    and "distinct (sl_loops (srv_subLoops s))"
  shows "\<exists>s'. accept_all peers s = Inr s'
    \<and> (\<forall>i < length peers. loop_of s' (length (objs s) + i)
        = Some (sl_loops (srv_subLoops s) ! nat ((sl_next (srv_subLoops s) + 1 + int i) mod sl_numThreads (srv_subLoops s))))
    \<and> (\<forall>l \<in> set (sl_loops (srv_subLoops s)). \<forall>l' \<in> set (sl_loops (srv_subLoops s)).
        share s' (length (objs s)) (length peers) l \<le> share s' (length (objs s)) (length peers) l' + 1)"
proof -
  let ?ls = "sl_loops (srv_subLoops s)" and ?a = "sl_next (srv_subLoops s) + 1" and ?k = "length (objs s)" and ?m = "length peers"
  have n: "sl_numThreads (srv_subLoops s) = int (length ?ls)" "0 < length ?ls" using assms(1) by (auto simp: loops_ready_def)
  obtain s' where s': "accept_all peers s = Inr s'"
      "\<forall>i < ?m. loop_of s' (?k + i) = Some (?ls ! nat ((?a + int i) mod int (length ?ls)))"
    using accept_all_loops [OF assms(1) _ assms(3)] assms(2) n(1) by auto
  have share: "share s' ?k ?m (?ls ! j) = card {i. i < ?m \<and> (?a + int i) mod int (length ?ls) = int j}" if j: "j < length ?ls" for j
  proof -
    have "?ls ! nat (x mod int (length ?ls)) = ?ls ! j \<longleftrightarrow> x mod int (length ?ls) = int j" for x
    proof -
      have "0 \<le> x mod int (length ?ls)" "nat (x mod int (length ?ls)) < length ?ls" using n(2) by (auto simp: nat_less_iff)
      then show ?thesis using nth_eq_iff_index_eq [OF assms(4)] j by auto
    qed
    then have "{i. i < ?m \<and> loop_of s' (?k + i) = Some (?ls ! j)} = {i. i < ?m \<and> (?a + int i) mod int (length ?ls) = int j}"
      using s'(2) by auto
    then show ?thesis by (simp add: share_def)
  qed
  have "share s' ?k ?m l \<le> share s' ?k ?m l' + 1" if l: "l \<in> set ?ls" "l' \<in> set ?ls" for l l'
  proof -
    obtain j where j: "j < length ?ls" "?ls ! j = l" using l(1) unfolding in_set_conv_nth by blast
    obtain j' where j': "j' < length ?ls" "?ls ! j' = l'" using l(2) unfolding in_set_conv_nth by blast
    show ?thesis
      using residue_share [OF n(2), of "int j" ?m ?a] residue_share [OF n(2), of "int j'" ?m ?a] j(1) j'(1)
      unfolding share [OF j(1), unfolded j(2)] share [OF j'(1), unfolded j'(2)] by simp
  qed
  then show ?thesis using s' n(1) by auto
qed

theorem accept_round_robin_witness:
  "\<exists>s'. accept_all [(7, zero_addr), (8, zero_addr), (9, zero_addr)] example_server = Inr s'
     \<and> loop_of s' 0 = Some 11 \<and> loop_of s' 1 = Some 10 \<and> loop_of s' 2 = Some 11"
proof -
  have e: "loops_ready (srv_subLoops example_server)" "distinct (sl_loops (srv_subLoops example_server))"
    "srv_nextConnId example_server = 1" "objs example_server = []"
    by (simp_all add: loops_ready_def example_server_def)
  obtain s' where s': "accept_all [(7, zero_addr), (8, zero_addr), (9, zero_addr)] example_server = Inr s'"
      "\<forall>i < length [(7 :: int, zero_addr), (8, zero_addr), (9, zero_addr)]. loop_of s' (length (objs example_server) + i)
        = Some (sl_loops (srv_subLoops example_server) ! nat ((sl_next (srv_subLoops example_server) + 1 + int i)
            mod sl_numThreads (srv_subLoops example_server)))"
    using accept_round_robin [OF e(1) _ _ e(2), of "[(7, zero_addr), (8, zero_addr), (9, zero_addr)]"] e(3) by auto
  have "sl_loops (srv_subLoops example_server) = [10, 11]" "sl_next (srv_subLoops example_server) = 0"
    "sl_numThreads (srv_subLoops example_server) = 2" by (simp_all add: example_server_def)
  with s'(2) have "i < 3 \<longrightarrow> loop_of s' i = Some ([10, 11] ! nat ((1 + int i) mod 2))" for i by (simp add: e(4))
  from this [of 0] this [of 1] this [of 2] show ?thesis using s'(1) by simp
qed

text \<open>C8: When the peer closes, the server uses freed memory. The read event of an open connection whose
  peer has closed runs the close callback, which takes the connection out of the map and ends it at
  once; with no functor of it in the queue, the connection and its channel are destroyed when the
  callback returns, inside the channel's \<open>handleEvent\<close>, which then reads the channel.\<close>

theorem server_peer_close_use_after_free:
  assumes "reachable server_init (server_step user) s" and c: "live_conn oid s = Some c"
    and st: "tc_state c = kConnected \<or> tc_state c = kDisconnecting" and reg: "tc_registered c" and buf: "Buffer_inv (tc_input c)"
    and q: "\<not> list_ex strong (tc_functors c)"
  shows "object_event srv_holds srv_removeConnection user POLLIN (ReadvBytes []) w t oid s = Inl UseAfterFree"
proof -
  have i: "server_inv s" by (rule ss.inv_reachable [OF assms(1)])
  let ?c = "c\<lparr>tc_channel := set_revents POLLIN (tc_channel c)\<rparr>"
  let ?s = "set_conn oid ?c s" and ?run = "run_callback srv_holds srv_removeConnection user (ReadvBytes []) w oid"
  have "keeps c ?c" by (simp add: keeps_def set_revents_def)
  then have is': "server_inv ?s" by (rule server_inv_keeps [OF i c])
  have ls: "live_conn oid ?s = Some ?c" using c by (simp add: live_conn_Some)
  obtain s2 where "?run () (ReadEvent t) ?s = Inr s2" "live_conn oid s2 = None"
    using server_peer_close_frees [OF is' ls, of user w t] st reg buf q by auto
  moreover have "due_calls t (tc_channel ?c) = [((), ReadEvent t)]"
    using entry_live(4) [OF i c] by (simp add: due_calls_def due_call_def set_revents_def has_bits_def poll_masks)
  moreover have "looks_like (obj_channel oid) (tc_channel ?c) ?s"
    unfolding looks_like_def obj_channel_def using entry_live(6) [OF i c] by simp
  ultimately show ?thesis
    using c by (simp add: object_event_def handleEvent_after_destroy [where s' = s2] obj_channel_def)
qed

theorem server_peer_close_use_after_free_witness:
  "\<exists>s. reachable server_init (server_step quiet_program) s
     \<and> object_event srv_holds srv_removeConnection quiet_program POLLIN (ReadvBytes []) (Wrote 0) (Timestamp 0) 0 s = Inl UseAfterFree"
proof -
  obtain s c where s: "reachable server_init (server_step quiet_program) s" "live_conn 0 s = Some c"
      "tc_state c = kConnected" "tc_registered c" "tc_input c = Buffer_init" "tc_functors c = []" using example_connection_open by blast
  then have "object_event srv_holds srv_removeConnection quiet_program POLLIN (ReadvBytes []) (Wrote 0) (Timestamp 0) 0 s = Inl UseAfterFree"
    by (intro server_peer_close_use_after_free) (auto intro: Buffer_inv_init)
  then show ?thesis using s(1) by blast
qed

end
