(* ===== verification/HttpConnections.thy ===== *)
theory HttpConnections
  imports HttpServers TcpServers
begin

text \<open>
  \<open>HttpServer\<close> (winterfell/net/http/wf_http_server.h, wf_http_server.cc) on its TCP server: what its
  constructor and setters install, and a connection whose callbacks are the server's. A read of the
  connection goes through the input buffer, the parser, the application and \<open>send\<close> to the bytes the
  system takes; here these are composed, so that the properties speak of the bytes on the wire.
\<close>

section \<open>The server object\<close>

record HttpServer =
  hs_server :: TcpServer
  hs_httpCallback :: HttpCallback

text \<open>The name of the server is not the argument.\<close>

definition HttpServer_new :: "bool \<Rightarrow> nat \<Rightarrow> sockaddr_in \<Rightarrow> char list \<Rightarrow> int \<Rightarrow> int \<Rightarrow> HttpServer res" where
  "HttpServer_new started loop listenEnd name sockfd bind_ret =
     rbind (TcpServer_new started loop listenEnd ''http_server'' sockfd bind_ret) (\<lambda>s.
     Inr \<lparr>hs_server = srv_setMessageCallback (srv_setConnectionCallback s), hs_httpCallback = defaultHttpCallback\<rparr>)"

definition hs_setThreadNum :: "bool \<Rightarrow> int \<Rightarrow> HttpServer \<Rightarrow> HttpServer res" where
  "hs_setThreadNum in_loop n s = rbind (srv_setThreadNum in_loop n (hs_server s)) (\<lambda>t. Inr (s\<lparr>hs_server := t\<rparr>))"

definition hs_setHttpCallback :: "HttpCallback \<Rightarrow> HttpServer \<Rightarrow> HttpServer" where
  "hs_setHttpCallback cb s = s\<lparr>hs_httpCallback := cb\<rparr>"

definition hs_start :: "int \<Rightarrow> HttpServer \<Rightarrow> HttpServer res" where
  "hs_start listen_ret s = rbind (srv_start listen_ret (hs_server s)) (\<lambda>t. Inr (s\<lparr>hs_server := t\<rparr>))"

section \<open>A connection of the server\<close>

record HttpConnection =
  hc_conn :: TcpConnection
  hc_context :: "HttpContext option"

text \<open>The functors the server queued for a new connection run; \<open>onConnection\<close> makes no call on the
  connection, it stores the context.\<close>

definition no_calls :: program where
  "no_calls e c = []"

definition http_establish :: "TcpConnection \<Rightarrow> HttpConnection res" where
  "http_establish c =
     rbind (run_functors no_calls (\<lambda>f. Wrote 0) (tc_functors c) (c\<lparr>tc_functors := []\<rparr>)) (\<lambda>c.
     Inr \<lparr>hc_conn = c, hc_context = http_onConnection (tc_connected c) None\<rparr>)"

fun http_call :: "write_result \<Rightarrow> conn_call \<Rightarrow> user_op" where
  "http_call w (Send m) = USend m w"
| "http_call w Shutdown = UShutdown"

text \<open>\<open>TcpConnection::handleRead\<close> with the server's \<open>onMessage\<close> as the message callback; \<open>None\<close> when the
  callback does not return.\<close>

definition http_handleRead ::
  "HttpCallback \<Rightarrow> readv_result \<Rightarrow> write_result \<Rightarrow> Timestamp \<Rightarrow> HttpConnection \<Rightarrow> HttpConnection res option" where
  "http_handleRead cb r w receiveTime h =
     (case readFd r (tc_input (hc_conn h)) of
        Inl e \<Rightarrow> Some (Inl e)
      | Inr (bufsize, err, inp) \<Rightarrow>
          let c = (hc_conn h)\<lparr>tc_input := inp\<rparr> in
          if bufsize > 0 then
            (if tc_hasMessage c then
               map_option (\<lambda>m. rbind m (\<lambda>(calls, context, buf).
                 rbind (user_steps (List.map (http_call w) calls) (c\<lparr>tc_input := buf\<rparr>)) (\<lambda>c.
                 Inr \<lparr>hc_conn = c, hc_context = Some context\<rparr>)))
               (http_onMessage cb receiveTime (hc_context h) inp)
             else Some (Inl BadFunctionCall))
          else if bufsize = 0 then Some (rbind (handleClose close_at_once True c) (\<lambda>c. Inr (h\<lparr>hc_conn := c\<rparr>)))
          else Some (Inr (h\<lparr>hc_conn := handleError c\<rparr>)))"

text \<open>Reads one after the other: their times, their bytes and how much the system takes of an answer.\<close>

fun http_conn_reads :: "HttpCallback \<Rightarrow> (Timestamp \<times> char list \<times> nat) list \<Rightarrow> HttpConnection \<Rightarrow> HttpConnection res option" where
  "http_conn_reads cb [] h = Some (Inr h)"
| "http_conn_reads cb ((t, bytes, n) # reads) h =
     (case http_handleRead cb (ReadvBytes bytes) (Wrote n) t h of
        None \<Rightarrow> None
      | Some (Inl e) \<Rightarrow> Some (Inl e)
      | Some (Inr h) \<Rightarrow> http_conn_reads cb reads h)"

text \<open>What a sequence of calls puts on the wire: after a shutdown nothing is sent.\<close>

fun wire :: "conn_call list \<Rightarrow> char list" where
  "wire [] = []"
| "wire (Send m # cs) = m @ wire cs"
| "wire (Shutdown # cs) = []"

definition http_ready :: "HttpConnection \<Rightarrow> bool" where
  "http_ready h \<longleftrightarrow> conn_inv (hc_conn h) \<and> tc_state (hc_conn h) = kConnected \<and> tc_hasMessage (hc_conn h) \<and> \<not> tc_fin (hc_conn h)
     \<and> contents (tc_output (hc_conn h)) = [] \<and> contents (tc_input (hc_conn h)) = [] \<and> hc_context h = Some HttpContext_new"

section \<open>Calls and the wire\<close>

text \<open>A connection whose output is empty, open or shut down by the server.\<close>

definition quiet :: "TcpConnection \<Rightarrow> bool" where
  "quiet c \<longleftrightarrow> \<not> tc_isWriting c \<and> readableBytes (tc_output c) = 0 \<and> tc_hasMessage c
     \<and> tc_state c = (if tc_fin c then kDisconnecting else kConnected)"

lemma quiet_call:
  assumes "quiet c" "\<forall>m. k = Send m \<longrightarrow> length m \<le> n"
  shows "\<exists>d. user_step (http_call (Wrote n) k) c = Inr d \<and> quiet d \<and> tc_input d = tc_input c
    \<and> tc_fin d = (tc_fin c \<or> k = Shutdown) \<and> tc_sent d = tc_sent c @ (if tc_fin c then [] else wire [k])"
proof (cases k)
  case (Send m)
  then show ?thesis using assms
    by (cases "tc_fin c")
      (auto simp: quiet_def tc_send_def sendInLoop_def sys_write_def min_def tc_queue_def Let_def)
next
  case Shutdown
  then show ?thesis using assms
    by (cases "tc_fin c") (auto simp: quiet_def tc_shutdown_def shutdownInLoop_def Let_def)
qed

lemma quiet_calls:
  "quiet c \<Longrightarrow> \<forall>m. Send m \<in> set ks \<longrightarrow> length m \<le> n \<Longrightarrow>
   \<exists>d. user_steps (List.map (http_call (Wrote n)) ks) c = Inr d \<and> quiet d \<and> tc_input d = tc_input c
    \<and> tc_fin d = (tc_fin c \<or> Shutdown \<in> set ks) \<and> tc_sent d = tc_sent c @ (if tc_fin c then [] else wire ks)"
proof (induction ks arbitrary: c)
  case (Cons k ks)
  obtain d where d: "user_step (http_call (Wrote n) k) c = Inr d" "quiet d" "tc_input d = tc_input c"
    "tc_fin d = (tc_fin c \<or> k = Shutdown)" "tc_sent d = tc_sent c @ (if tc_fin c then [] else wire [k])"
    using quiet_call [OF Cons.prems(1), of k n] Cons.prems(2) by auto
  obtain e where e: "user_steps (List.map (http_call (Wrote n)) ks) d = Inr e" "quiet e" "tc_input e = tc_input d"
    "tc_fin e = (tc_fin d \<or> Shutdown \<in> set ks)" "tc_sent e = tc_sent d @ (if tc_fin d then [] else wire ks)"
    using Cons.IH [OF d(2)] Cons.prems(2) by auto
  have "wire [k] @ (if k = Shutdown then [] else wire ks) = wire (k # ks)" by (cases k) simp_all
  then show ?case using d e by (auto split: if_splits)
qed simp


text \<open>Reads of a connection are the handlers of the server on its buffer, with their calls on the wire.\<close>

lemma conn_reads_serve:
  assumes "quiet (hc_conn h)" "[] \<notin> snd ` set reads"
    and "http_serve cb reads (hc_context h) (tc_input (hc_conn h)) = Some (Inr (calls, ctx, b))"
    and "\<forall>m. Send m \<in> set calls \<longrightarrow> length m \<le> n"
  shows "\<exists>d. http_conn_reads cb (List.map (\<lambda>(t, bytes). (t, bytes, n)) reads) h = Some (Inr \<lparr>hc_conn = d, hc_context = ctx\<rparr>)
    \<and> quiet d \<and> tc_input d = b \<and> tc_fin d = (tc_fin (hc_conn h) \<or> Shutdown \<in> set calls)
    \<and> tc_sent d = tc_sent (hc_conn h) @ (if tc_fin (hc_conn h) then [] else wire calls)"
  using assms
proof (induction reads arbitrary: h calls)
  case Nil
  then show ?case by (cases h) simp
next
  case (Cons rd reads)
  let ?c = "hc_conn h"
  obtain t bytes where rd: "rd = (t, bytes)" by (cases rd)
  obtain k err inp where r: "readFd (ReadvBytes bytes) (tc_input ?c) = Inr (k, err, inp)"
    using Cons.prems(3) by (auto simp: rd split: sum.splits)
  have k: "k > 0" using r Cons.prems(2) by (auto simp: rd readFd_def Let_def rbind_Inr_iff split: if_splits)
  obtain calls1 c1 buf where m: "http_onMessage cb t (hc_context h) inp = Some (Inr (calls1, c1, buf))"
    using Cons.prems(3) r by (auto simp: rd split: option.splits sum.splits)
  obtain calls2 where serve: "http_serve cb reads (Some c1) buf = Some (Inr (calls2, ctx, b))" and calls: "calls = calls1 @ calls2"
    using Cons.prems(3) r m by (auto simp: rd rbind_Inr_iff)
  have "quiet (?c\<lparr>tc_input := buf\<rparr>)" using Cons.prems(1) by (simp add: quiet_def tc_isWriting_def)
  from quiet_calls [OF this, of calls1 n] Cons.prems(4) obtain d where d:
    "user_steps (List.map (http_call (Wrote n)) calls1) (?c\<lparr>tc_input := buf\<rparr>) = Inr d" "quiet d" "tc_input d = buf"
    "tc_fin d = (tc_fin ?c \<or> Shutdown \<in> set calls1)" "tc_sent d = tc_sent ?c @ (if tc_fin ?c then [] else wire calls1)"
    by (auto simp: calls)
  have "?c\<lparr>tc_input := inp, tc_input := buf\<rparr> = ?c\<lparr>tc_input := buf\<rparr>" by simp
  then have "http_handleRead cb (ReadvBytes bytes) (Wrote n) t h = Some (Inr \<lparr>hc_conn = d, hc_context = Some c1\<rparr>)"
    using r k m d(1) Cons.prems(1) by (simp add: http_handleRead_def quiet_def Let_def)
  moreover have "wire calls = wire calls1 @ (if Shutdown \<in> set calls1 then [] else wire calls2)"
    unfolding calls by (induction calls1 rule: wire.induct) auto
  ultimately show ?case
    using Cons.IH [of "\<lparr>hc_conn = d, hc_context = Some c1\<rparr>" calls2] d serve Cons.prems(2,4)
    by (fastforce simp: rd calls)
qed

section \<open>A request in pieces\<close>

definition answer :: "HttpCallback \<Rightarrow> HttpRequest \<Rightarrow> conn_call list" where
  "answer cb q =
     (let response = cb q (HttpResponse_new (wants_close q))
      in Send (response_bytes response) # (if rs_closeConnection response then [Shutdown] else []))"

lemma http_serve_pieces:
  assumes "small_bodies cb" "Buffer_inv b" "parsing c" "reads \<noteq> []" "[] \<notin> snd ` set reads"
    and "\<forall>t. \<exists>q. http_parse t c (contents b @ concat (List.map snd reads)) = Inr (True, \<lparr>ctx_state = kGotAll, ctx_request = q\<rparr>, []) \<and> P q"
  shows "\<exists>q b'. http_serve cb reads (Some c) b = Some (Inr (answer cb q, Some HttpContext_new, b'))
    \<and> P q \<and> Buffer_inv b' \<and> contents b' = []"
  using assms(2-)
proof (induction reads arbitrary: b c)
  case (Cons rd reads)
  obtain t bytes where rd: "rd = (t, bytes)" by (cases rd)
  obtain b1 where b1: "readFd (ReadvBytes bytes) b = Inr (int (length bytes), None, b1)" "Buffer_inv b1"
    "contents b1 = contents b @ bytes"
    using readFd_ok [OF Cons.prems(1)] by blast
  let ?ys = "concat (List.map snd reads)"
  obtain q where q: "http_parse t c (contents b1 @ ?ys) = Inr (True, \<lparr>ctx_state = kGotAll, ctx_request = q\<rparr>, [])" "P q"
    using Cons.prems(5) b1(3) by (auto simp: rd)
  note m = http_onMessage_ok [OF b1(2) Cons.prems(2) assms(1), of t]
  have ng: "ctx_state c \<noteq> kGotAll" using Cons.prems(2) by (auto simp: parsing_def)
  obtain ok' c1 r1 where p: "http_parse t c (contents b1) = Inr (ok', c1, r1)"
    using q(1) http_parse_extend(1) by (cases "http_parse t c (contents b1)") fastforce+
  have ok: "ok'" using http_parse_extend(2) [OF p, of ?ys] q(1) by auto
  show ?case
  proof (cases "getAll c1")
    case True
    from http_parse_extend(2) [OF p, of ?ys] True ng q(1)
    have c1: "c1 = \<lparr>ctx_state = kGotAll, ctx_request = q\<rparr>" and e: "r1 = []" "?ys = []" by auto
    from e(2) Cons.prems(4) have "reads = []" by (cases reads) auto
    moreover obtain b' where "Buffer_inv b'" "contents b' = []"
      "http_onMessage cb t (Some c) b1 = Some (Inr (answer cb q, HttpContext_new, b'))"
      using m p True http_onRequest_ok [OF assms(1), of q] c1 e(1) by (auto simp: answer_def Let_def)
    ultimately show ?thesis using b1(1) q(2) by (auto simp: rd)
  next
    case False
    then obtain b2 where b2: "Buffer_inv b2" "contents b2 = r1" "parsing c1"
      "http_onMessage cb t (Some c) b1 = Some (Inr ([], c1, b2))"
      using m p ok by auto
    have ne: "reads \<noteq> []"
    proof
      assume "reads = []"
      then show False using q(1) p False by (auto simp: getAll_def)
    qed
    have "http_parse t c (contents b1) = Inr (True, c1, r1)" using p ok by simp
    note chunk = http_parse_chunks [OF Cons.prems(2) this False]
    have "\<exists>q. http_parse t2 c1 (contents b2 @ ?ys) = Inr (True, \<lparr>ctx_state = kGotAll, ctx_request = q\<rparr>, []) \<and> P q" for t2
      using chunk [of t2 ?ys] spec [OF Cons.prems(5), of "if ctx_state c1 = kExpectRequestLine then t2 else t"] b1(3) b2(2)
      by (simp add: rd)
    from Cons.IH [OF b2(1,3) ne _ allI [OF this]] Cons.prems(4)
    show ?thesis using b1(1) b2(4) by (auto simp: rd)
  qed
qed simp


lemma http_serve_append:
  "http_serve cb as ctx b = Some (Inr (calls, ctx', b')) \<Longrightarrow>
   http_serve cb (as @ bs) ctx b =
     map_option (\<lambda>m. rbind m (\<lambda>(calls', ctx', b'). Inr (calls @ calls', ctx', b'))) (http_serve cb bs ctx' b')"
proof (induction as arbitrary: ctx b calls)
  case Nil
  then show ?case by (cases "http_serve cb bs ctx b") (auto simp: rbind_def split: sum.splits)
next
  case (Cons a as)
  obtain t bytes where a: "a = (t, bytes)" by (cases a)
  from Cons.prems obtain n err b1 calls1 c1 b2 calls2 where
    "readFd (ReadvBytes bytes) b = Inr (n, err, b1)" "http_onMessage cb t ctx b1 = Some (Inr (calls1, c1, b2))"
    "http_serve cb as (Some c1) b2 = Some (Inr (calls2, ctx', b'))" "calls = calls1 @ calls2"
    by (auto simp: a rbind_Inr_iff split: sum.splits option.splits)
  with Cons.IH [of "Some c1" b2 calls2] show ?case
    by (cases "http_serve cb bs ctx' b'") (auto simp: a rbind_def split: sum.splits)
qed

section \<open>Conversations\<close>

text \<open>A request with its header lines and the reads its bytes arrive in; what the application must be
  given for it.\<close>

type_synonym sent_request = "HttpRequest \<times> (char list \<times> char list) list \<times> (Timestamp \<times> char list) list"

definition sends_request :: "sent_request \<Rightarrow> bool" where
  "sends_request = (\<lambda>(r, hs, reads). wf_request r \<and> (\<forall>h \<in> set hs. wf_header h) \<and> [] \<notin> snd ` set reads
     \<and> concat (List.map snd reads) = print_request r hs)"

definition received :: "sent_request \<Rightarrow> HttpRequest \<Rightarrow> bool" where
  "received = (\<lambda>(r, hs, reads) q. req_method q = req_method r \<and> req_path q = req_path r \<and> req_query q = req_query r
     \<and> req_version q = req_version r \<and> (\<forall>f. getHeader f q = (case map_of (rev hs) f of None \<Rightarrow> [] | Some v \<Rightarrow> v)))"

definition all_reads :: "sent_request list \<Rightarrow> (Timestamp \<times> char list) list" where
  "all_reads rqs = concat (List.map (\<lambda>(r, hs, reads). reads) rqs)"

lemma http_serve_request:
  assumes "small_bodies cb" "Buffer_inv b" "contents b = []" "sends_request rq"
  shows "\<exists>q b'. http_serve cb (all_reads [rq]) (Some HttpContext_new) b = Some (Inr (answer cb q, Some HttpContext_new, b'))
    \<and> received rq q \<and> Buffer_inv b' \<and> contents b' = []"
proof -
  obtain r hs reads where rq: "rq = (r, hs, reads)" by (cases rq) auto
  have wf: "wf_request r" "\<forall>h \<in> set hs. wf_header h" and ne: "[] \<notin> snd ` set reads"
    and pr: "concat (List.map snd reads) = print_request r hs"
    using assms(4) by (auto simp: sends_request_def rq)
  have "received rq (r\<lparr>req_receiveTime := t, req_headers := put_each map_put hs []\<rparr>)" for t
    using sm.find_put_each [of "[]" _ hs] by (simp add: received_def rq getHeader_def split: option.splits)
  then have p: "\<forall>t. \<exists>q. http_parse t HttpContext_new (contents b @ concat (List.map snd reads))
      = Inr (True, \<lparr>ctx_state = kGotAll, ctx_request = q\<rparr>, []) \<and> received rq q"
    using http_parse_printed [OF wf, of _ "[]"] assms(3) pr by auto
  have "reads \<noteq> []" using pr by (auto simp: print_request_def)
  moreover have "parsing HttpContext_new" by (simp add: parsing_def HttpContext_new_def)
  ultimately show ?thesis using http_serve_pieces [OF assms(1,2) _ _ ne p] by (simp add: all_reads_def rq)
qed

lemma http_serve_requests:
  assumes "small_bodies cb" "Buffer_inv b" "contents b = []" "\<forall>rq \<in> set rqs. sends_request rq"
  shows "\<exists>qs b'. http_serve cb (all_reads rqs) (Some HttpContext_new) b
      = Some (Inr (concat (List.map (answer cb) qs), Some HttpContext_new, b'))
    \<and> list_all2 received rqs qs \<and> Buffer_inv b' \<and> contents b' = []"
  using assms(2-)
proof (induction rqs arbitrary: b)
  case Nil
  then show ?case by (auto simp: all_reads_def)
next
  case (Cons rq rqs)
  obtain q b1 where q: "http_serve cb (all_reads [rq]) (Some HttpContext_new) b = Some (Inr (answer cb q, Some HttpContext_new, b1))"
    "received rq q" "Buffer_inv b1" "contents b1 = []"
    using http_serve_request [OF assms(1) Cons.prems(1,2), of rq] Cons.prems(3) by auto
  obtain qs b2 where qs: "http_serve cb (all_reads rqs) (Some HttpContext_new) b1
      = Some (Inr (concat (List.map (answer cb) qs), Some HttpContext_new, b2))"
    "list_all2 received rqs qs" "Buffer_inv b2" "contents b2 = []"
    using Cons.IH [OF q(3,4)] Cons.prems(3) by auto
  have "all_reads (rq # rqs) = all_reads [rq] @ all_reads rqs" by (simp add: all_reads_def)
  then show ?case using http_serve_append [OF q(1), of "all_reads rqs"] q(2) qs
    by (intro exI [of _ "q # qs"] exI [of _ b2]) simp
qed


section \<open>A new connection\<close>

lemma server_callbacks:
  "HttpServer_new started loop e name sockfd b = Inr s \<Longrightarrow> srv_callbacks (hs_server s) = (True, True, False)"
  "hs_setThreadNum in_loop n s = Inr s' \<Longrightarrow> srv_callbacks (hs_server s') = srv_callbacks (hs_server s)"
  "srv_callbacks (hs_server (hs_setHttpCallback cb s)) = srv_callbacks (hs_server s)"
  "hs_start r s = Inr s' \<Longrightarrow> srv_callbacks (hs_server s') = srv_callbacks (hs_server s)"
  by (auto simp: HttpServer_new_def TcpServer_new_def srv_setConnectionCallback_def srv_setMessageCallback_def hs_setThreadNum_def
      srv_setThreadNum_def hs_setHttpCallback_def hs_start_def srv_start_def Let_def rbind_Inr_iff split: if_splits)

lemma no_events_not_writing: "ch_events ch = 0 \<Longrightarrow> \<not> ch_isWriting ch"
  by (simp add: ch_isWriting_def)

text \<open>Once its functors have run, a connection the server accepted is ready.\<close>

lemma new_connection_ready:
  "\<exists>h. http_establish (tc_queue ConnectEstablished (srv_set_callbacks (True, True, False)
      (tc_queue EnableReadInLoop (TcpConnection_new loop fd)))) = Inr h \<and> http_ready h \<and> tc_sent (hc_conn h) = []"
  using Buffer_inv_init
  by (simp add: http_establish_def tc_queue_def srv_set_callbacks_def TcpConnection_new_def enableReadInLoop_def tc_interest_def
      connectEstablished_def call_user_def no_calls_def http_onConnection_def tc_connected_def http_ready_def conn_inv_def closing_def
      tc_isWriting_def no_events_not_writing Channel_new_def Let_def queue_simps)

lemma accepted_ready:
  assumes "srv_callbacks s = (True, True, False)" "newConnectionCallback True fd peer s = Inr s'"
  shows "\<exists>c h. objs s' = objs s @ [Live (srv_conn_name (srv_name s) (srv_nextConnId s)) c]
    \<and> http_establish c = Inr h \<and> http_ready h \<and> tc_sent (hc_conn h) = []"
proof -
  obtain loop conn where "construct_connection False loop fd = Inr conn"
    and s': "objs s' = objs s @ [Live (srv_conn_name (srv_name s) (srv_nextConnId s))
      (tc_queue ConnectEstablished (srv_set_callbacks (srv_callbacks s) conn))]"
    using assms(2) by (auto simp: newConnectionCallback_def rbind_Inr_iff Let_def split: if_splits)
  then have "conn = tc_queue EnableReadInLoop (TcpConnection_new loop fd)"
    by (simp add: construct_connection_def Let_def)
  then show ?thesis using s' new_connection_ready [of loop fd] assms(1) by auto
qed

lemma quiet_ready: "http_ready h \<Longrightarrow> quiet (hc_conn h)"
  using readable_zero by (auto simp: http_ready_def conn_inv_def quiet_def)

lemma http_conversation_ok:
  assumes "small_bodies cb" and "http_ready h" and "\<forall>rq \<in> set rqs. sends_request rq"
    and "\<forall>q close. length (response_bytes (cb q (HttpResponse_new close))) \<le> n"
  shows "\<exists>qs h'. http_conn_reads cb (List.map (\<lambda>(t, bytes). (t, bytes, n)) (all_reads rqs)) h = Some (Inr h')
    \<and> list_all2 received rqs qs
    \<and> tc_sent (hc_conn h') = tc_sent (hc_conn h) @ wire (concat (List.map (answer cb) qs))
    \<and> (tc_fin (hc_conn h') \<longleftrightarrow> (\<exists>q \<in> set qs. Shutdown \<in> set (answer cb q)))
    \<and> contents (tc_input (hc_conn h')) = [] \<and> hc_context h' = Some HttpContext_new"
proof -
  have b: "Buffer_inv (tc_input (hc_conn h))" "contents (tc_input (hc_conn h)) = []" "hc_context h = Some HttpContext_new"
    and fin: "\<not> tc_fin (hc_conn h)"
    using assms(2) by (simp_all add: http_ready_def conn_inv_def)
  obtain qs b' where qs: "http_serve cb (all_reads rqs) (Some HttpContext_new) (tc_input (hc_conn h))
      = Some (Inr (concat (List.map (answer cb) qs), Some HttpContext_new, b'))"
    "list_all2 received rqs qs" "contents b' = []"
    using http_serve_requests [OF assms(1) b(1,2) assms(3)] by blast
  have ne: "[] \<notin> snd ` set (all_reads rqs)"
    using assms(3) by (induction rqs) (auto simp: all_reads_def sends_request_def)
  have fit: "\<forall>m. Send m \<in> set (concat (List.map (answer cb) qs)) \<longrightarrow> length m \<le> n"
    using assms(4) by (auto simp: answer_def Let_def split: if_splits)
  obtain d where "http_conn_reads cb (List.map (\<lambda>(t, bytes). (t, bytes, n)) (all_reads rqs)) h
      = Some (Inr \<lparr>hc_conn = d, hc_context = Some HttpContext_new\<rparr>)"
    "tc_input d = b'" "tc_fin d = (Shutdown \<in> set (concat (List.map (answer cb) qs)))"
    "tc_sent d = tc_sent (hc_conn h) @ wire (concat (List.map (answer cb) qs))"
    using conn_reads_serve [OF quiet_ready [OF assms(2)] ne qs(1) [folded b(3)] fit] fin unfolding b(3) by auto
  with qs(2,3) show ?thesis
    by (intro exI [of _ qs] exI [of _ "\<lparr>hc_conn = d, hc_context = Some HttpContext_new\<rparr>"]) simp
qed

section \<open>Properties\<close>

text \<open>C1: A conversation, end to end. On a new connection of the HTTP server, requests arrive one after the
  other, each in any number of reads, however its bytes are cut. The application is called once for each
  request, with the method, path, query, version and header fields the client sent; the bytes on the
  wire are exactly the printed responses, in the order of the requests, up to and including the first
  that closes; the writing side is shut down exactly if one closes; and nothing is left in the input
  buffer. (The system takes each answer whole, and no read has bytes of two requests.)\<close>

theorem http_conversation:
  assumes "small_bodies cb" and "http_ready h" and "\<forall>rq \<in> set rqs. sends_request rq"
    and "\<forall>q close. length (response_bytes (cb q (HttpResponse_new close))) \<le> n"
  shows "\<exists>qs h'. http_conn_reads cb (List.map (\<lambda>(t, bytes). (t, bytes, n)) (all_reads rqs)) h = Some (Inr h')
    \<and> list_all2 received rqs qs
    \<and> tc_sent (hc_conn h') = tc_sent (hc_conn h) @ wire (concat (List.map (answer cb) qs))
    \<and> (tc_fin (hc_conn h') \<longleftrightarrow> (\<exists>q \<in> set qs. Shutdown \<in> set (answer cb q)))
    \<and> contents (tc_input (hc_conn h')) = [] \<and> hc_context h' = Some HttpContext_new"
  by (rule http_conversation_ok [OF assms])

theorem http_conversation_witness:
  "\<exists>h h'. http_establish (tc_queue ConnectEstablished (srv_set_callbacks (True, True, False)
       (tc_queue EnableReadInLoop (TcpConnection_new 0 5)))) = Inr h
     \<and> http_conn_reads defaultHttpCallback
        [(Timestamp 1, ''GET /a?l'', 200), (Timestamp 2, ''s HTTP/1.1'' @ kCRLF @ kCRLF, 200)] h = Some (Inr h')
     \<and> tc_sent (hc_conn h') = ''HTTP/1.1 404 Not Found'' @ kCRLF @ ''Connection: close'' @ kCRLF @ kCRLF \<and> tc_fin (hc_conn h')"
proof -
  let ?resp = "\<lparr>rs_headers = [], rs_statusCode = k404NotFound, rs_statusMessage = ''Not Found'', rs_closeConnection = True, rs_body = []\<rparr>"
  let ?line = "''HTTP/1.1 404 Not Found'' @ kCRLF @ ''Connection: close'' @ kCRLF @ kCRLF"
  have cb: "defaultHttpCallback q (HttpResponse_new x) = ?resp" for q x
    by (simp add: defaultHttpCallback_def HttpResponse_new_def setCloseConnection_def setStatusMessage_def setStatusCode_def)
  then have small: "small_bodies defaultHttpCallback" by (simp add: small_bodies_def)
  have bytes: "response_bytes ?resp = ?line" by code_simp
  then have ans: "answer defaultHttpCallback q = [Send ?line, Shutdown]" for q by (simp add: answer_def cb)
  obtain h where h: "http_establish (tc_queue ConnectEstablished (srv_set_callbacks (True, True, False)
       (tc_queue EnableReadInLoop (TcpConnection_new 0 5)))) = Inr h" "http_ready h" "tc_sent (hc_conn h) = []"
    using new_connection_ready by blast
  let ?reads = "[(Timestamp 1, ''GET /a?l''), (Timestamp 2, ''s HTTP/1.1'' @ kCRLF @ kCRLF)]"
  have "wf_request example_request" by (simp add: wf_request_def example_request_def HttpRequest_new_def)
  moreover have "concat (List.map snd ?reads) = print_request example_request []" by code_simp
  ultimately have r: "\<forall>rq \<in> set [(example_request, [], ?reads)]. sends_request rq" by (simp add: sends_request_def)
  have "\<forall>q close. length (response_bytes (defaultHttpCallback q (HttpResponse_new close))) \<le> 200"
    unfolding cb bytes by (simp add: kCRLF_def)
  from http_conversation [OF small h(2) r this] h(1,3) show ?thesis
    by (auto simp: all_reads_def ans list_all2_Cons1)
qed

end
