(* ===== verification/FileServers.thy ===== *)
theory FileServers
  imports Applications HttpConnections
begin

text \<open>
  The file server (example/ftp/ftp_server.cc) on its HTTP server, from \<open>main\<close> to the bytes of a listing on
  the wire, and the command loop of the client (example/ftp/ftp_client.cc), whose commands do nothing yet.
\<close>

section \<open>The server\<close>

text \<open>The handler as the callback of the HTTP server, on the requests it returns from.\<close>

definition ftp_callback :: "directory option \<Rightarrow> (char list \<Rightarrow> int \<Rightarrow> char list) \<Rightarrow> HttpCallback" where
  "ftp_callback dir files req resp = (case ftp_onRequest dir files req resp of Inr r \<Rightarrow> r | Inl e \<Rightarrow> resp)"

text \<open>\<open>main\<close> up to \<open>loop()\<close>: what it returns when it ends at once, or the directory and the server. \<open>open_dir\<close> is
  the directory a path names when a request comes.\<close>

definition ftp_main ::
  "char list list \<Rightarrow> (char list \<Rightarrow> directory option) \<Rightarrow> (char list \<Rightarrow> int \<Rightarrow> char list) \<Rightarrow> bool \<Rightarrow> int \<Rightarrow> int \<Rightarrow> int
    \<Rightarrow> (int + char list \<times> HttpServer) res" where
  "ftp_main argv open_dir files started sockfd bind_ret listen_ret =
     (if length argv \<noteq> 2 then Inr (Inl 1)
      else
        let dirPath = argv ! 1 in
        rbind (HttpServer_new started 0 (Endpoint_port 8000) ''ftp'' sockfd bind_ret) (\<lambda>server.
        let server = hs_setHttpCallback (ftp_callback (open_dir dirPath) files) server in
        rbind (hs_setThreadNum True 1 server) (\<lambda>server.
        rbind (hs_start listen_ret server) (\<lambda>server. Inr (Inr (dirPath, server))))))"

section \<open>The client\<close>

text \<open>\<open>ss >> opt\<close>: the first word, empty when there is none.\<close>

definition first_word :: "char list \<Rightarrow> char list" where
  "first_word cmd = takeWhile (\<lambda>c. \<not> isspace c) (skip_space cmd)"

text \<open>What \<open>main\<close> returns and prints on the error stream, for the lines of its input.\<close>

definition ftp_client_main :: "char list list \<Rightarrow> char list list \<Rightarrow> int \<times> char list list" where
  "ftp_client_main argv cmds =
     (if length argv \<noteq> 3 then (1, [''need ./ftp_client ip port''])
      else (0, concat (List.map (\<lambda>cmd. let opt = first_word cmd in
        if opt = ''ls'' then [] else if opt = ''get'' then [] else [''no cmd called '' @ opt]) cmds)))"

section \<open>A listing on the wire\<close>

text \<open>The answer to \<open>?ls\<close>.\<close>

definition listing :: "directory \<Rightarrow> bool \<Rightarrow> HttpResponse" where
  "listing entries close =
     addResponseHeader ''server'' ''ftp'' (setContentType ''text/plain'' (setStatusMessage ''OK'' (setStatusCode k200ok (HttpResponse_new close))))
       \<lparr>rs_body := join_lines (List.map fst (filter listed entries))\<rparr>"

lemma listing_answer:
  "req_query q = ''?ls'' \<Longrightarrow> ftp_callback (Some entries) files q (HttpResponse_new close) = listing entries close"
  by (simp add: ftp_callback_def ftp_onRequest_def list_files_def listing_def setBody_def Let_def)

lemma listing_fields:
  "rs_statusCode (listing entries close) = k200ok" "rs_body (listing entries close) = join_lines (List.map fst (filter listed entries))"
  "rs_closeConnection (listing entries close) = close"
  by (simp_all add: listing_def addResponseHeader_def setContentType_def setStatusMessage_def setStatusCode_def HttpResponse_new_def)

text \<open>A request for a file faults, so the callback has three answers.\<close>

definition not_found :: HttpResponse where
  "not_found = setCloseConnection True (setStatusMessage ''Not Found'' (setStatusCode k404NotFound (HttpResponse_new True)))"

lemma ftp_answers:
  "ftp_callback (Some entries) files q (HttpResponse_new close) \<in> {listing entries close, HttpResponse_new close, not_found}"
proof (cases "req_query q = ''?ls'' \<or> req_query q = ''?get''")
  case True
  then show ?thesis
  proof
    assume "req_query q = ''?get''"
    moreover have "\<exists>flt. rbind (parse_range rng) (\<lambda>(beg, fin). rbind (ftp_read_range (files nm beg) beg fin) f) = Inl flt"
      for rng nm and f :: "char list \<Rightarrow> HttpResponse res"
    proof (cases "parse_range rng")
      case (Inr r)
      then show ?thesis using ftp_read_range_fault [of "files nm (fst r)" "fst r" "snd r"] by (auto simp: split_beta)
    qed simp
    ultimately have "\<exists>flt. ftp_onRequest (Some entries) files q (HttpResponse_new close) = Inl flt"
      by (simp add: ftp_onRequest_def Let_def)
    then show ?thesis by (auto simp: ftp_callback_def)
  qed (simp add: listing_answer)
next
  case False
  then show ?thesis
    by (simp add: ftp_callback_def ftp_onRequest_def not_found_def setCloseConnection_def setStatusMessage_def setStatusCode_def HttpResponse_new_def)
qed

lemma other_lengths: "length (response_bytes (HttpResponse_new close)) \<le> 200" "length (response_bytes not_found) \<le> 200"
proof -
  have "length (response_bytes (HttpResponse_new True)) \<le> 200" "length (response_bytes (HttpResponse_new False)) \<le> 200" by code_simp+
  then show "length (response_bytes (HttpResponse_new close)) \<le> 200" by (cases close) simp_all
  show "length (response_bytes not_found) \<le> 200" by code_simp
qed

lemma ftp_small_bodies:
  assumes "length (join_lines (List.map fst (filter listed entries))) < 10 ^ 13"
  shows "small_bodies (ftp_callback (Some entries) files)"
proof -
  have "rs_body (HttpResponse_new close) = []" "rs_body not_found = []" for close
    by (simp_all add: not_found_def setCloseConnection_def setStatusMessage_def setStatusCode_def HttpResponse_new_def)
  then show ?thesis unfolding small_bodies_def using assms ftp_answers [of entries files] listing_fields(2)
    by (metis insertE length_0_conv singletonD zero_less_numeral zero_less_power)
qed

lemma ftp_main_ok:
  assumes "0 \<le> sockfd" "0 \<le> bind_ret" "0 \<le> listen_ret"
  shows "\<exists>server. ftp_main [prog, path] open_dir files started sockfd bind_ret listen_ret = Inr (Inr (path, server))
    \<and> hs_httpCallback server = ftp_callback (open_dir path) files \<and> ac_listening (srv_acceptor (hs_server server))"
proof -
  obtain s where s: "HttpServer_new started 0 (Endpoint_port 8000) ''ftp'' sockfd bind_ret = Inr s"
    "\<not> ac_listening (srv_acceptor (hs_server s))" "srv_subLoops (hs_server s) = SubLoops_new"
    using assms(1,2) by (simp add: HttpServer_new_def TcpServer_new_def Acceptor_new_def createNonblocking_def sockets_bind_def
        srv_setMessageCallback_def srv_setConnectionCallback_def)
  let ?cb = "ftp_callback (open_dir path) files"
  obtain t where t: "hs_setThreadNum True 1 (hs_setHttpCallback ?cb s) = Inr t" "hs_httpCallback t = ?cb"
    "\<not> ac_listening (srv_acceptor (hs_server t))" "\<not> sl_started (srv_subLoops (hs_server t))"
    using s(2,3) by (simp add: hs_setThreadNum_def hs_setHttpCallback_def srv_setThreadNum_def sl_setThreadNum_def SubLoops_new_def)
  obtain u where "hs_start listen_ret t = Inr u" "hs_httpCallback u = ?cb" "ac_listening (srv_acceptor (hs_server u))"
    using t(2-4) assms(3) by (cases "srv_started (hs_server t)")
      (simp_all add: hs_start_def srv_start_def ac_listen_def sockets_listen_def sl_start_def Let_def)
  then show ?thesis using s(1) t(1) by (simp add: ftp_main_def Let_def)
qed

section \<open>Properties\<close>

text \<open>C22: A listing, from the file system to the wire. When the system gives it a socket and the
  calls on it succeed, \<open>main\<close> leaves a server whose callback is the file server's. The
  conditions: the directory can be read and holds at least one regular file, no name in it is empty or has a
  line feed, the names joined are below 10^13 bytes, and the system takes 200 bytes, and the whole answer,
  in one write. On a new connection of it, a well-formed request with the query \<open>?ls\<close>, however
  its bytes are cut into reads that are not empty and hold nothing else, is then answered with status 200,
  and the body sent, cut at its line breaks, is the regular files of the directory in its order. The
  connection is shut down exactly if the response says that it closes.\<close>

theorem ftp_listing_on_wire:
  assumes "0 \<le> sockfd" and "0 \<le> bind_ret" and "0 \<le> listen_ret" and "open_dir path = Some entries"
    and "http_ready h" and "sends_request (r, hs, reads)" and "req_query r = ''?ls''"
    and "filter listed entries \<noteq> []" and "\<forall>e \<in> set entries. fst e \<noteq> [] \<and> CHR 0x0A \<notin> set (fst e)"
    and "length (join_lines (List.map fst (filter listed entries))) < 10 ^ 13"
    and "200 \<le> n" and "\<forall>close. length (response_bytes (listing entries close)) \<le> n"
  shows "\<exists>server h' resp. ftp_main [prog, path] open_dir files started sockfd bind_ret listen_ret = Inr (Inr (path, server))
    \<and> ac_listening (srv_acceptor (hs_server server))
    \<and> http_conn_reads (hs_httpCallback server) (List.map (\<lambda>(t, bytes). (t, bytes, n)) reads) h = Some (Inr h')
    \<and> tc_sent (hc_conn h') = tc_sent (hc_conn h) @ response_bytes resp \<and> rs_statusCode resp = k200ok
    \<and> split_at_char (CHR 0x0A) (rs_body resp) = List.map fst (filter listed entries)
    \<and> (tc_fin (hc_conn h') \<longleftrightarrow> rs_closeConnection resp)"
proof -
  let ?cb = "ftp_callback (Some entries) files"
  obtain server where server: "ftp_main [prog, path] open_dir files started sockfd bind_ret listen_ret = Inr (Inr (path, server))"
    "hs_httpCallback server = ?cb" "ac_listening (srv_acceptor (hs_server server))"
    using ftp_main_ok [OF assms(1-3)] assms(4) by metis
  have "length (response_bytes (?cb q (HttpResponse_new close))) \<le> n" for q close
    using ftp_answers [of entries files q close] other_lengths(1) [of close] other_lengths(2) assms(11,12) by auto
  then obtain qs h' where h': "http_conn_reads ?cb (List.map (\<lambda>(t, bytes). (t, bytes, n)) (all_reads [(r, hs, reads)])) h = Some (Inr h')"
    "list_all2 received [(r, hs, reads)] qs" "tc_sent (hc_conn h') = tc_sent (hc_conn h) @ wire (concat (List.map (answer ?cb) qs))"
    "tc_fin (hc_conn h') \<longleftrightarrow> (\<exists>q \<in> set qs. Shutdown \<in> set (answer ?cb q))"
    using http_conversation_ok [OF ftp_small_bodies [OF assms(10)] assms(5), where rqs = "[(r, hs, reads)]" and n = n and files1 = files] assms(6) by auto
  then obtain q where q: "qs = [q]" "req_query q = ''?ls''" using assms(7) by (auto simp: list_all2_Cons1 received_def)
  let ?resp = "listing entries (wants_close q)"
  have a: "answer ?cb q = Send (response_bytes ?resp) # (if wants_close q then [Shutdown] else [])"
    using listing_answer [OF q(2)] by (simp add: answer_def listing_fields(3))
  have "split_at_char (CHR 0x0A) (rs_body ?resp) = List.map fst (filter listed entries)"
    unfolding listing_fields(2) by (rule split_join_lines) (use assms(8,9) in auto)
  then show ?thesis using server h'(1,3,4) q a
    by (intro exI [of _ server] exI [of _ h'] exI [of _ ?resp]) (auto simp: all_reads_def listing_fields)
qed

theorem ftp_listing_on_wire_witness:
  "\<exists>server h h' resp. ftp_main [''ftp_server'', ''text''] (\<lambda>p. Some [(''.'', Some False), (''b'', Some True), (''a'', Some True)]) (\<lambda>f b. [])
      False 3 0 0 = Inr (Inr (''text'', server))
    \<and> http_conn_reads (hs_httpCallback server)
        [(Timestamp 1, ''GET /a?l'', 200), (Timestamp 2, ''s HTTP/1.1'' @ kCRLF @ kCRLF, 200)] h = Some (Inr h')
    \<and> tc_sent (hc_conn h) = [] \<and> tc_sent (hc_conn h') = response_bytes resp \<and> split_at_char (CHR 0x0A) (rs_body resp) = [''b'', ''a'']"
proof -
  let ?es = "[(''.'', Some False), (''b'', Some True), (''a'', Some True)]"
  let ?reads = "[(Timestamp 1, ''GET /a?l''), (Timestamp 2, ''s HTTP/1.1'' @ kCRLF @ kCRLF)]"
  have l: "filter listed ?es = [(''b'', Some True), (''a'', Some True)]" by (simp add: listed_def)
  obtain h where h: "http_ready h" "tc_sent (hc_conn h) = []" using new_connection_ready [of 0 5] by blast
  have "wf_request example_request" by (simp add: wf_request_def example_request_def HttpRequest_new_def)
  moreover have "concat (List.map snd ?reads) = print_request example_request []" by code_simp
  ultimately have r: "sends_request (example_request, [], ?reads)" by (simp add: sends_request_def)
  have q: "req_query example_request = ''?ls''" by (simp add: example_request_def)
  have "length (response_bytes (listing ?es True)) \<le> 200" "length (response_bytes (listing ?es False)) \<le> 200" by code_simp+
  then have n: "\<forall>close. length (response_bytes (listing ?es close)) \<le> 200" by (metis (full_types))
  have small: "length (join_lines (List.map fst (filter listed ?es))) < 10 ^ 13" by (simp add: l join_lines_def)
  have ne: "filter listed ?es \<noteq> []" "\<forall>e \<in> set ?es. fst e \<noteq> [] \<and> CHR 0x0A \<notin> set (fst e)" by (simp_all add: listed_def)
  from ftp_listing_on_wire [OF _ _ _ _ h(1) r q ne small _ n, where sockfd = 3 and bind_ret = 0 and listen_ret = 0
      and path = "''text''" and open_dir = "\<lambda>p. Some ?es" and prog = "''ftp_server''" and files = "\<lambda>f b. []" and started = False]
  show ?thesis using h(2) l by auto
qed

end
