(* ===== verification/Logs.thy ===== *)
theory Logs
  imports Formats
begin

text \<open>
  The log (winterfell/base/wf_log.h, wf_log.cc, winterfell/util/wf_singleton.h): the levels and their
  order, the global threshold, the format of a line and the \<open>printf\<close> that prints it, and the abort of
  a \<open>FATAL\<close> line. The text of the time and the thread's id are inputs. What the program printed so far
  is a list of characters.
\<close>

section \<open>Levels\<close>

datatype LoggerLevel = TRACE | DEBUG | INFO | WARN | ERROR | FATAL

text \<open>The values of the enumeration, by which levels are compared.\<close>

fun level_value :: "LoggerLevel \<Rightarrow> nat" where
  "level_value TRACE = 0" | "level_value DEBUG = 1" | "level_value INFO = 2"
| "level_value WARN = 3" | "level_value ERROR = 4" | "level_value FATAL = 5"

lemma level_value_inj: "level_value a = level_value b \<Longrightarrow> a = b"
  by (cases a; cases b) simp_all

instantiation LoggerLevel :: linorder
begin

definition less_eq_LoggerLevel :: "LoggerLevel \<Rightarrow> LoggerLevel \<Rightarrow> bool" where
  "less_eq_LoggerLevel a b \<longleftrightarrow> level_value a \<le> level_value b"

definition less_LoggerLevel :: "LoggerLevel \<Rightarrow> LoggerLevel \<Rightarrow> bool" where
  "less_LoggerLevel a b \<longleftrightarrow> level_value a < level_value b"

instance
  by standard (auto simp: less_eq_LoggerLevel_def less_LoggerLevel_def dest: level_value_inj)

end

fun getLevelString :: "LoggerLevel \<Rightarrow> char list" where
  "getLevelString TRACE = ''TRACE''"
| "getLevelString DEBUG = ''DEBUG''"
| "getLevelString INFO = ''INFO''"
| "getLevelString WARN = ''WARN''"
| "getLevelString ERROR = ''ERROR''"
| "getLevelString FATAL = ''FATAL''"

section \<open>Lines\<close>

text \<open>The global logger; its level is never initialised, and zero as every static object is.\<close>

record Logger = lg_level :: LoggerLevel

definition g_logger :: Logger where
  "g_logger = \<lparr>lg_level = TRACE\<rparr>"

definition setLoggerLevel :: "LoggerLevel \<Rightarrow> Logger \<Rightarrow> Logger" where
  "setLoggerLevel level l = l\<lparr>lg_level := level\<rparr>"

record LoggerEvent =
  le_fmt :: "char list"
  le_ss :: "char list"
  le_level :: LoggerLevel

definition LoggerEvent_new :: "LoggerLevel \<Rightarrow> char list \<Rightarrow> nat \<Rightarrow> char list \<Rightarrow> nat \<Rightarrow> LoggerEvent" where
  "LoggerEvent_new level now thread_id fileName lineno =
     \<lparr>le_fmt = getLevelString level @ '' ['' @ now @ ''] '' @ dec thread_id @ '' '' @ ''%s'' @ '' - '' @ fileName @ '':'' @ dec lineno,
      le_ss = [], le_level = level\<rparr>"

definition c_str :: "char list \<Rightarrow> char list" where
  "c_str s = takeWhile (\<lambda>c. c \<noteq> CHR 0x00) s"

text \<open>\<open>printf\<close> with at most one argument, a string; a conversion without an argument is undefined.\<close>

fun c_printf :: "char list option \<Rightarrow> char list \<Rightarrow> char list res" where
  "c_printf arg [] = Inr []"
| "c_printf arg (c # f) =
     (if c \<noteq> CHR ''%'' then rbind (c_printf arg f) (\<lambda>out. Inr (c # out))
      else case f of
        [] \<Rightarrow> Inl OutOfBounds
      | d # f' \<Rightarrow>
          if d = CHR ''%'' then rbind (c_printf arg f') (\<lambda>out. Inr (d # out))
          else if d = CHR ''s'' then
            (case arg of None \<Rightarrow> Inl OutOfBounds | Some s \<Rightarrow> rbind (c_printf None f') (\<lambda>out. Inr (s @ out)))
          else Inl OutOfBounds)"

text \<open>The destructor of the wrapper prints the line and aborts after a \<open>FATAL\<close> one.\<close>

definition LoggerWrapper_destroy :: "LoggerEvent \<Rightarrow> char list \<Rightarrow> char list \<times> unit res" where
  "LoggerWrapper_destroy e out =
     (case c_printf (Some (c_str (le_ss e))) (c_str (le_fmt e @ [CHR 0x0A])) of
        Inl flt \<Rightarrow> (out, Inl flt)
      | Inr line \<Rightarrow> (out @ line, if le_level e = FATAL then Inl Aborted else Inr ()))"

text \<open>\<open>LOG_LEVEL(level) << text\<close>.\<close>

definition log_stmt ::
  "Logger \<Rightarrow> LoggerLevel \<Rightarrow> char list \<Rightarrow> nat \<Rightarrow> char list \<Rightarrow> nat \<Rightarrow> char list \<Rightarrow> char list \<Rightarrow> char list \<times> unit res" where
  "log_stmt logger level now thread_id fileName lineno message out =
     (if lg_level logger \<le> level
      then LoggerWrapper_destroy ((LoggerEvent_new level now thread_id fileName lineno)\<lparr>le_ss := message\<rparr>) out
      else (out, Inr ()))"

section \<open>Facts\<close>

definition plain :: "char list \<Rightarrow> bool" where
  "plain s \<longleftrightarrow> CHR ''%'' \<notin> set s \<and> CHR 0x00 \<notin> set s"

lemma plain_append [simp]: "plain (a @ b) \<longleftrightarrow> plain a \<and> plain b"
  by (auto simp: plain_def)

lemma plain_Cons [simp]: "plain (c # s) \<longleftrightarrow> c \<noteq> CHR ''%'' \<and> c \<noteq> CHR 0x00 \<and> plain s" "plain []"
  by (auto simp: plain_def)

lemma plain_dec [simp]: "plain (dec n)"
proof -
  have "\<not> is_digit (CHR ''%'')" "\<not> is_digit (CHR 0x00)" by (simp_all add: is_digit_def)
  then show ?thesis using dec_digits by (auto simp: plain_def)
qed

lemma plain_level [simp]: "plain (getLevelString l)"
  by (cases l) (simp_all add: plain_def)

lemma c_str_append: "CHR 0x00 \<notin> set a \<Longrightarrow> c_str (a @ b) = a @ c_str b"
  unfolding c_str_def by (induction a) auto

lemma c_str_id [simp]: "plain s \<Longrightarrow> c_str s = s"
  using c_str_append [of s "[]"] by (simp add: plain_def c_str_def)

lemma printf_plain: "plain a \<Longrightarrow> c_printf arg (a @ f) = rbind (c_printf arg f) (\<lambda>out. Inr (a @ out))"
  by (induction a) (auto simp: plain_def rbind_def split: sum.split)

lemma printf_string: "c_printf (Some s) (''%s'' @ f) = rbind (c_printf None f) (\<lambda>out. Inr (s @ out))"
  by simp

lemma destroy_exact:
  assumes "plain now" "plain fileName"
  shows "LoggerWrapper_destroy ((LoggerEvent_new level now thread_id fileName lineno)\<lparr>le_ss := message\<rparr>) out =
    (out @ getLevelString level @ '' ['' @ now @ ''] '' @ dec thread_id @ '' '' @ c_str message @ '' - '' @ fileName
       @ '':'' @ dec lineno @ [CHR 0x0A],
     if level = FATAL then Inl Aborted else Inr ())"
proof -
  let ?pre = "getLevelString level @ '' ['' @ now @ ''] '' @ dec thread_id @ '' ''"
  let ?post = "'' - '' @ fileName @ '':'' @ dec lineno @ [CHR 0x0A]"
  let ?e = "(LoggerEvent_new level now thread_id fileName lineno)\<lparr>le_ss := message\<rparr>"
  have f: "le_fmt ?e @ [CHR 0x0A] = ?pre @ ''%s'' @ ?post" by (simp add: LoggerEvent_new_def)
  have p: "plain ?pre" "plain ?post" using assms by simp_all
  then have "CHR 0x00 \<notin> set (?pre @ ''%s'' @ ?post)" unfolding plain_def by simp
  then have "c_str (le_fmt ?e @ [CHR 0x0A]) = ?pre @ ''%s'' @ ?post"
    using c_str_append [of "?pre @ ''%s'' @ ?post" "[]"] by (simp only: f append_Nil2) (simp add: c_str_def)
  moreover have "c_printf None ?post = Inr ?post" using printf_plain [OF p(2), of None "[]"] by simp
  ultimately have "c_printf (Some (c_str message)) (c_str (le_fmt ?e @ [CHR 0x0A])) = Inr (?pre @ c_str message @ ?post)"
    by (simp only: printf_plain [OF p(1)] printf_string rbind_simps)
  then show ?thesis by (simp add: LoggerWrapper_destroy_def LoggerEvent_new_def)
qed

section \<open>Properties\<close>

text \<open>A log statement prints its line exactly when its level is at or above the threshold: the level,
  the time, the thread, the text (up to a NUL) whatever characters it has, the file and the line. A
  \<open>FATAL\<close> statement always prints and always aborts, whatever threshold is set; no other one does. The
  text of the time and the name of the file must have no percent sign, as they become part of the
  format.\<close>

theorem log_stmt_exact:
  assumes "plain now" "plain fileName"
  shows "log_stmt logger level now thread_id fileName lineno message out =
    (if level_value (lg_level logger) \<le> level_value level
     then (out @ getLevelString level @ '' ['' @ now @ ''] '' @ dec thread_id @ '' '' @ c_str message @ '' - '' @ fileName
             @ '':'' @ dec lineno @ [CHR 0x0A],
           if level = FATAL then Inl Aborted else Inr ())
     else (out, Inr ()))
   \<and> snd (log_stmt logger FATAL now thread_id fileName lineno message out) = Inl Aborted"
  using destroy_exact [OF assms]
  by (cases "lg_level logger") (simp_all add: log_stmt_def less_eq_LoggerLevel_def)

theorem log_stmt_exact_witness:
  "log_stmt (setLoggerLevel INFO g_logger) WARN ''10:00'' 7 ''a.cc'' 5 ''100%'' [] =
     (''WARN [10:00] '' @ dec 7 @ '' 100% - a.cc:'' @ dec 5 @ [CHR 0x0A], Inr ())"
  using log_stmt_exact [of "''10:00''" "''a.cc''" "setLoggerLevel INFO g_logger" WARN 7 5 "''100%''" "[]"]
  by (simp add: plain_def setLoggerLevel_def c_str_def)

end
