(* ===== verification/Programs.thy ===== *)
theory Programs
  imports Applications TcpServers Logs
begin

text \<open>
  The echo servers as a whole (example/echo/server.cc, example/echo_rate/server.cc), from \<open>main\<close> to the bytes on
  the wire. A callback is the list of calls it makes on its connection; what the system takes of each write
  is a parameter.
\<close>

section \<open>The echo server\<close>

definition echo_program :: "write_result \<Rightarrow> program" where
  "echo_program w e c =
     (case e of OnMessage t \<Rightarrow> [UTakeAll, USend (contents (tc_input c)) w] | _ \<Rightarrow> [])"

text \<open>\<open>main\<close> up to \<open>loop()\<close>: the results of \<open>socket\<close>, \<open>bind\<close> and \<open>listen\<close> are inputs, and what the
  uninitialised \<open>started_\<close> holds.\<close>

definition echo_main :: "bool \<Rightarrow> int \<Rightarrow> int \<Rightarrow> int \<Rightarrow> Logger \<Rightarrow> (Logger \<times> TcpServer) res" where
  "echo_main started sockfd bind_ret listen_ret logger =
     (let logger = setLoggerLevel INFO logger; listenEndpoint = Endpoint_port 8888 in
      rbind (TcpServer_new started 0 listenEndpoint ''tcp_server'' sockfd bind_ret) (\<lambda>s.
      let s = srv_setMessageCallback (srv_setConnectionCallback s) in
      rbind (srv_setThreadNum True 1 s) (\<lambda>s.
      rbind (srv_start listen_ret s) (\<lambda>s. Inr (logger, s)))))"

text \<open>\<open>main\<close> of the rate-limited server: one token each tenth of a second, at most two; the interval is a
  product of doubles that is cut to an integer.\<close>

definition echo_rate_limiter :: "Limiter res" where
  "echo_rate_limiter =
     rbind (cast_int64 (rnd (rnd (1 / 10) * of_int kMicroSecondsPerSecond))) (\<lambda>us. Inr (Limiter_new (Every (Timestamp us)) 2))"

definition echo_rate_main :: "bool \<Rightarrow> int \<Rightarrow> int \<Rightarrow> int \<Rightarrow> Logger \<Rightarrow> (Limiter \<times> Logger \<times> TcpServer) res" where
  "echo_rate_main started sockfd bind_ret listen_ret logger =
     rbind echo_rate_limiter (\<lambda>limiter.
     let logger = setLoggerLevel INFO logger; listenEndpoint = Endpoint_port 8888 in
     rbind (TcpServer_new started 0 listenEndpoint ''tcp_server'' sockfd bind_ret) (\<lambda>s.
     let s = srv_setMessageCallback (srv_setConnectionCallback s) in
     rbind (srv_setThreadNum True 1 s) (\<lambda>s.
     rbind (srv_start listen_ret s) (\<lambda>s. Inr (limiter, logger, s)))))"

text \<open>The reads of a connection: their times, their bytes and how much the system takes of the answer.\<close>

fun echo_conn_reads :: "(Timestamp \<times> char list \<times> nat) list \<Rightarrow> TcpConnection \<Rightarrow> TcpConnection res" where
  "echo_conn_reads [] c = Inr c"
| "echo_conn_reads ((t, bytes, n) # reads) c =
     rbind (handleRead (echo_program (Wrote n)) close_at_once (ReadvBytes bytes) t c) (echo_conn_reads reads)"

text \<open>The calls of the program are those of the handlers.\<close>

lemma echo_program_message:
  assumes "Buffer_inv (tc_input c)" "tc_state c = kConnected"
  shows "call_user (echo_program w) (OnMessage t) True c = echo_onMessage w c"
proof -
  have "user_steps [] = Inr" by (rule ext) simp
  then show ?thesis using retrieveAllAsString_ok [OF assms(1)] assms(2)
    by (simp add: call_user_def echo_program_def echo_onMessage_def tc_connected_def)
qed

lemma echo_program_connect:
  "tc_hasConnection c \<Longrightarrow> tc_connected c \<Longrightarrow> call_user (echo_program w) OnConnection (tc_hasConnection c) c = echo_onConnect c"
  by (simp add: call_user_def echo_program_def echo_onConnect_def)

text \<open>What is set on a connection stays set.\<close>

definition same_callbacks :: "TcpConnection \<Rightarrow> TcpConnection \<Rightarrow> bool" where
  "same_callbacks c c' \<longleftrightarrow> tc_hasMessage c' = tc_hasMessage c \<and> tc_hasWriteComplete c' = tc_hasWriteComplete c
     \<and> tc_hasConnection c' = tc_hasConnection c \<and> tc_hasClose c' = tc_hasClose c"

interpretation cb: conn_closure same_callbacks "\<lambda>st. True"
  by unfold_locales (auto simp: same_callbacks_def tc_queue_def)

lemma echo_round:
  assumes e: "echo_ready c" "tc_hasMessage c" and b: "bytes \<noteq> []" "length bytes \<le> n"
  shows "\<exists>c'. handleRead (echo_program (Wrote n)) close_at_once (ReadvBytes bytes) t c = Inr c' \<and> echo_ready c' \<and> tc_hasMessage c'
    \<and> tc_sent c' = tc_sent c @ bytes"
proof -
  obtain inp where r: "readFd (ReadvBytes bytes) (tc_input c) = Inr (int (length bytes), None, inp)" "Buffer_inv inp"
    using readFd_ok [of "tc_input c" bytes] e by (auto simp: echo_ready_def)
  obtain c' where c': "echo_read bytes (Wrote n) c = Inr c'" "echo_ready c'" "tc_sent c' = tc_sent c @ bytes"
    using echo_one [OF e(1) b(2)] by blast
  have u: "call_user (echo_program (Wrote n)) (OnMessage t) True (c\<lparr>tc_input := inp\<rparr>) = Inr c'"
    using c'(1) r echo_program_message [of "c\<lparr>tc_input := inp\<rparr>"] e(1) by (simp add: echo_read_def echo_ready_def)
  then have "tc_hasMessage c'" using cb.call_user_closed [OF u] e(2) by (simp add: same_callbacks_def)
  then show ?thesis using c'(2,3) u r b(1) e(2) by (simp add: handleRead_eq Let_def)
qed

lemma echo_rounds:
  "echo_ready c \<Longrightarrow> tc_hasMessage c \<Longrightarrow> \<forall>(t, bytes, n) \<in> set reads. bytes \<noteq> [] \<and> length bytes \<le> n \<Longrightarrow>
     \<exists>c'. echo_conn_reads reads c = Inr c' \<and> echo_ready c' \<and> tc_sent c' = tc_sent c @ concat (List.map (\<lambda>(t, bytes, n). bytes) reads)"
proof (induction reads arbitrary: c)
  case (Cons r reads)
  obtain t bytes n where r: "r = (t, bytes, n)" by (cases r)
  then obtain d where d: "handleRead (echo_program (Wrote n)) close_at_once (ReadvBytes bytes) t c = Inr d" "echo_ready d"
    "tc_hasMessage d" "tc_sent d = tc_sent c @ bytes"
    using echo_round [OF Cons.prems(1,2), of bytes n t] Cons.prems(3) by auto
  from Cons.IH [OF d(2,3)] Cons.prems(3) show ?case using d(1,4) r by auto
qed simp

text \<open>The server \<open>main\<close> leaves behind, and a connection it accepts once its one loop has started.\<close>

lemma echo_main_ok:
  assumes "0 \<le> sockfd" "0 \<le> bind_ret" "0 \<le> listen_ret"
  shows "\<exists>s. echo_main started sockfd bind_ret listen_ret logger = Inr (logger\<lparr>lg_level := INFO\<rparr>, s)
    \<and> srv_callbacks s = (True, True, False) \<and> ac_listening (srv_acceptor s) \<and> srv_ipPort s = getIpPort (Endpoint_port 8888)
    \<and> objs s = [] \<and> srv_nextConnId s = 1 \<and> srv_name s = ''tcp_server'' \<and> srv_connections s = []
    \<and> srv_subLoops s = SubLoops_new\<lparr>sl_started := True, sl_threads := 1\<rparr>"
  using assms
  by (simp add: echo_main_def TcpServer_new_def Acceptor_new_def createNonblocking_def sockets_bind_def srv_setThreadNum_def
      sl_setThreadNum_def srv_start_def ac_listen_def sockets_listen_def sl_start_def srv_setMessageCallback_def
      srv_setConnectionCallback_def setLoggerLevel_def SubLoops_new_def Let_def)

lemma new_echo_ready:
  "\<exists>c. run_functors (echo_program w) (\<lambda>f. Wrote 0) [EnableReadInLoop, ConnectEstablished]
        (tc_queue ConnectEstablished (srv_set_callbacks (True, True, False) (tc_queue EnableReadInLoop (TcpConnection_new loop fd)))
          \<lparr>tc_functors := []\<rparr>) = Inr c
     \<and> echo_ready c \<and> tc_hasMessage c \<and> tc_sent c = []"
  using Buffer_inv_init
  by (simp add: tc_queue_def srv_set_callbacks_def TcpConnection_new_def enableReadInLoop_def tc_interest_def connectEstablished_def
      call_user_def echo_program_def echo_ready_def tc_isWriting_def ch_isWriting_def Channel_new_def set_index_def enableReading_def
      queue_simps Let_def)

text \<open>The first connection such a server accepts.\<close>

lemma echo_accept:
  assumes s: "srv_callbacks s = (True, True, False)" "objs s = []" "srv_nextConnId s = 1" "srv_name s = ''tcp_server''"
      "srv_connections s = []" "srv_subLoops s = SubLoops_new\<lparr>sl_started := True, sl_threads := 1\<rparr>"
    and fd: "0 \<le> connfd"
  shows "ac_handleRead (Some (newConnectionCallback True)) True connfd peer garbage s = Inl OutOfBounds"
    and "\<exists>s'. ac_handleRead (Some (newConnectionCallback True)) True connfd peer garbage (s\<lparr>srv_subLoops := sl_thread_ready loop (srv_subLoops s)\<rparr>)
        = Inr (s', []) \<and> map_find ''tcp_server#1'' (srv_connections s') = Some 0
      \<and> live_conn 0 s' = Some (tc_queue ConnectEstablished (srv_set_callbacks (True, True, False)
          (tc_queue EnableReadInLoop (TcpConnection_new loop connfd))))"
proof -
  have sm: "1 smod 1 = (0 :: int)" by (simp add: smod_pos)
  have nm: "srv_conn_name ''tcp_server'' 1 = ''tcp_server#1''" by (simp add: conn_name_fits dec_int_def dec_small digit_one)
  show "ac_handleRead (Some (newConnectionCallback True)) True connfd peer garbage s = Inl OutOfBounds"
    using s fd sm
    by (simp add: ac_handleRead_def Socket_accept_def sockets_accept_def Socket_move_def Socket_fd_def Socket_new_def Let_def
        newConnectionCallback_def int32_def in_int32_def getNextLoop_def SubLoops_new_def)
  show "\<exists>s'. ac_handleRead (Some (newConnectionCallback True)) True connfd peer garbage (s\<lparr>srv_subLoops := sl_thread_ready loop (srv_subLoops s)\<rparr>)
        = Inr (s', []) \<and> map_find ''tcp_server#1'' (srv_connections s') = Some 0
      \<and> live_conn 0 s' = Some (tc_queue ConnectEstablished (srv_set_callbacks (True, True, False)
          (tc_queue EnableReadInLoop (TcpConnection_new loop connfd))))"
    using s fd sm nm
    by (simp add: ac_handleRead_def Socket_accept_def sockets_accept_def Socket_move_def Socket_fd_def Socket_new_def Socket_destroy_def
        Let_def newConnectionCallback_def int32_def in_int32_def getNextLoop_def SubLoops_new_def sl_thread_ready_def
        construct_connection_def live_conn_def map_find_def)
qed

text \<open>The limiter of the second server: ten events a second.\<close>

lemma echo_rate_limiter_value: "echo_rate_limiter = Inr (Limiter_new 10 2)"
proof -
  have 1: "rnd (1 / 10) = of_int 7205759403792794 * 2 powi (-4 - 52)"
    by (rule rnd_eqI) (simp_all add: power_int_minus abs_less_iff)
  have "rnd (rnd (1 / 10) * 1000000) = of_int 6871947673600000 * 2 powi (16 - 52)"
    unfolding 1 by (rule rnd_eqI) (simp_all add: power_int_minus abs_less_iff)
  then have "rnd (rnd (1 / 10) * 1000000) = 100000" by (simp add: power_int_minus)
  moreover have "rnd 100000 = 100000" "rnd 10 = 10" using rnd_int [of 100000] rnd_int [of 10] by simp_all
  ultimately show ?thesis
    by (simp add: echo_rate_limiter_def kMicroSecondsPerSecond_def cast_int64_def trunc_def in_int64_def Every_def)
qed

section \<open>Properties\<close>

text \<open>C12: The echo server, from \<open>main\<close> to the wire. When the system gives it a socket
  and the calls on it succeed, \<open>main\<close> ends in a server that listens on port 8888 and logs from
  INFO on. A connection accepted once the server's one loop has started is entered under the name
  tcp_server#1. When the functors queued for it have run, and as long as each read is not empty and the
  system takes the answer to it whole, whatever is read from it is sent back, byte for byte and in order,
  and both its buffers are empty again. (Of an answer that the system takes only in part the rest waits in
  the output buffer, and \<open>sendInLoop\<close> drops what the program sends while it waits.) A
  connection accepted before the loop has started reads past the end of the vector of loops.\<close>

theorem echo_server_serves:
  assumes "0 \<le> sockfd" and "0 \<le> bind_ret" and "0 \<le> listen_ret" and "0 \<le> connfd"
    and "\<forall>(t, bytes, n) \<in> set reads. bytes \<noteq> [] \<and> length bytes \<le> n"
  shows "\<exists>s. echo_main started sockfd bind_ret listen_ret logger = Inr (logger\<lparr>lg_level := INFO\<rparr>, s)
    \<and> ac_listening (srv_acceptor s) \<and> srv_ipPort s = getIpPort (Endpoint_port 8888)
    \<and> ac_handleRead (Some (newConnectionCallback True)) True connfd peer garbage s = Inl OutOfBounds
    \<and> (\<exists>s' c c1 c2. ac_handleRead (Some (newConnectionCallback True)) True connfd peer garbage
          (s\<lparr>srv_subLoops := sl_thread_ready loop (srv_subLoops s)\<rparr>) = Inr (s', [])
        \<and> map_find ''tcp_server#1'' (srv_connections s') = Some 0 \<and> live_conn 0 s' = Some c
        \<and> run_functors (echo_program w) (\<lambda>f. Wrote 0) (tc_functors c) (c\<lparr>tc_functors := []\<rparr>) = Inr c1
        \<and> echo_conn_reads reads c1 = Inr c2 \<and> tc_sent c2 = concat (List.map (\<lambda>(t, bytes, n). bytes) reads)
        \<and> contents (tc_input c2) = [] \<and> contents (tc_output c2) = [])"
proof -
  obtain s where s: "echo_main started sockfd bind_ret listen_ret logger = Inr (logger\<lparr>lg_level := INFO\<rparr>, s)"
    "srv_callbacks s = (True, True, False)" "ac_listening (srv_acceptor s)" "srv_ipPort s = getIpPort (Endpoint_port 8888)"
    "objs s = []" "srv_nextConnId s = 1" "srv_name s = ''tcp_server''" "srv_connections s = []"
    "srv_subLoops s = SubLoops_new\<lparr>sl_started := True, sl_threads := 1\<rparr>"
    using echo_main_ok [OF assms(1-3)] by blast
  let ?c = "tc_queue ConnectEstablished (srv_set_callbacks (True, True, False) (tc_queue EnableReadInLoop (TcpConnection_new loop connfd)))"
  note a = echo_accept [OF s(2,5-9) assms(4)]
  obtain s' where s': "ac_handleRead (Some (newConnectionCallback True)) True connfd peer garbage
      (s\<lparr>srv_subLoops := sl_thread_ready loop (srv_subLoops s)\<rparr>) = Inr (s', [])"
    "map_find ''tcp_server#1'' (srv_connections s') = Some 0" "live_conn 0 s' = Some ?c"
    using a(2) by blast
  have q: "tc_functors ?c = [EnableReadInLoop, ConnectEstablished]"
    by (simp add: tc_queue_def srv_set_callbacks_def TcpConnection_new_def)
  obtain c1 where c1: "run_functors (echo_program w) (\<lambda>f. Wrote 0) (tc_functors ?c) (?c\<lparr>tc_functors := []\<rparr>) = Inr c1"
    "echo_ready c1" "tc_hasMessage c1" "tc_sent c1 = []"
    using new_echo_ready unfolding q by blast
  obtain c2 where c2: "echo_conn_reads reads c1 = Inr c2" "echo_ready c2" "tc_sent c2 = concat (List.map (\<lambda>(t, bytes, n). bytes) reads)"
    using echo_rounds [OF c1(2,3) assms(5)] c1(4) by auto
  then have "contents (tc_input c2) = []" "contents (tc_output c2) = []" by (simp_all add: echo_ready_def)
  with s(1,3,4) a(1) s' c1(1) c2 show ?thesis by blast
qed

theorem echo_server_serves_witness:
  "\<exists>s s' c c1 c2. echo_main False 3 0 0 g_logger = Inr (g_logger\<lparr>lg_level := INFO\<rparr>, s)
    \<and> ac_handleRead (Some (newConnectionCallback True)) True 7 (Endpoint_port 99) zero_addr (s\<lparr>srv_subLoops := sl_thread_ready 1 (srv_subLoops s)\<rparr>)
        = Inr (s', []) \<and> live_conn 0 s' = Some c
    \<and> run_functors (echo_program (Wrote 0)) (\<lambda>f. Wrote 0) (tc_functors c) (c\<lparr>tc_functors := []\<rparr>) = Inr c1
    \<and> echo_conn_reads [(Timestamp 1, ''hi'', 2), (Timestamp 2, ''there'', 9)] c1 = Inr c2 \<and> tc_sent c2 = ''hithere''"
proof -
  have "\<forall>(t, bytes, n) \<in> set [(Timestamp 1, ''hi'', 2), (Timestamp 2, ''there'', 9)]. bytes \<noteq> [] \<and> length bytes \<le> n" by simp
  from echo_server_serves [OF _ _ _ _ this, where sockfd = 3 and bind_ret = 0 and listen_ret = 0 and connfd = 7 and started = False
      and logger = g_logger and peer = "Endpoint_port 99" and garbage = zero_addr and loop = 1 and w = "Wrote 0"]
  show ?thesis by auto
qed

end
