(* ===== verification/Connectors.thy ===== *)
theory Connectors
  imports StepSystems "HOL-Library.Multiset"
begin

text \<open>
  \<open>Connector\<close> (winterfell/net/wf_connector.h, wf_connector.cc): the client side's attempts to connect.
  The results of \<open>connect\<close> and of \<open>getSocketError\<close> and the descriptors \<open>createNonblocking\<close> returns are
  inputs. The functors the connector queues in its loop and the retry timers it starts are lists in its
  state; its effects on descriptors are recorded.
\<close>

section \<open>State\<close>

text \<open>The source's states \<open>kDisconnected\<close>, \<open>kConnecting\<close> and \<open>kConnected\<close>.\<close>

datatype ConnectorState = CDisconnected | CConnecting | CConnected

datatype connector_functor = StartInLoop | StopInLoop | ResetChannel

text \<open>
  \<open>cn_channel\<close> is the descriptor of the channel, \<open>cn_registered\<close> tells that the poller knows it;
  \<open>cn_timers\<close> are the delays in milliseconds of the retries started and not yet fired.
\<close>

record Connector =
  cn_connect :: bool
  cn_state :: ConnectorState
  cn_channel :: "int option"
  cn_registered :: bool
  cn_retryDelayMs :: int
  cn_functors :: "connector_functor list"
  cn_timers :: "int list"
  cn_created :: "int list"
  cn_closed :: "int list"
  cn_handed :: "int list"

definition kMaxRetryDelayMs :: int where "kMaxRetryDelayMs = 30 * 1000"
definition kInitRetryDelayMs :: int where "kInitRetryDelayMs = 500"

definition Connector_new :: Connector where
  "Connector_new =
     \<lparr>cn_connect = False, cn_state = CDisconnected, cn_channel = None, cn_registered = False,
      cn_retryDelayMs = kInitRetryDelayMs, cn_functors = [], cn_timers = [], cn_created = [], cn_closed = [], cn_handed = []\<rparr>"

section \<open>Operations\<close>

definition cn_queue :: "connector_functor \<Rightarrow> Connector \<Rightarrow> Connector" where
  "cn_queue f c = c\<lparr>cn_functors := cn_functors c @ [f]\<rparr>"

definition cn_close :: "int \<Rightarrow> Connector \<Rightarrow> Connector" where
  "cn_close fd c = c\<lparr>cn_closed := cn_closed c @ [fd]\<rparr>"

definition cn_retry :: "int \<Rightarrow> Connector \<Rightarrow> Connector" where
  "cn_retry sockfd c =
     (let c = (cn_close sockfd c)\<lparr>cn_state := CDisconnected\<rparr> in
      if cn_connect c
      then c\<lparr>cn_timers := cn_timers c @ [cn_retryDelayMs c], cn_retryDelayMs := min (cn_retryDelayMs c * 2) kMaxRetryDelayMs\<rparr>
      else c)"

definition cn_connecting :: "int \<Rightarrow> Connector \<Rightarrow> Connector res" where
  "cn_connecting sockfd c =
     (let c = c\<lparr>cn_state := CConnecting\<rparr> in
      rassert (cn_channel c = None) (Inr (c\<lparr>cn_channel := Some sockfd, cn_registered := True\<rparr>)))"

text \<open>The channel is removed from the poller now and destroyed by a functor later.\<close>

definition removeAndResetChannel :: "Connector \<Rightarrow> (int \<times> Connector) res" where
  "removeAndResetChannel c =
     (case cn_channel c of
        None \<Rightarrow> Inl NullDeref
      | Some sockfd \<Rightarrow>
          rassert (cn_registered c) (Inr (sockfd, cn_queue ResetChannel (c\<lparr>cn_registered := False\<rparr>))))"

definition resetChannel :: "Connector \<Rightarrow> Connector" where
  "resetChannel c = c\<lparr>cn_channel := None\<rparr>"

text \<open>The error numbers, as on Linux: 0, EINPROGRESS, EINTR, EISCONN; then EAGAIN, EADDRINUSE,
  EADDRNOTAVAIL, ECONNREFUSED, ENETUNREACH.\<close>

definition connect_pending :: "int \<Rightarrow> bool" where
  "connect_pending err \<longleftrightarrow> err \<in> {0, 115, 4, 106}"

definition connect_refused :: "int \<Rightarrow> bool" where
  "connect_refused err \<longleftrightarrow> err \<in> {11, 98, 99, 111, 101}"

definition cn_connect_to :: "int \<Rightarrow> int \<Rightarrow> Connector \<Rightarrow> Connector res" where
  "cn_connect_to sockfd savedErrno c =
     (let c = c\<lparr>cn_created := cn_created c @ [sockfd]\<rparr> in
      if connect_pending savedErrno then cn_connecting sockfd c
      else if connect_refused savedErrno then Inr (cn_retry sockfd c)
      else Inr (cn_close sockfd c))"

definition startInLoop :: "bool \<Rightarrow> int \<Rightarrow> int \<Rightarrow> Connector \<Rightarrow> Connector res" where
  "startInLoop in_loop sockfd savedErrno c =
     (if \<not> in_loop then Inl Aborted
      else rassert (cn_state c = CDisconnected)
        (if cn_connect c then cn_connect_to sockfd savedErrno c else Inr c))"

definition cn_start :: "bool \<Rightarrow> int \<Rightarrow> int \<Rightarrow> Connector \<Rightarrow> Connector res" where
  "cn_start in_loop sockfd savedErrno c =
     (let c = c\<lparr>cn_connect := True\<rparr>
      in if in_loop then startInLoop in_loop sockfd savedErrno c else Inr (cn_queue StartInLoop c))"

definition cn_stop :: "Connector \<Rightarrow> Connector" where
  "cn_stop c = cn_queue StopInLoop (c\<lparr>cn_connect := False\<rparr>)"

definition stopInLoop :: "bool \<Rightarrow> Connector \<Rightarrow> Connector res" where
  "stopInLoop in_loop c =
     (if \<not> in_loop then Inl Aborted
      else if cn_state c = CConnecting then
        rbind (removeAndResetChannel (c\<lparr>cn_state := CDisconnected\<rparr>)) (\<lambda>(sockfd, c). Inr (cn_retry sockfd c))
      else Inr c)"

definition cn_restart :: "bool \<Rightarrow> int \<Rightarrow> int \<Rightarrow> Connector \<Rightarrow> Connector res" where
  "cn_restart in_loop sockfd savedErrno c =
     (if \<not> in_loop then Inl Aborted
      else startInLoop in_loop sockfd savedErrno
        (c\<lparr>cn_state := CDisconnected, cn_retryDelayMs := kInitRetryDelayMs, cn_connect := True\<rparr>))"

definition cn_handlewrite :: "int \<Rightarrow> Connector \<Rightarrow> Connector res" where
  "cn_handlewrite err c =
     (if cn_state c = CConnecting then
        rbind (removeAndResetChannel c) (\<lambda>(sockfd, c).
          if err \<noteq> 0 then Inr (cn_retry sockfd c)
          else
            let c = c\<lparr>cn_state := CConnected\<rparr>
            in if cn_connect c then Inr (c\<lparr>cn_handed := cn_handed c @ [sockfd]\<rparr>) else Inr (cn_close sockfd c))
      else rassert (cn_state c = CDisconnected) (Inr c))"

definition cn_handleError :: "int \<Rightarrow> Connector \<Rightarrow> Connector res" where
  "cn_handleError err c =
     (if cn_state c = CConnecting then
        rbind (removeAndResetChannel c) (\<lambda>(sockfd, c). Inr (cn_retry sockfd c))
      else Inr c)"

definition destroy_connector :: "Connector \<Rightarrow> unit res" where
  "destroy_connector c = rassert (cn_channel c = None) (Inr ())"

section \<open>Steps\<close>

text \<open>
  The next functor of the queue runs; a retry timer fires and calls \<open>startInLoop\<close>; the channel of a
  pending connection reports an event, the write event also after the error callback of the same
  dispatch removed the channel; the program starts and stops; the client restarts after its connection
  ended.
\<close>

fun cn_run :: "connector_functor \<Rightarrow> int \<Rightarrow> int \<Rightarrow> Connector \<Rightarrow> Connector res" where
  "cn_run StartInLoop sockfd err c = startInLoop True sockfd err c"
| "cn_run StopInLoop sockfd err c = stopInLoop True c"
| "cn_run ResetChannel sockfd err c = Inr (resetChannel c)"

inductive cn_step :: "Connector \<Rightarrow> Connector res \<Rightarrow> bool" where
  cn_functor: "cn_functors c = f # fs \<Longrightarrow> cn_step c (cn_run f sockfd err (c\<lparr>cn_functors := fs\<rparr>))"
| cn_timer: "cn_timers c = ts @ t # us \<Longrightarrow> cn_step c (startInLoop True sockfd err (c\<lparr>cn_timers := ts @ us\<rparr>))"
| cn_write: "cn_registered c \<or> cn_state c = CDisconnected \<Longrightarrow> cn_step c (cn_handlewrite err c)"
| cn_error: "cn_registered c \<Longrightarrow> cn_step c (cn_handleError err c)"
| cn_start: "cn_step c (cn_start in_loop sockfd err c)"
| cn_stop: "cn_step c (Inr (cn_stop c))"
| cn_restart: "cn_state c = CConnected \<Longrightarrow> cn_step c (cn_restart True sockfd err c)"

inductive_cases cn_step_elim: "cn_step c r"

section \<open>The invariant\<close>

definition cn_owned :: "Connector \<Rightarrow> int multiset" where
  "cn_owned c = (case cn_channel c of Some fd \<Rightarrow> if cn_registered c then {#fd#} else {#} | None \<Rightarrow> {#})"

definition cn_inv :: "Connector \<Rightarrow> bool" where
  "cn_inv c \<longleftrightarrow>
     (cn_state c = CConnecting \<longleftrightarrow> cn_registered c)
     \<and> (cn_registered c \<longrightarrow> cn_channel c \<noteq> None)
     \<and> count_list (cn_functors c) ResetChannel = (if cn_channel c \<noteq> None \<and> \<not> cn_registered c then 1 else 0)
     \<and> mset (cn_created c) = mset (cn_closed c) + mset (cn_handed c) + cn_owned c
     \<and> kInitRetryDelayMs \<le> cn_retryDelayMs c \<and> cn_retryDelayMs c \<le> kMaxRetryDelayMs
     \<and> (\<forall>t \<in> set (cn_timers c). kInitRetryDelayMs \<le> t \<and> t \<le> kMaxRetryDelayMs)"

lemma cn_owned_updates [simp]:
  "cn_owned (cn_connect_update g1 c) = cn_owned c" "cn_owned (cn_state_update g2 c) = cn_owned c"
  "cn_owned (cn_retryDelayMs_update g3 c) = cn_owned c" "cn_owned (cn_functors_update g4 c) = cn_owned c"
  "cn_owned (cn_timers_update g5 c) = cn_owned c" "cn_owned (cn_created_update g5 c) = cn_owned c"
  "cn_owned (cn_closed_update g5 c) = cn_owned c" "cn_owned (cn_handed_update g5 c) = cn_owned c"
  by (simp_all add: cn_owned_def split: option.splits)

lemma cn_inv_init: "c = Connector_new \<Longrightarrow> cn_inv c"
  by (simp add: cn_inv_def Connector_new_def cn_owned_def kInitRetryDelayMs_def kMaxRetryDelayMs_def)

lemma cn_inv_queue: "f \<noteq> ResetChannel \<Longrightarrow> cn_inv c \<Longrightarrow> cn_inv (cn_queue f c)"
  by (simp add: cn_inv_def cn_queue_def)

text \<open>A descriptor that is held, then closed and perhaps retried.\<close>

lemma cn_inv_retry:
  assumes "\<not> cn_registered c" "count_list (cn_functors c) ResetChannel = (if cn_channel c \<noteq> None then 1 else 0)"
    "mset (cn_created c) = mset (cn_closed c) + mset (cn_handed c) + {#fd#}"
    "kInitRetryDelayMs \<le> cn_retryDelayMs c" "cn_retryDelayMs c \<le> kMaxRetryDelayMs"
    "\<forall>t \<in> set (cn_timers c). kInitRetryDelayMs \<le> t \<and> t \<le> kMaxRetryDelayMs"
  shows "cn_inv (cn_retry fd c)"
  using assms by (auto simp: cn_inv_def cn_retry_def cn_close_def cn_owned_def Let_def kInitRetryDelayMs_def kMaxRetryDelayMs_def min_def
      split: option.splits)

lemma removeAndReset_ok:
  assumes "cn_inv c" "cn_registered c"
  obtains fd where "cn_channel c = Some fd"
    "removeAndResetChannel (c\<lparr>cn_state := s\<rparr>) = Inr (fd, cn_queue ResetChannel (c\<lparr>cn_state := s, cn_registered := False\<rparr>))"
    "removeAndResetChannel c = Inr (fd, cn_queue ResetChannel (c\<lparr>cn_registered := False\<rparr>))"
  using assms by (auto simp: cn_inv_def removeAndResetChannel_def)

lemma cn_inv_remove_retry:
  assumes i: "cn_inv c" and r: "cn_registered c" and fd: "cn_channel c = Some fd"
  shows "cn_inv (cn_retry fd (cn_queue ResetChannel (c\<lparr>cn_state := s, cn_registered := False\<rparr>)))"
    "cn_inv (cn_retry fd (cn_queue ResetChannel (c\<lparr>cn_registered := False\<rparr>)))"
  by (rule cn_inv_retry; use i r fd in \<open>auto simp: cn_inv_def cn_queue_def cn_owned_def\<close>)+

lemma cn_inv_startInLoop:
  assumes i: "cn_inv c" and s: "startInLoop b fd err c = Inr c'" shows "cn_inv c'"
proof (cases "cn_connect c")
  case False
  then show ?thesis using i s by (auto simp: startInLoop_def rassert_Inr_iff split: if_splits)
next
  case True
  then have st: "cn_state c = CDisconnected" and t: "cn_connect_to fd err c = Inr c'"
    using s by (auto simp: startInLoop_def rassert_Inr_iff split: if_splits)
  then have nr: "\<not> cn_registered c" using i by (auto simp: cn_inv_def)
  let ?c = "c\<lparr>cn_created := cn_created c @ [fd]\<rparr>"
  consider "connect_pending err" | "\<not> connect_pending err" "connect_refused err" | "\<not> connect_pending err" "\<not> connect_refused err" by blast
  then show ?thesis
  proof cases
    case 1
    then show ?thesis using t i nr by (auto simp: cn_connect_to_def cn_connecting_def rassert_Inr_iff cn_inv_def cn_owned_def)
  next
    case 2
    then have c': "c' = cn_retry fd ?c" using t by (simp add: cn_connect_to_def)
    show ?thesis unfolding c'
      by (rule cn_inv_retry) (use i nr in \<open>auto simp: cn_inv_def cn_owned_def split: option.splits\<close>)
  next
    case 3
    then have "c' = cn_close fd ?c" using t by (simp add: cn_connect_to_def)
    then show ?thesis using i nr st by (auto simp: cn_inv_def cn_owned_def cn_close_def split: option.splits)
  qed
qed

lemma cn_inv_stopInLoop:
  assumes i: "cn_inv c" and s: "stopInLoop b c = Inr c'" shows "cn_inv c'"
proof (cases "cn_state c = CConnecting")
  case False
  then show ?thesis using i s by (auto simp: stopInLoop_def split: if_splits)
next
  case True
  then have r: "cn_registered c" using i by (simp add: cn_inv_def)
  obtain fd where fd: "cn_channel c = Some fd" "removeAndResetChannel (c\<lparr>cn_state := CDisconnected\<rparr>)
     = Inr (fd, cn_queue ResetChannel (c\<lparr>cn_state := CDisconnected, cn_registered := False\<rparr>))"
    using removeAndReset_ok [OF i r] by metis
  then show ?thesis using s True cn_inv_remove_retry(1) [OF i r fd(1)] by (auto simp: stopInLoop_def split: if_splits)
qed

lemma cn_inv_handleError:
  assumes i: "cn_inv c" and s: "cn_handleError err c = Inr c'" shows "cn_inv c'"
proof (cases "cn_state c = CConnecting")
  case True
  then have r: "cn_registered c" using i by (simp add: cn_inv_def)
  obtain fd where fd: "cn_channel c = Some fd" "removeAndResetChannel c = Inr (fd, cn_queue ResetChannel (c\<lparr>cn_registered := False\<rparr>))"
    using removeAndReset_ok [OF i r] by metis
  then show ?thesis using s True cn_inv_remove_retry(2) [OF i r fd(1)] by (auto simp: cn_handleError_def)
qed (use i s in \<open>simp add: cn_handleError_def\<close>)

lemma cn_inv_handlewrite:
  assumes i: "cn_inv c" and s: "cn_handlewrite err c = Inr c'" shows "cn_inv c'"
proof (cases "cn_state c = CConnecting")
  case True
  then have r: "cn_registered c" using i by (simp add: cn_inv_def)
  obtain fd where fd: "cn_channel c = Some fd" "removeAndResetChannel c = Inr (fd, cn_queue ResetChannel (c\<lparr>cn_registered := False\<rparr>))"
    using removeAndReset_ok [OF i r] by metis
  show ?thesis
  proof (cases "err = 0")
    case False
    then show ?thesis using fd s True cn_inv_remove_retry(2) [OF i r fd(1)] by (auto simp: cn_handlewrite_def)
  next
    case err: True
    let ?c = "(cn_queue ResetChannel (c\<lparr>cn_registered := False\<rparr>))\<lparr>cn_state := CConnected\<rparr>"
    have "c' = (if cn_connect c then ?c\<lparr>cn_handed := cn_handed c @ [fd]\<rparr> else cn_close fd ?c)"
      using fd s True err by (simp add: cn_handlewrite_def cn_queue_def Let_def split: if_splits)
    then show ?thesis using i r fd(1) by (auto simp: cn_inv_def cn_queue_def cn_owned_def cn_close_def)
  qed
qed (use i s in \<open>simp add: cn_handlewrite_def rassert_Inr_iff\<close>)

lemma cn_step_inv: "cn_step c (Inr c') \<Longrightarrow> cn_inv c \<Longrightarrow> cn_inv c'"
proof (erule cn_step_elim)
  fix f fs sockfd err
  assume i: "cn_inv c" and fs: "cn_functors c = f # fs" and r: "Inr c' = cn_run f sockfd err (c\<lparr>cn_functors := fs\<rparr>)"
  show "cn_inv c'"
  proof (cases "f = ResetChannel")
    case True
    then show ?thesis using i fs r by (auto simp: cn_inv_def resetChannel_def cn_owned_def split: if_splits option.splits)
  next
    case False
    then have j: "cn_inv (c\<lparr>cn_functors := fs\<rparr>)" using i fs by (simp add: cn_inv_def)
    show ?thesis
      using False r cn_inv_startInLoop [OF j, of True sockfd err c'] cn_inv_stopInLoop [OF j, of True c'] by (cases f) simp_all
  qed
next
  fix ts t us sockfd err
  assume i: "cn_inv c" and ts: "cn_timers c = ts @ t # us" and r: "Inr c' = startInLoop True sockfd err (c\<lparr>cn_timers := ts @ us\<rparr>)"
  have "cn_inv (c\<lparr>cn_timers := ts @ us\<rparr>)" using i ts by (simp add: cn_inv_def)
  then show "cn_inv c'" using r cn_inv_startInLoop by metis
next
  fix b sockfd err assume i: "cn_inv c" and r: "Inr c' = cn_start b sockfd err c"
  have j: "cn_inv (c\<lparr>cn_connect := True\<rparr>)" using i by (simp add: cn_inv_def)
  show "cn_inv c'"
    using r cn_inv_startInLoop [OF j, of True sockfd err c'] cn_inv_queue [OF _ j, of StartInLoop]
    by (auto simp: cn_start_def Let_def split: if_splits)
next
  assume i: "cn_inv c" and r: "Inr c' = Inr (cn_stop c)"
  have "cn_inv (c\<lparr>cn_connect := False\<rparr>)" using i by (simp add: cn_inv_def)
  then show "cn_inv c'" using r cn_inv_queue [of StopInLoop] by (simp add: cn_stop_def)
next
  fix sockfd err assume i: "cn_inv c" and st: "cn_state c = CConnected" and r: "Inr c' = cn_restart True sockfd err c"
  have "cn_inv (c\<lparr>cn_state := CDisconnected, cn_retryDelayMs := kInitRetryDelayMs, cn_connect := True\<rparr>)"
    using i st by (auto simp: cn_inv_def kInitRetryDelayMs_def kMaxRetryDelayMs_def)
  then show "cn_inv c'" using r cn_inv_startInLoop by (metis cn_restart_def)
qed (metis cn_inv_handlewrite cn_inv_handleError)+

interpretation cn: invariant_system "\<lambda>c. c = Connector_new" "\<lambda>c c'. cn_step c (Inr c')" cn_inv
  by unfold_locales (simp_all add: cn_inv_init cn_step_inv)

text \<open>Attempts that are all refused, one after the other.\<close>

fun refused_attempts :: "int list \<Rightarrow> Connector \<Rightarrow> Connector res" where
  "refused_attempts [] c = Inr c"
| "refused_attempts (fd # fds) c = rbind (startInLoop True fd 111 c) (refused_attempts fds)"

lemma refused_attempts_ok:
  assumes "cn_connect c" "cn_state c = CDisconnected" "cn_retryDelayMs c = min (500 * 2 ^ j) 30000"
  shows "\<exists>c'. refused_attempts fds c = Inr c'
    \<and> cn_timers c' = cn_timers c @ List.map (\<lambda>k. min (500 * 2 ^ k) 30000) [j..<j + length fds]
    \<and> cn_closed c' = cn_closed c @ fds \<and> cn_state c' = CDisconnected"
  using assms
proof (induction fds arbitrary: c j)
  case (Cons fd fds)
  let ?c = "cn_retry fd (c\<lparr>cn_created := cn_created c @ [fd]\<rparr>)"
  have s: "startInLoop True fd 111 c = Inr ?c"
    using Cons.prems by (simp add: startInLoop_def cn_connect_to_def connect_pending_def connect_refused_def)
  have c: "cn_connect ?c" "cn_state ?c = CDisconnected" "cn_retryDelayMs ?c = min (500 * 2 ^ Suc j) 30000"
    "cn_timers ?c = cn_timers c @ [min (500 * 2 ^ j) 30000]" "cn_closed ?c = cn_closed c @ [fd]"
    using Cons.prems by (auto simp: cn_retry_def cn_close_def Let_def kMaxRetryDelayMs_def min_def)
  have "[j..<j + length (fd # fds)] = j # [Suc j..<Suc j + length fds]" by (simp add: upt_rec)
  with Cons.IH [OF c(1-3)] s c(4,5) show ?case by auto
qed simp

section \<open>Properties\<close>

text \<open>C18: no socket is leaked and none is closed twice. At every state a connector can reach, each
  descriptor it created is accounted for exactly once: closed, handed to the client, or held by the
  channel that waits for the connection; it is waiting exactly in the connecting state; and every retry
  waits between half a second and thirty seconds.\<close>

theorem sockets_accounted:
  assumes "reachable (\<lambda>c. c = Connector_new) (\<lambda>c c'. cn_step c (Inr c')) c"
  shows "mset (cn_created c) = mset (cn_closed c) + mset (cn_handed c) + cn_owned c
    \<and> (cn_state c = CConnecting \<longleftrightarrow> (\<exists>fd. cn_owned c = {#fd#}))
    \<and> (\<forall>t \<in> set (cn_timers c). 500 \<le> t \<and> t \<le> 30000)"
  using cn.inv_reachable [OF assms]
  by (auto simp: cn_inv_def cn_owned_def kInitRetryDelayMs_def kMaxRetryDelayMs_def split: option.splits if_splits)

lemma started_reachable:
  assumes "cn_start True fd err Connector_new = Inr c"
  shows "reachable (\<lambda>c. c = Connector_new) (\<lambda>c c'. cn_step c (Inr c')) c"
proof -
  have "cn_step Connector_new (Inr c)" using cn_step.cn_start [of Connector_new True fd err] assms by simp
  moreover have "reachable (\<lambda>c. c = Connector_new) (\<lambda>c c'. cn_step c (Inr c')) Connector_new" by (rule reach_init) simp
  ultimately show ?thesis by (rule reach_step [rotated])
qed

theorem sockets_accounted_witness:
  "\<exists>c. cn_start True 9 111 Connector_new = Inr c \<and> mset (cn_created c) = {#9#} \<and> cn_timers c = [500]
     \<and> mset (cn_created c) = mset (cn_closed c) + mset (cn_handed c) + cn_owned c"
proof -
  obtain c where c: "cn_start True 9 111 Connector_new = Inr c" "cn_created c = [9]" "cn_timers c = [500]"
    by (simp add: cn_start_def startInLoop_def Connector_new_def cn_connect_to_def connect_pending_def connect_refused_def
        cn_retry_def cn_close_def Let_def kInitRetryDelayMs_def)
  with sockets_accounted [OF started_reachable [OF c(1)]] show ?thesis by auto
qed

text \<open>The retry delay doubles up to a limit. When a connector that has just been started, or
  restarted, is refused \<open>n\<close> times in a row, it closes every socket and waits 500, 1000, 2000, 4000,
  8000, 16000 and from then on 30000 milliseconds.\<close>

theorem retry_backoff:
  assumes "cn_connect c" and "cn_state c = CDisconnected" and "cn_retryDelayMs c = kInitRetryDelayMs"
  shows "\<exists>c'. refused_attempts fds c = Inr c'
    \<and> cn_timers c' = cn_timers c @ List.map (\<lambda>k. min (500 * 2 ^ k) 30000) [0..<length fds]
    \<and> cn_closed c' = cn_closed c @ fds"
  using refused_attempts_ok [of c 0 fds] assms by (auto simp: kInitRetryDelayMs_def)

theorem retry_backoff_witness:
  "\<exists>c'. refused_attempts [3, 4, 5, 6, 7, 8, 9, 10] (Connector_new\<lparr>cn_connect := True\<rparr>) = Inr c'
    \<and> cn_timers c' = [500, 1000, 2000, 4000, 8000, 16000, 30000, 30000]"
proof -
  have u: "[0..<8] = [0, 1, 2, 3, 4, 5, 6, 7 :: nat]" by (simp add: upt_rec)
  show ?thesis
    using retry_backoff [of "Connector_new\<lparr>cn_connect := True\<rparr>" "[3, 4, 5, 6, 7, 8, 9, 10]"]
    by (auto simp: Connector_new_def u simp del: refused_attempts.simps)
qed

text \<open>A retry timer outlives a stop. If a connection attempt is refused, then the program stops
  the connector and starts it again and this attempt is pending, the timer of the first attempt, which
  \<open>stop\<close> does not cancel, fails the assertion of \<open>startInLoop\<close> when it fires.\<close>

theorem stale_retry_aborts:
  assumes "connect_refused err1" and "\<not> connect_pending err1" and "connect_pending err2"
  shows "\<exists>c1 c2 c3. cn_start True fd1 err1 Connector_new = Inr c1
    \<and> cn_run StopInLoop fd1 err1 ((cn_stop c1)\<lparr>cn_functors := []\<rparr>) = Inr c2
    \<and> cn_start True fd2 err2 c2 = Inr c3 \<and> cn_timers c3 = [500]
    \<and> startInLoop True fd3 err3 (c3\<lparr>cn_timers := []\<rparr>) = Inl AssertFailed"
  using assms
  by (simp add: cn_start_def startInLoop_def Connector_new_def cn_connect_to_def cn_retry_def cn_close_def Let_def
      kInitRetryDelayMs_def cn_stop_def cn_queue_def stopInLoop_def cn_connecting_def)

theorem stale_retry_aborts_witness:
  "\<exists>c1 c2 c3. cn_start True 5 111 Connector_new = Inr c1
    \<and> cn_run StopInLoop 5 111 ((cn_stop c1)\<lparr>cn_functors := []\<rparr>) = Inr c2
    \<and> cn_start True 6 115 c2 = Inr c3 \<and> startInLoop True 7 115 (c3\<lparr>cn_timers := []\<rparr>) = Inl AssertFailed"
  using stale_retry_aborts [of 111 115 5 6 7 115] by (auto simp: connect_refused_def connect_pending_def)

end
