(* ===== verification/TcpClients.thy ===== *)
theory TcpClients
  imports ConnObjects Connectors Formats
begin

text \<open>
  \<open>TcpClient\<close> (winterfell/net/wf_tcp_client.h, wf_tcp_client.cc): it has a connector make connections
  and holds the one that is open. Everything but \<open>connect\<close>, \<open>disconnect\<close> and \<open>stop\<close> runs in the
  client's loop; the mutex only guards the pointer to the connection. The results of the system calls
  a restarted connector makes are inputs of the close callback.
\<close>

section \<open>State\<close>

text \<open>\<open>name_\<close> is never given a value.\<close>

record TcpClient = Objects +
  cl_connector :: Connector
  cl_retry :: bool
  cl_connect :: bool
  cl_nextConnId :: int
  cl_connection :: "nat option"
  cl_loop :: nat
  cl_callbacks :: "bool \<times> bool \<times> bool"

definition TcpClient_new :: "nat \<Rightarrow> TcpClient" where
  "TcpClient_new loop =
     \<lparr>objs = [], objs_closed = [], cl_connector = Connector_new, cl_retry = False, cl_connect = True, cl_nextConnId = 1,
      cl_connection = None, cl_loop = loop, cl_callbacks = (False, False, False)\<rparr>"

definition cl_enableRetry :: "TcpClient \<Rightarrow> TcpClient" where
  "cl_enableRetry s = s\<lparr>cl_retry := True\<rparr>"

definition cl_set_callbacks :: "bool \<times> bool \<times> bool \<Rightarrow> TcpClient \<Rightarrow> TcpClient" where
  "cl_set_callbacks cbs s = s\<lparr>cl_callbacks := cbs\<rparr>"

definition cl_holds :: "TcpClient \<Rightarrow> nat \<Rightarrow> bool" where
  "cl_holds s oid \<longleftrightarrow> cl_connection s = Some oid"

section \<open>Operations\<close>

definition cl_connect_op :: "bool \<Rightarrow> int \<Rightarrow> int \<Rightarrow> TcpClient \<Rightarrow> TcpClient res" where
  "cl_connect_op in_loop sockfd err s =
     rbind (cn_start in_loop sockfd err (cl_connector s)) (\<lambda>cn.
     Inr (s\<lparr>cl_connect := True, cl_connector := cn\<rparr>))"

definition cl_disconnect :: "bool \<Rightarrow> TcpClient \<Rightarrow> TcpClient res" where
  "cl_disconnect in_loop s =
     (let s = s\<lparr>cl_connect := False\<rparr> in
      case cl_connection s of
        None \<Rightarrow> Inr s
      | Some oid \<Rightarrow>
          (case live_conn oid s of
             None \<Rightarrow> Inl UseAfterFree
           | Some c \<Rightarrow> rbind (tc_shutdown in_loop c) (\<lambda>c. Inr (set_conn oid c s))))"

definition cl_stop :: "TcpClient \<Rightarrow> TcpClient" where
  "cl_stop s = s\<lparr>cl_connect := False, cl_connector := cn_stop (cl_connector s)\<rparr>"

definition cl_conn_name :: "sockaddr_in \<Rightarrow> int \<Rightarrow> char list" where
  "cl_conn_name peer connId = snprintf_buf 32 ('':'' @ getIpPort peer @ ''#'' @ dec_int connId)"

text \<open>The pointer to a connection is assigned: the connection it held before is dropped.\<close>

definition cl_assign :: "nat option \<Rightarrow> TcpClient \<Rightarrow> TcpClient res" where
  "cl_assign conn s =
     (let old = cl_connection s; s = s\<lparr>cl_connection := conn\<rparr>
      in case old of None \<Rightarrow> Inr s | Some oid \<Rightarrow> release cl_holds oid s)"

definition cl_newConnection :: "program \<Rightarrow> bool \<Rightarrow> int \<Rightarrow> sockaddr_in \<Rightarrow> TcpClient \<Rightarrow> TcpClient res" where
  "cl_newConnection user in_loop sockfd peer s =
     (if \<not> in_loop then Inl Aborted
      else
        let connName = cl_conn_name peer (cl_nextConnId s); oid = length (objs s) in
        rbind (int32 (cl_nextConnId s + 1)) (\<lambda>nextConnId.
        rbind (construct_connection True (cl_loop s) sockfd) (\<lambda>conn.
        let conn = (case cl_callbacks s of (connection, message, writeComplete) \<Rightarrow>
              conn\<lparr>tc_hasConnection := connection, tc_hasMessage := message, tc_hasWriteComplete := writeComplete, tc_hasClose := True\<rparr>) in
        rbind (cl_assign (Some oid) (s\<lparr>cl_nextConnId := nextConnId, objs := objs s @ [Live connName conn]\<rparr>)) (\<lambda>s.
        rbind (connectEstablished user True conn) (\<lambda>conn.
        Inr (set_conn oid conn s))))))"

text \<open>The close callback, in the loop's thread.\<close>

definition cl_removeConnection :: "int \<Rightarrow> int \<Rightarrow> nat \<Rightarrow> TcpClient \<Rightarrow> TcpClient res" where
  "cl_removeConnection sockfd err oid s =
     (case live_conn oid s of
        None \<Rightarrow> Inl UseAfterFree
      | Some c \<Rightarrow>
          rassert (cl_connection s = Some oid)
            (let s = set_conn oid (tc_queue ConnectDestroyed c) (s\<lparr>cl_connection := None\<rparr>) in
             if cl_retry s \<and> cl_connect s
             then rbind (cn_restart True sockfd err (cl_connector s)) (\<lambda>cn. Inr (s\<lparr>cl_connector := cn\<rparr>))
             else Inr s))"

text \<open>The connector's descriptor is writable; it may hand a connection over.\<close>

definition cl_writable :: "program \<Rightarrow> int \<Rightarrow> sockaddr_in \<Rightarrow> TcpClient \<Rightarrow> TcpClient res" where
  "cl_writable user err peer s =
     rbind (cn_handlewrite err (cl_connector s)) (\<lambda>cn.
     let handed = drop (length (cn_handed (cl_connector s))) (cn_handed cn); s = s\<lparr>cl_connector := cn\<rparr>
     in case handed of [] \<Rightarrow> Inr s | sockfd # _ \<Rightarrow> cl_newConnection user True sockfd peer s)"

text \<open>
  The destructor, in the loop's thread: the close callback of an open connection becomes
  \<open>detail::removeConnection\<close>, which only queues the end; without one the connector is stopped. Then
  the client's pointer goes.
\<close>

definition detail_removeConnection :: "nat \<Rightarrow> 'a Objects_scheme \<Rightarrow> 'a Objects_scheme res" where
  "detail_removeConnection oid s =
     (case live_conn oid s of None \<Rightarrow> Inl UseAfterFree | Some c \<Rightarrow> Inr (set_conn oid (tc_queue ConnectDestroyed c) s))"

definition destroy_client :: "TcpClient \<Rightarrow> TcpClient res" where
  "destroy_client s =
     (case cl_connection s of
        Some oid \<Rightarrow> cl_assign None s
      | None \<Rightarrow> Inr (s\<lparr>cl_connector := cn_stop (cl_connector s)\<rparr>))"

section \<open>Facts\<close>

lemma live_cl_updates [simp]:
  "live_conn oid (cl_connection_update g s) = live_conn oid s" "live_name oid (cl_connection_update g s) = live_name oid s"
  "live_conn oid (cl_connector_update h s) = live_conn oid s" "live_name oid (cl_connector_update h s) = live_name oid s"
  by (simp_all add: live_conn_def live_name_def)

lemma cl_set_conn_simps [simp]:
  "cl_connection (set_conn oid c s) = cl_connection s" "cl_retry (set_conn oid c s) = cl_retry s"
  "cl_connect (set_conn oid c s) = cl_connect s" "cl_connector (set_conn oid c s) = cl_connector s"
  by (simp_all add: set_conn_def)

text \<open>A connector without a channel can always be restarted.\<close>

lemma restart_ok:
  "cn_channel cn = None \<Longrightarrow> \<exists>cn'. cn_restart True sockfd err cn = Inr cn'"
  by (simp add: cn_restart_def startInLoop_def cn_connect_to_def cn_connecting_def Let_def)

text \<open>An open connection of a client, with its callbacks set.\<close>

definition open_connection :: "TcpClient \<Rightarrow> nat \<Rightarrow> TcpConnection \<Rightarrow> bool" where
  "open_connection s oid c \<longleftrightarrow>
     cl_connection s = Some oid \<and> live_conn oid s = Some c \<and> (tc_state c = kConnected \<or> tc_state c = kDisconnecting)
     \<and> tc_registered c \<and> tc_hasClose c \<and> ch_readCallback (tc_channel c) = Some () \<and> Buffer_inv (tc_input c)"

definition closing_connection :: "TcpConnection \<Rightarrow> bool" where
  "closing_connection d \<longleftrightarrow> tc_functors d = [ConnectDestroyed] \<and> tc_registered d \<and> (tc_state d = kConnected \<or> tc_state d = kDisconnecting)"

text \<open>Reading 0 bytes leaves the connection alive, held by its queued end.\<close>

lemma client_peer_close_queues:
  assumes o: "open_connection s oid c" and q: "tc_functors c = []" and r: "cl_retry s \<and> cl_connect s \<Longrightarrow> cn_channel (cl_connector s) = None"
  shows "\<exists>s' d. run_callback cl_holds (cl_removeConnection fd err) user (ReadvBytes []) w oid () (ReadEvent t) s = Inr s'
    \<and> live_conn oid s' = Some d \<and> closing_connection d \<and> ch_revents (tc_channel d) = ch_revents (tc_channel c)
    \<and> ch_fd (tc_channel d) = ch_fd (tc_channel c) \<and> cl_connection s' = None \<and> objs_closed s' = objs_closed s"
proof -
  have c: "live_conn oid s = Some c" and st: "tc_state c = kConnected \<or> tc_state c = kDisconnecting"
    and len: "oid < length (objs s)"
    using o by (auto simp: open_connection_def live_conn_Some)
  obtain b where b: "readFd (ReadvBytes []) (tc_input c) = Inr (0, None, b)"
    using o readFd_ok [of "tc_input c" "[]"] by (auto simp: open_connection_def)
  obtain d where d: "tc_interest DisableAll (c\<lparr>tc_input := b\<rparr>) = Inr d" "tc_registered d" "tc_state d = tc_state c"
      "tc_hasClose d" "tc_functors d = []" "ch_revents (tc_channel d) = ch_revents (tc_channel c)" "ch_fd (tc_channel d) = ch_fd (tc_channel c)"
    using o q by (simp add: open_connection_def tc_interest_def set_index_def)
  let ?s = "set_conn oid (tc_queue ConnectDestroyed d) (s\<lparr>cl_connection := None\<rparr>)"
  have "\<exists>s'. cl_removeConnection fd err oid (set_conn oid d s) = Inr s' \<and> live_conn oid s' = Some (tc_queue ConnectDestroyed d)
      \<and> cl_connection s' = None \<and> objs_closed s' = objs_closed s"
  proof -
    have e: "set_conn oid (tc_queue ConnectDestroyed d) (set_conn oid d s\<lparr>cl_connection := None\<rparr>) = ?s"
      by (simp add: set_conn_def live_name_def)
    show ?thesis
    proof (cases "cl_retry s \<and> cl_connect s")
      case True
      then obtain cn where "cn_restart True fd err (cl_connector s) = Inr cn" using restart_ok r by blast
      then show ?thesis using True o len by (simp add: cl_removeConnection_def e open_connection_def Let_def)
    next
      case False
      then show ?thesis using o len by (auto simp: cl_removeConnection_def e open_connection_def Let_def)
    qed
  qed
  then obtain s' where s': "cl_removeConnection fd err oid (set_conn oid d s) = Inr s'"
    "live_conn oid s' = Some (tc_queue ConnectDestroyed d)" "cl_connection s' = None" "objs_closed s' = objs_closed s" by blast
  have "release cl_holds oid s' = Inr s'"
    using s'(2) by (rule release_bound) (simp add: tc_queue_def)
  then have "handleClose (close_object cl_holds (cl_removeConnection fd err) oid s) True (c\<lparr>tc_input := b\<rparr>) = Inr s'"
    using st by (auto simp: handleClose_def d(1,4) close_object_def s'(1) simp del: tc_interest_Inr)
  then have "run_callback cl_holds (cl_removeConnection fd err) user (ReadvBytes []) w oid () (ReadEvent t) s = Inr s'"
    by (simp add: run_callback_def c handleRead_ret_def b Let_def)
  then show ?thesis
    using s' d st by (intro exI [of _ s'] exI [of _ "tc_queue ConnectDestroyed d"]) (simp add: closing_connection_def tc_queue_def)
qed

lemma closing_connection_ends:
  assumes "live_conn oid s = Some d" "closing_connection d" "\<not> cl_holds s oid"
  shows "\<exists>s'. object_functors cl_holds user w oid s = Inr s' \<and> live_conn oid s' = None
    \<and> objs_closed s' = objs_closed s @ [ch_fd (tc_channel d)]"
proof -
  let ?d = "d\<lparr>tc_functors := []\<rparr>"
  obtain e where e: "connectDestroyed True ?d = Inr e" "tc_state e = kDisconnected" "tc_functors e = []" "ch_fd (tc_channel e) = ch_fd (tc_channel d)"
    using assms(2) by (auto simp: connectDestroyed_def tc_interest_def closing_connection_def)
  have o: "oid < length (objs s)" "objs s ! oid = Live (live_name oid s) d" using assms(1) by (simp_all add: live_conn_Some)
  have "release cl_holds oid (set_conn oid e s) = Inr ((set_conn oid e s)\<lparr>objs := (objs (set_conn oid e s))[oid := Freed (tc_functors e)],
      objs_closed := objs_closed (set_conn oid e s) @ [ch_fd (tc_channel e)]\<rparr>)" (is "_ = Inr ?t")
    by (rule release_last) (use o assms(3) e in \<open>auto simp: cl_holds_def\<close>)
  moreover have "live_conn oid ?t = None" using o by (simp add: live_conn_def)
  moreover have "objs_closed ?t = objs_closed s @ [ch_fd (tc_channel d)]" using e(4) by simp
  moreover have "run_functors user w (tc_functors d) ?d = Inr e" "list_ex strong (tc_functors d)"
    using e(1) assms(2) by (simp_all add: closing_connection_def)
  ultimately show ?thesis using o by (auto simp: object_functors_def)
qed

lemma dispatch_not_due: "look s = Some ch \<Longrightarrow> \<not> event_due k ch \<Longrightarrow> dispatch look run k s = Inr s"
  by (simp add: dispatch_def)

section \<open>An example\<close>

definition example_client :: TcpClient where
  "example_client = cl_enableRetry (cl_set_callbacks (True, True, False) (TcpClient_new 0))"

lemma example_client_open:
  "\<exists>s c. cl_newConnection quiet_program True 7 zero_addr example_client = Inr s \<and> open_connection s 0 c
     \<and> tc_functors c = [] \<and> tc_state c = kConnected \<and> ch_fd (tc_channel c) = 7 \<and> cl_connector s = Connector_new"
proof -
  obtain c0 where c0: "construct_connection True 0 7 = Inr c0" "tc_registered c0" "tc_functors c0 = []" "tc_input c0 = Buffer_init"
      "ch_readCallback (tc_channel c0) = Some ()" "ch_fd (tc_channel c0) = 7"
    by (simp add: construct_connection_def enableReadInLoop_def Let_def TcpConnection_new_def tc_interest_def Channel_new_def
        set_index_def enableReading_def)
  let ?c1 = "c0\<lparr>tc_hasConnection := True, tc_hasMessage := True, tc_hasWriteComplete := False, tc_hasClose := True\<rparr>"
  obtain c where c: "connectEstablished quiet_program True ?c1 = Inr c" "tc_state c = kConnected" "tc_registered c" "tc_functors c = []"
      "tc_hasClose c" "tc_input c = Buffer_init" "ch_readCallback (tc_channel c) = Some ()" "ch_fd (tc_channel c) = 7"
    using c0 by (simp add: connectEstablished_def tc_interest_def call_user_def quiet_program_def set_index_def enableReading_def)
  let ?s = "example_client\<lparr>cl_nextConnId := 2, objs := [Live (cl_conn_name zero_addr 1) c], cl_connection := Some 0\<rparr>"
  have "cl_newConnection quiet_program True 7 zero_addr example_client = Inr ?s"
    using c0(1) c(1) by (simp add: cl_newConnection_def int32_def in_int32_def example_client_def cl_enableRetry_def cl_set_callbacks_def TcpClient_new_def
        cl_assign_def set_conn_def live_name_def Let_def)
  moreover have "open_connection ?s 0 c"
    using c Buffer_inv_init by (simp add: open_connection_def live_conn_def)
  moreover have "cl_connector ?s = Connector_new" by (simp add: example_client_def cl_enableRetry_def cl_set_callbacks_def TcpClient_new_def)
  ultimately show ?thesis using c(2,4,8) by blast
qed

section \<open>Properties\<close>

text \<open>C19: When the peer closes, a client's connection ends in order. The connection is open, no
  functor of it is queued in the loop, and if the client is to reconnect, its connector has already given up
  its channel. A pass of the loop in which poll reports POLLIN alone for it and the read returns 0 bytes
  then leaves the connection alive while the channel is still in use, the client no longer holds it, and its
  queued end holds it; when the loop runs that functor the connection is destroyed and its descriptor
  closed, once. This is so whether or not the client reconnects.\<close>

theorem client_peer_close_safe:
  assumes o: "open_connection s oid c" and q: "tc_functors c = []"
    and r: "cl_retry s \<and> cl_connect s \<longrightarrow> cn_channel (cl_connector s) = None"
  shows "\<exists>s'. object_event cl_holds (cl_removeConnection fd err) user POLLIN (ReadvBytes []) w t oid s = Inr s'
    \<and> live_conn oid s' \<noteq> None \<and> \<not> cl_holds s' oid \<and> objs_closed s' = objs_closed s
    \<and> (\<exists>s''. object_functors cl_holds user w' oid s' = Inr s'' \<and> live_conn oid s'' = None
        \<and> objs_closed s'' = objs_closed s @ [ch_fd (tc_channel c)])"
proof -
  let ?c = "c\<lparr>tc_channel := set_revents POLLIN (tc_channel c)\<rparr>"
  let ?s = "set_conn oid ?c s" and ?run = "run_callback cl_holds (cl_removeConnection fd err) user (ReadvBytes []) w oid"
  have c: "live_conn oid s = Some c" and len: "oid < length (objs s)" using o by (auto simp: open_connection_def live_conn_Some)
  have os: "open_connection ?s oid ?c" using o len by (auto simp: open_connection_def set_revents_def)
  have rs: "cl_retry ?s \<and> cl_connect ?s \<Longrightarrow> cn_channel (cl_connector ?s) = None" using r by simp
  obtain s' d where s': "?run () (ReadEvent t) ?s = Inr s'" "live_conn oid s' = Some d" "closing_connection d"
      "ch_revents (tc_channel d) = POLLIN" "ch_fd (tc_channel d) = ch_fd (tc_channel c)" "cl_connection s' = None"
      "objs_closed s' = objs_closed s"
    using client_peer_close_queues [OF os _ rs, of fd err user w t] q by (auto simp: set_revents_def)
  have look: "obj_channel oid ?s = Some (tc_channel ?c)" "obj_channel oid s' = Some (tc_channel d)"
    using len s'(2) by (simp_all add: obj_channel_def)
  have "dispatch (obj_channel oid) ?run CloseEvent ?s = Inr ?s" "dispatch (obj_channel oid) ?run ErrorEvent ?s = Inr ?s"
    by (rule dispatch_not_due [where ch = "tc_channel ?c"], rule look(1), simp add: set_revents_def has_bits_def poll_masks)+
  moreover have "dispatch (obj_channel oid) ?run (ReadEvent t) ?s = Inr s'"
  proof -
    have "event_due (ReadEvent t) (tc_channel ?c)" "callback_of (ReadEvent t) (tc_channel ?c) = Some ()"
      using o by (simp_all add: set_revents_def has_bits_def poll_masks open_connection_def)
    then show ?thesis using s'(1) unfolding dispatch_def look(1) by simp
  qed
  moreover have "dispatch (obj_channel oid) ?run WriteEvent s' = Inr s'"
    by (rule dispatch_not_due [where ch = "tc_channel d"], rule look(2)) (simp add: s'(4) has_bits_def poll_masks)
  ultimately have "object_event cl_holds (cl_removeConnection fd err) user POLLIN (ReadvBytes []) w t oid s = Inr s'"
    by (simp add: object_event_def c handleEvent_def)
  moreover have h: "\<not> cl_holds s' oid" by (simp add: cl_holds_def s'(6))
  ultimately show ?thesis
    using closing_connection_ends [OF s'(2,3) h, of user w'] s' by auto
qed

theorem client_peer_close_safe_witness:
  "\<exists>s s' s''. cl_newConnection quiet_program True 7 zero_addr example_client = Inr s
     \<and> object_event cl_holds (cl_removeConnection 8 0) quiet_program POLLIN (ReadvBytes []) (Wrote 0) (Timestamp 0) 0 s = Inr s'
     \<and> object_functors cl_holds quiet_program (\<lambda>f. Wrote 0) 0 s' = Inr s'' \<and> objs_closed s'' = objs_closed s @ [7]"
proof -
  obtain s c where s: "cl_newConnection quiet_program True 7 zero_addr example_client = Inr s" "open_connection s 0 c" "tc_functors c = []"
      "ch_fd (tc_channel c) = 7" "cl_connector s = Connector_new" using example_client_open by blast
  have "cl_retry s \<and> cl_connect s \<longrightarrow> cn_channel (cl_connector s) = None" by (simp add: s(5) Connector_new_def)
  from client_peer_close_safe [OF s(2,3) this, of 8 0 quiet_program "Wrote 0" "Timestamp 0" "\<lambda>f. Wrote 0"] s show ?thesis by auto
qed

text \<open>Destroying a client whose connection is open, in its loop and with nothing queued that holds the
  connection, fails the assertion in the connection's destructor.\<close>

theorem client_destroy_open_aborts:
  assumes "open_connection s oid c" "tc_functors c = []" "tc_state c = kConnected"
  shows "destroy_client s = Inl AssertFailed"
  using assms
  by (simp add: destroy_client_def cl_assign_def open_connection_def Let_def release_def cl_holds_def destroy_connection_def tc_connected_def)

theorem client_destroy_open_aborts_witness:
  "\<exists>s. cl_newConnection quiet_program True 7 zero_addr example_client = Inr s \<and> destroy_client s = Inl AssertFailed"
  using example_client_open client_destroy_open_aborts by blast

end
