(* ===== verification/PacedClients.thy ===== *)
theory PacedClients
  imports TcpClients
begin

text \<open>
  The client of example/echo_rate/client.cc, which sends a message when it is connected and another each
  time one is written completely. All its calls are made in its callbacks, so its connection has no steps
  but those of the loop. How much the system takes of a write may depend on everything that happened
  before: it is a function \<open>w\<close> of the state.
\<close>

section \<open>The callbacks\<close>

definition rate_client_program :: "(TcpConnection \<Rightarrow> write_result) \<Rightarrow> program" where
  "rate_client_program w e c =
     (case e of
        OnConnection \<Rightarrow> [USend ''smx'' (w c)]
      | OnMessage t \<Rightarrow> [UTakeAll]
      | OnWriteComplete \<Rightarrow> [USend ''smx'' (w c)])"

text \<open>\<open>main\<close> up to \<open>loop()\<close>: the address the connector connects to, and the client. The results of its
  \<open>socket\<close> and \<open>connect\<close> are inputs.\<close>

definition rate_client_main :: "int \<Rightarrow> int \<Rightarrow> (sockaddr_in \<times> TcpClient) res" where
  "rate_client_main sockfd err =
     (let endPoint = Endpoint_ip ''localhost'' 8888; client = cl_set_callbacks (True, True, True) (TcpClient_new 0)
      in rbind (cl_connect_op True sockfd err client) (\<lambda>client. Inr (endPoint, client)))"

text \<open>The loop's steps: a queued functor, a readable and a writable descriptor.\<close>

inductive client_step :: "program \<Rightarrow> (TcpConnection \<Rightarrow> write_result) \<Rightarrow> TcpConnection \<Rightarrow> TcpConnection \<Rightarrow> bool" for user w where
  client_functor: "tc_functors c = f # fs \<Longrightarrow> run_functor user (w c) f (c\<lparr>tc_functors := fs\<rparr>) = Inr c' \<Longrightarrow> client_step user w c c'"
| client_read: "tc_registered c \<Longrightarrow> handleRead user close_by_queue r t c = Inr c' \<Longrightarrow> client_step user w c c'"
| client_write: "tc_registered c \<Longrightarrow> handleWrite True x c = Inr c' \<Longrightarrow> client_step user w c c'"

lemma client_step_conn: "client_step user w c c' \<Longrightarrow> conn_step user close_by_queue c c'"
  by (induction rule: client_step.induct) (blast intro: conn_step.intros)+

section \<open>One message at a time\<close>

text \<open>The messages the system has not taken whole, or whose completion has not been reported.\<close>

definition outstanding :: "TcpConnection \<Rightarrow> nat" where
  "outstanding c = count_list (tc_functors c) WriteComplete + (if contents (tc_output c) = [] then 0 else 1)"

definition paced :: "TcpConnection \<Rightarrow> bool" where
  "paced c \<longleftrightarrow> set (tc_functors c) \<subseteq> {WriteComplete, ConnectDestroyed} \<and> tc_hasWriteComplete c
     \<and> (\<exists>n. tc_accepted c = replicate n ''smx'') \<and> outstanding c \<le> 1 \<and> length (contents (tc_output c)) \<le> 3"

lemma paced_input [simp]: "paced (c\<lparr>tc_input := b\<rparr>) = paced c" "outstanding (c\<lparr>tc_input := b\<rparr>) = outstanding c"
  by (simp_all add: paced_def outstanding_def)

lemma paced_interest: "tc_interest i c = Inr c' \<Longrightarrow> paced c' = paced c \<and> outstanding c' = outstanding c \<and> tc_hasClose c' = tc_hasClose c"
  by (auto simp: paced_def outstanding_def)

text \<open>A message is sent when none is outstanding.\<close>

lemma send_paced:
  assumes i: "conn_inv c" and p: "paced c" and z: "outstanding c = 0" and s: "tc_send True ''smx'' w c = Inr c'"
  shows "paced c'"
proof (cases "tc_state c = kConnected \<and> (\<exists>n. sys_write (tc_fin c) w ''smx'' = Wrote n)")
  case False
  have "c' = c"
    using False s by (auto simp: tc_send_def sendInLoop_def split: if_splits write_result.splits)
  then show ?thesis using p by simp
next
  case True
  then obtain n where st: "tc_state c = kConnected" and n: "sys_write (tc_fin c) w ''smx'' = Wrote n" by blast
  have e: "contents (tc_output c) = []" "count_list (tc_functors c) WriteComplete = 0"
    using z by (auto simp: outstanding_def split: if_splits)
  have b: "Buffer_inv (tc_output c)" and nw: "\<not> tc_isWriting c" using i e(1) by (auto simp: conn_inv_def)
  have rz: "readableBytes (tc_output c) = 0" using readable_zero [OF b] e(1) by simp
  obtain k where "tc_accepted c = replicate k ''smx''" using p by (auto simp: paced_def)
  then have k: "\<exists>k. tc_accepted c @ [''smx''] = replicate k ''smx''"
    by (intro exI [of _ "Suc k"]) (simp add: replicate_append_same)
  have hw: "tc_hasWriteComplete c" and fs: "set (tc_functors c) \<subseteq> {WriteComplete, ConnectDestroyed}"
    using p by (simp_all add: paced_def)
  show ?thesis
  proof (cases "n < length ''smx''")
    case True
    obtain out where o: "append_buf (drop n ''smx'') (tc_output c) = Inr out" "contents out = drop n ''smx''"
      using append_ok [OF b, of "drop n ''smx''"] e(1) by auto
    let ?d = "c\<lparr>tc_sent := tc_sent c @ take n ''smx'', tc_accepted := tc_accepted c @ [''smx''], tc_output := out\<rparr>"
    have "tc_interest EnableWriting ?d = Inr c'"
      using s st n nw rz True o(1) by (simp add: tc_send_def sendInLoop_def Let_def del: tc_interest_Inr)
    moreover have "length (contents out) \<le> 3" unfolding o(2) by simp
    then have "paced ?d" using fs hw k e(2) by (simp add: paced_def outstanding_def)
    ultimately show ?thesis using paced_interest by blast
  next
    case False
    let ?d = "c\<lparr>tc_sent := tc_sent c @ take n ''smx'', tc_accepted := tc_accepted c @ [''smx'']\<rparr>"
    have "c' = tc_queue WriteComplete ?d"
      using s st n nw rz False hw by (simp add: tc_send_def sendInLoop_def Let_def)
    then show ?thesis using fs hw k e by (simp add: paced_def outstanding_def tc_queue_def)
  qed
qed

lemma write_paced:
  assumes i: "conn_inv c" and p: "paced c" and s: "handleWrite True w c = Inr c'"
  shows "paced c'"
proof (cases "tc_isWriting c \<and> (case sys_write (tc_fin c) w (contents (tc_output c)) of Wrote n \<Rightarrow> 0 < n | WriteError e \<Rightarrow> False)")
  case False
  then show ?thesis using s p by (simp add: handleWrite_def split: if_splits write_result.splits)
next
  case True
  then obtain n where n: "sys_write (tc_fin c) w (contents (tc_output c)) = Wrote n" and n0: "0 < n" and wr: "tc_isWriting c"
    by (auto split: write_result.splits)
  have nl: "n \<le> length (contents (tc_output c))" using n by (auto simp: sys_write_def split: if_splits write_result.splits)
  have b: "Buffer_inv (tc_output c)" and ne: "contents (tc_output c) \<noteq> []" using i wr by (auto simp: conn_inv_def)
  then have wc: "count_list (tc_functors c) WriteComplete = 0" using p by (simp add: paced_def outstanding_def)
  obtain out where o: "retrieve (int n) (tc_output c) = Inr out" "Buffer_inv out" "contents out = drop n (contents (tc_output c))"
    using retrieve_ok [OF b, of "int n"] nl by auto
  let ?c = "c\<lparr>tc_sent := tc_sent c @ take n (contents (tc_output c)), tc_output := out\<rparr>"
  have "length (contents (tc_output c)) \<le> 3" using p by (simp add: paced_def)
  then have l: "length (contents out) \<le> 3" unfolding o(3) by simp
  show ?thesis
  proof (cases "readableBytes out = 0")
    case False
    then have "c' = ?c" using s n n0 wr o(1) by (simp add: handleWrite_def Let_def)
    then show ?thesis using p l wc by (simp add: paced_def outstanding_def)
  next
    case True
    then obtain d where d: "tc_interest DisableWriting ?c = Inr d"
      and r: "(let c = (if tc_hasWriteComplete d then tc_queue WriteComplete d else d)
               in if tc_state c = kDisconnecting then shutdownInLoop True c else Inr c) = Inr c'"
      using s n n0 wr o(1) by (auto simp: handleWrite_def Let_def rbind_Inr_iff simp del: tc_interest_Inr)
    have "contents out = []" using True readable_zero [OF o(2)] by simp
    then have "paced d \<and> outstanding d = 0"
      using paced_interest [OF d] p l wc by (simp add: paced_def outstanding_def)
    then have "paced (tc_queue WriteComplete d)" "tc_hasWriteComplete d" by (auto simp: paced_def outstanding_def tc_queue_def)
    moreover have "paced (e\<lparr>tc_fin := True\<rparr>) = paced e" for e by (simp add: paced_def outstanding_def)
    ultimately show ?thesis using r by (auto simp: shutdownInLoop_def Let_def split: if_splits)
  qed
qed

lemma paced_step:
  assumes i: "conn_inv c" and p: "paced c" and s: "client_step (rate_client_program w) w c c'"
  shows "paced c'"
  using s
proof cases
  case (client_functor f fs)
  let ?c = "c\<lparr>tc_functors := fs\<rparr>"
  have f: "f = WriteComplete \<or> f = ConnectDestroyed" using p client_functor(1) by (auto simp: paced_def)
  then show ?thesis
  proof
    assume f: "f = WriteComplete"
    have "conn_inv ?c" using i client_functor(1) by (auto simp: conn_inv_def closing_def f)
    moreover have "paced ?c" "outstanding ?c = 0" using p client_functor(1) f by (auto simp: paced_def outstanding_def split: if_splits)
    moreover have "tc_send True ''smx'' (w ?c) ?c = Inr c'"
      using client_functor(2) f by (simp add: call_user_def rate_client_program_def rbind_Inr_iff)
    ultimately show ?thesis by (rule send_paced)
  next
    assume f: "f = ConnectDestroyed"
    then obtain d where "tc_interest DisableAll (?c\<lparr>tc_state := kDisconnected\<rparr>) = Inr d" "c' = d\<lparr>tc_registered := False, tc_asks := tc_asks d @ [AskRemove]\<rparr>"
      using client_functor(2) by (auto simp: connectDestroyed_def rassert_Inr_iff rbind_Inr_iff simp del: tc_interest_Inr)
    moreover have "paced (?c\<lparr>tc_state := kDisconnected\<rparr>)" using p client_functor(1) f by (auto simp: paced_def outstanding_def)
    ultimately have "paced d" "c' = d\<lparr>tc_registered := False, tc_asks := tc_asks d @ [AskRemove]\<rparr>" using paced_interest by blast+
    then show ?thesis by (simp add: paced_def outstanding_def)
  qed
next
  case (client_read r t)
  obtain x where "readFd r (tc_input c) = Inr x"
    using client_read(2) by (cases "readFd r (tc_input c)") (auto simp: handleRead_eq)
  moreover obtain n err inp where "x = (n, err, inp)" by (cases x)
  ultimately have r: "readFd r (tc_input c) = Inr (n, err, inp)" by simp
  let ?c = "c\<lparr>tc_input := inp\<rparr>"
  have "(if n > 0 then call_user (rate_client_program w) (OnMessage t) (tc_hasMessage c) ?c
       else if n = 0 then handleClose close_by_queue True ?c else Inr ?c) = Inr c'"
    using client_read(2) by (simp add: handleRead_eq r Let_def handleError_def split: if_splits)
  then have "call_user (rate_client_program w) (OnMessage t) (tc_hasMessage c) ?c = Inr c'
      \<or> handleClose close_by_queue True ?c = Inr c' \<or> Inr ?c = (Inr c' :: TcpConnection res)"
    by (cases "n > 0"; cases "n = 0") simp_all
  then show ?thesis
  proof (elim disjE)
    assume "call_user (rate_client_program w) (OnMessage t) (tc_hasMessage c) ?c = Inr c'"
    then obtain inp' where "c' = ?c\<lparr>tc_input := inp'\<rparr>"
      by (auto simp: call_user_def rate_client_program_def rbind_Inr_iff split: if_splits)
    then show ?thesis using p by simp
  next
    assume "handleClose close_by_queue True ?c = Inr c'"
    then obtain d where d: "tc_interest DisableAll ?c = Inr d" "c' = tc_queue ConnectDestroyed d"
      by (auto simp: handleClose_def close_by_queue_def rassert_Inr_iff rbind_Inr_iff simp del: tc_interest_Inr split: if_splits)
    then have "paced d" using paced_interest [OF d(1)] p by (simp del: tc_interest_Inr)
    then show ?thesis using d(2) by (auto simp: paced_def outstanding_def tc_queue_def)
  next
    assume "Inr ?c = (Inr c' :: TcpConnection res)"
    then have "c' = ?c" by simp
    then show ?thesis using p by simp
  qed
next
  case (client_write x)
  then show ?thesis using write_paced i p by blast
qed

text \<open>The connection the client makes once its connector has connected.\<close>

definition rate_client_init :: "(TcpConnection \<Rightarrow> write_result) \<Rightarrow> TcpConnection \<Rightarrow> bool" where
  "rate_client_init w c \<longleftrightarrow> (\<exists>sockfd err addr s fd peer s'. rate_client_main sockfd err = Inr (addr, s)
     \<and> cl_newConnection (rate_client_program w) True fd peer s = Inr s' \<and> live_conn 0 s' = Some c)"

text \<open>The connection of \<open>TcpClient::newConnection\<close>, up to \<open>connectEstablished\<close>.\<close>

abbreviation all_callbacks :: "TcpConnection \<Rightarrow> TcpConnection" where
  "all_callbacks c \<equiv> c\<lparr>tc_hasConnection := True, tc_hasMessage := True, tc_hasWriteComplete := True, tc_hasClose := True\<rparr>"

definition client_connection :: "program \<Rightarrow> nat \<Rightarrow> int \<Rightarrow> TcpConnection res" where
  "client_connection user loop sockfd =
     rbind (construct_connection True loop sockfd) (\<lambda>conn. connectEstablished user True (all_callbacks conn))"

lemma client_made:
  assumes f: "cl_callbacks s = (True, True, True)" "cl_connection s = None" "objs s = []"
    and n: "cl_newConnection user True fd peer s = Inr s'" "live_conn 0 s' = Some c"
  shows "client_connection user (cl_loop s) fd = Inr c"
proof -
  obtain conn where conn: "construct_connection True (cl_loop s) fd = Inr conn"
    using n(1) f by (auto simp: cl_newConnection_def rbind_Inr_iff Let_def)
  obtain d where d: "connectEstablished user True (all_callbacks conn) = Inr d"
    "s' = set_conn 0 d (s\<lparr>cl_nextConnId := cl_nextConnId s + 1,
      objs := [Live (cl_conn_name peer (cl_nextConnId s)) (all_callbacks conn)], cl_connection := Some 0\<rparr>)"
    using n(1) f conn by (auto simp: cl_newConnection_def rbind_Inr_iff Let_def cl_assign_def int32_def split: if_splits)
  then have "c = d" using n(2) by simp
  then show ?thesis using d(1) conn by (simp add: client_connection_def)
qed

lemma client_connection_inv:
  assumes "client_connection user loop fd = Inr c"
  shows "conn_inv c"
proof -
  obtain conn where conn: "construct_connection True loop fd = Inr conn" "connectEstablished user True (all_callbacks conn) = Inr c"
    using assms by (auto simp: client_connection_def rbind_Inr_iff)
  have f: "tc_functors conn = []" using conn(1) by (auto simp: construct_connection_def enableReadInLoop_def TcpConnection_new_def Let_def)
  have "conn_init conn" by (rule construct_init [OF conn(1)])
  then have i: "conn_init (all_callbacks conn)" by (simp add: conn_init_def tc_isWriting_def)
  have "forward (all_callbacks conn) c" by (rule forward_connectEstablished [OF conn(2)]) (use i f in \<open>auto simp: conn_init_def\<close>)
  then show ?thesis using conn_inv_init [OF i] by (simp add: forward_def)
qed

lemma rate_client_made:
  assumes "rate_client_init w c" shows "\<exists>fd. client_connection (rate_client_program w) 0 fd = Inr c"
proof -
  obtain sockfd err addr s fd peer s' where s: "rate_client_main sockfd err = Inr (addr, s)"
    and n: "cl_newConnection (rate_client_program w) True fd peer s = Inr s'" "live_conn 0 s' = Some c"
    using assms unfolding rate_client_init_def by blast
  have "cl_callbacks s = (True, True, True)" "cl_connection s = None" "objs s = []" "cl_loop s = 0"
    using s by (auto simp: rate_client_main_def cl_connect_op_def rbind_Inr_iff cl_set_callbacks_def TcpClient_new_def Let_def)
  with client_made [OF _ _ _ n] show ?thesis by auto
qed

lemma rate_client_start:
  assumes "rate_client_init w c"
  shows "conn_inv c \<and> paced c"
proof -
  obtain sockfd where m: "client_connection (rate_client_program w) 0 sockfd = Inr c" using rate_client_made [OF assms] by blast
  then obtain conn where conn: "construct_connection True 0 sockfd = Inr conn"
    and e: "connectEstablished (rate_client_program w) True
      (conn\<lparr>tc_hasConnection := True, tc_hasMessage := True, tc_hasWriteComplete := True, tc_hasClose := True\<rparr>) = Inr c"
    by (auto simp: client_connection_def rbind_Inr_iff)
  let ?c = "conn\<lparr>tc_hasConnection := True, tc_hasMessage := True, tc_hasWriteComplete := True, tc_hasClose := True\<rparr>"
  have f: "tc_functors conn = []" "tc_accepted conn = []" "tc_output conn = Buffer_init"
    using conn by (auto simp: construct_connection_def enableReadInLoop_def TcpConnection_new_def Let_def)
  have "conn_init conn" by (rule construct_init [OF conn])
  then have i: "conn_init ?c" by (simp add: conn_init_def tc_isWriting_def)
  obtain d where d: "tc_interest EnableReading (?c\<lparr>tc_state := kConnected\<rparr>) = Inr d"
    and u: "call_user (rate_client_program w) OnConnection (tc_hasConnection d) d = Inr c"
    using e by (auto simp: connectEstablished_def rbind_Inr_iff simp del: tc_interest_Inr)
  have "paced (?c\<lparr>tc_state := kConnected\<rparr>)" "outstanding (?c\<lparr>tc_state := kConnected\<rparr>) = 0"
    using f by (auto simp: paced_def outstanding_def queue_simps)
  then have p: "paced d" "outstanding d = 0" using paced_interest [OF d] by auto
  have "conn_inv (?c\<lparr>tc_state := kConnected\<rparr>)"
    using conn_inv_init [OF i] i f by (auto simp: conn_inv_def conn_init_def closing_def)
  then have "conn_inv d" using forward_reading [OF _ d] by (simp add: forward_def)
  moreover have "tc_send True ''smx'' (w d) d = Inr c"
    using u by (auto simp: call_user_def rate_client_program_def rbind_Inr_iff split: if_splits)
  ultimately show ?thesis using client_connection_inv [OF m] send_paced [OF _ p] by blast
qed

interpretation pc: invariant_system "rate_client_init w" "client_step (rate_client_program w) w" "\<lambda>c. conn_inv c \<and> paced c" for w
proof (unfold_locales, goal_cases)
  case (1 c)
  then show ?case by (rule rate_client_start)
next
  case (2 c d)
  have "conn_inv d"
    using conn_step_forward [OF close_forward(1) client_step_conn [OF 2(2)]] 2(1) by blast
  then show ?case using paced_step 2 by blast
qed

section \<open>Properties\<close>

text \<open>C24: The client paces itself. At every state its connection can reach, whatever the system takes of each
  write and whatever arrives, the accepted messages are copies of the one it sends, and the bytes sent with
  those in the output buffer are exactly these messages; at most one of them is outstanding, and when
  the completion of one is reported the output buffer is empty: so the next message is never among those
  that \<open>sendInLoop\<close> drops because output is waiting.\<close>

theorem rate_client_paces:
  assumes "reachable (rate_client_init w) (client_step (rate_client_program w) w) c"
  shows "\<exists>n. tc_accepted c = replicate n ''smx'' \<and> tc_sent c @ contents (tc_output c) = concat (replicate n ''smx'')
    \<and> length (contents (tc_output c)) \<le> 3 \<and> outstanding c \<le> 1
    \<and> (WriteComplete \<in> set (tc_functors c) \<longrightarrow> contents (tc_output c) = [] \<and> \<not> tc_isWriting c)"
proof -
  have i: "conn_inv c" and p: "paced c" using pc.inv_reachable [OF assms] by simp_all
  obtain n where n: "tc_accepted c = replicate n ''smx''" using p by (auto simp: paced_def)
  have "contents (tc_output c) = []" if "WriteComplete \<in> set (tc_functors c)"
  proof -
    have "0 < count_list (tc_functors c) WriteComplete" using that count_list_0_iff [of "tc_functors c" WriteComplete] by simp
    then show ?thesis using p by (auto simp: paced_def outstanding_def split: if_splits)
  qed
  then show ?thesis using n i p by (intro exI [of _ n]) (auto simp: conn_inv_def paced_def)
qed

text \<open>The system takes the first message at once: its completion is queued, and then the second is sent.\<close>

theorem rate_client_paces_witness:
  "\<exists>c :: TcpConnection. tc_functors c = [WriteComplete] \<and> tc_sent c = ''smxsmx'' \<and> (\<exists>n. tc_sent c = concat (replicate n ''smx''))"
proof -
  let ?w = "\<lambda>c :: TcpConnection. Wrote 3"
  have z: "readableBytes Buffer_init = 0" by (simp add: Buffer_init_def readableBytes_def)
  obtain c where c: "client_connection (rate_client_program ?w) 0 5 = Inr c" "tc_functors c = [WriteComplete]" "tc_sent c = ''smx''" "\<not> tc_fin c"
    "tc_state c = kConnected" "tc_output c = Buffer_init" "tc_hasWriteComplete c" "\<not> tc_isWriting c"
    using z by (simp add: client_connection_def construct_connection_def enableReadInLoop_def TcpConnection_new_def Channel_new_def
        connectEstablished_def call_user_def rate_client_program_def tc_send_def sendInLoop_def sys_write_def tc_queue_def
        tc_interest_def set_index_def enableReading_def tc_isWriting_def ch_isWriting_def Let_def)
  obtain d where d: "run_functor (rate_client_program ?w) (Wrote 3) WriteComplete (c\<lparr>tc_functors := []\<rparr>) = Inr d"
    "tc_functors d = [WriteComplete]" "tc_sent d = ''smxsmx''" "tc_output d = Buffer_init"
    using c(3-8) z by (simp add: call_user_def rate_client_program_def tc_send_def sendInLoop_def sys_write_def tc_queue_def Let_def)
  obtain addr s where "rate_client_main 7 0 = Inr (addr, s)" "cl_callbacks s = (True, True, True)" "cl_connection s = None" "objs s = []" "cl_loop s = 0"
    "cl_nextConnId s = 1"
    by (simp add: rate_client_main_def cl_connect_op_def cl_set_callbacks_def TcpClient_new_def cn_start_def startInLoop_def
        Connector_new_def cn_connect_to_def connect_pending_def cn_connecting_def createNonblocking_def Let_def)
  moreover from this obtain s' where "cl_newConnection (rate_client_program ?w) True 5 zero_addr s = Inr s'" "live_conn 0 s' = Some c"
    using c(1) by (auto simp: client_connection_def cl_newConnection_def rbind_Inr_iff Let_def cl_assign_def int32_def in_int32_def)
  ultimately have "rate_client_init ?w c" unfolding rate_client_init_def by blast
  moreover have "client_step (rate_client_program ?w) ?w c d" by (rule client_functor [OF c(2) d(1)])
  ultimately have "reachable (rate_client_init ?w) (client_step (rate_client_program ?w) ?w) d" using reach_init reach_step by meson
  from rate_client_paces [OF this] d(4) have "\<exists>n. tc_sent d = concat (replicate n ''smx'')" by (auto simp: queue_simps)
  then show ?thesis using d(2,3) by (intro exI [of _ d] conjI)
qed

end
