(* ===== verification/GreetingClients.thy ===== *)
theory GreetingClients
  imports PacedClients
begin

text \<open>
  The client of net/tests/wf_tcp_client_test.cc, which sends one message when it is connected and otherwise
  only reads. Its connection moves by the steps of \<open>client_step\<close>.
\<close>

section \<open>The program\<close>

definition client_test_program :: "(TcpConnection \<Rightarrow> write_result) \<Rightarrow> program" where
  "client_test_program w e c =
     (case e of
        OnConnection \<Rightarrow> [USend ''smx'' (w c)]
      | OnMessage t \<Rightarrow> [UTakeAll]
      | OnWriteComplete \<Rightarrow> [])"

text \<open>\<open>main\<close> up to \<open>loop()\<close>: the address the connector connects to, and the client.\<close>

definition client_test_main :: "int \<Rightarrow> int \<Rightarrow> (sockaddr_in \<times> TcpClient) res" where
  "client_test_main sockfd err =
     (let endPoint = Endpoint_ip ''localhost'' 9981; client = cl_set_callbacks (True, True, True) (TcpClient_new 0)
      in rbind (cl_connect_op True sockfd err client) (\<lambda>client. Inr (endPoint, client)))"

text \<open>The connection the client makes once its connector has connected.\<close>

definition client_test_init :: "(TcpConnection \<Rightarrow> write_result) \<Rightarrow> TcpConnection \<Rightarrow> bool" where
  "client_test_init w c \<longleftrightarrow> (\<exists>sockfd err addr s fd peer s'. client_test_main sockfd err = Inr (addr, s)
     \<and> cl_newConnection (client_test_program w) True fd peer s = Inr s' \<and> live_conn 0 s' = Some c)"

section \<open>One message\<close>

definition greets :: "TcpConnection \<Rightarrow> bool" where
  "greets c \<longleftrightarrow> set (tc_functors c) \<subseteq> {WriteComplete, ConnectDestroyed} \<and> tc_accepted c \<in> {[], [''smx'']}"

lemma greets_fields [simp]: "greets (c\<lparr>tc_input := b\<rparr>) = greets c" "greets (c\<lparr>tc_output := b\<rparr>) = greets c" "greets (c\<lparr>tc_fin := x\<rparr>) = greets c"
  "greets (c\<lparr>tc_sent := y\<rparr>) = greets c" "greets (c\<lparr>tc_state := st\<rparr>) = greets c" "greets (c\<lparr>tc_registered := r\<rparr>) = greets c"
  "greets (c\<lparr>tc_asks := as\<rparr>) = greets c"
  "greets (c\<lparr>tc_channel := ch\<rparr>) = greets c" "greets (tc_queue WriteComplete c) = greets c" "greets (tc_queue ConnectDestroyed c) = greets c"
  by (auto simp: greets_def tc_queue_def)

lemma greets_interest: "tc_interest i c = Inr c' \<Longrightarrow> greets c' = greets c"
  by auto

lemma greets_write:
  assumes g: "greets c" and s: "handleWrite True x c = Inr c'"
  shows "greets c'"
proof (cases "tc_isWriting c \<and> (case sys_write (tc_fin c) x (contents (tc_output c)) of Wrote n \<Rightarrow> 0 < n | WriteError e \<Rightarrow> False)")
  case False
  then show ?thesis using s g by (simp add: handleWrite_def split: if_splits write_result.splits)
next
  case True
  then obtain n where n: "sys_write (tc_fin c) x (contents (tc_output c)) = Wrote n" "0 < n" "tc_isWriting c"
    by (auto split: write_result.splits)
  then obtain out where o: "retrieve (int n) (tc_output c) = Inr out" using s by (auto simp: handleWrite_def Let_def rbind_Inr_iff)
  let ?c = "c\<lparr>tc_sent := tc_sent c @ take n (contents (tc_output c)), tc_output := out\<rparr>"
  have gc: "greets ?c" using g by simp
  show ?thesis
  proof (cases "readableBytes out = 0")
    case False
    then show ?thesis using s n o gc by (simp add: handleWrite_def Let_def)
  next
    case True
    then obtain d where d: "tc_interest DisableWriting ?c = Inr d"
      and r: "(let c = (if tc_hasWriteComplete d then tc_queue WriteComplete d else d)
               in if tc_state c = kDisconnecting then shutdownInLoop True c else Inr c) = Inr c'"
      using s n o by (auto simp: handleWrite_def Let_def rbind_Inr_iff simp del: tc_interest_Inr)
    have "greets d" using greets_interest [OF d] gc by simp
    then show ?thesis using r by (auto simp: shutdownInLoop_def Let_def split: if_splits)
  qed
qed

lemma greets_close:
  assumes "greets c" "handleClose close_by_queue True c = Inr c'"
  shows "greets c'"
proof -
  obtain d where d: "tc_interest DisableAll c = Inr d" "c' = tc_queue ConnectDestroyed d"
    using assms(2) by (auto simp: handleClose_def close_by_queue_def rassert_Inr_iff rbind_Inr_iff simp del: tc_interest_Inr split: if_splits)
  then show ?thesis using greets_interest [OF d(1)] assms(1) by (simp del: tc_interest_Inr)
qed

lemma greets_read:
  assumes "greets c" "handleRead (client_test_program w) close_by_queue r t c = Inr c'"
  shows "greets c'"
proof -
  obtain n err inp where r: "readFd r (tc_input c) = Inr (n, err, inp)"
    using assms(2) by (cases "readFd r (tc_input c)") (auto simp: handleRead_eq)
  let ?c = "c\<lparr>tc_input := inp\<rparr>"
  have g: "greets ?c" using assms(1) by simp
  consider "call_user (client_test_program w) (OnMessage t) (tc_hasMessage c) ?c = Inr c'" | "handleClose close_by_queue True ?c = Inr c'" | "c' = ?c"
    using assms(2) by (auto simp: handleRead_eq r Let_def handleError_def split: if_splits)
  then show ?thesis
  proof cases
    case 1
    then show ?thesis using assms(1) by (auto simp: call_user_def client_test_program_def rbind_Inr_iff split: if_splits)
  qed (use g greets_close [OF g] in simp_all)
qed

lemma greets_step:
  assumes g: "greets c" and s: "client_step (client_test_program w) w c c'"
  shows "greets c'"
  using s
proof cases
  case (client_functor f fs)
  have fs: "greets (c\<lparr>tc_functors := fs\<rparr>)" and f: "f = WriteComplete \<or> f = ConnectDestroyed"
    using g client_functor(1) by (auto simp: greets_def)
  from f show ?thesis
  proof
    assume "f = WriteComplete"
    then show ?thesis using client_functor(2) fs by (simp add: call_user_def client_test_program_def)
  next
    assume "f = ConnectDestroyed"
    then obtain d where d: "tc_interest DisableAll (c\<lparr>tc_functors := fs, tc_state := kDisconnected\<rparr>) = Inr d" "c' = d\<lparr>tc_registered := False, tc_asks := tc_asks d @ [AskRemove]\<rparr>"
      using client_functor(2) by (auto simp: connectDestroyed_def rassert_Inr_iff rbind_Inr_iff simp del: tc_interest_Inr)
    have "greets (c\<lparr>tc_functors := fs, tc_state := kDisconnected\<rparr>)" using fs greets_fields(5) by blast
    then show ?thesis using greets_interest [OF d(1)] d(2) by (simp del: tc_interest_Inr)
  qed
qed (use g greets_read greets_write in blast)+

text \<open>The message is sent when the connection is made.\<close>

lemma greets_send:
  assumes "set (tc_functors c) \<subseteq> {WriteComplete, ConnectDestroyed}" "tc_accepted c = []" "tc_send True ''smx'' x c = Inr c'"
  shows "greets c'"
proof (cases "tc_state c = kConnected \<and> \<not> tc_isWriting c \<and> readableBytes (tc_output c) = 0 \<and> (\<exists>n. sys_write (tc_fin c) x ''smx'' = Wrote n)")
  case False
  then have "c' = c" using assms(3) by (auto simp: tc_send_def sendInLoop_def split: if_splits write_result.splits)
  then show ?thesis using assms(1,2) by (simp add: greets_def)
next
  case True
  then obtain n where n: "sys_write (tc_fin c) x ''smx'' = Wrote n" by blast
  let ?c = "c\<lparr>tc_sent := tc_sent c @ take n ''smx'', tc_accepted := tc_accepted c @ [''smx'']\<rparr>"
  have g: "greets ?c" using assms(1,2) by (simp add: greets_def)
  show ?thesis
  proof (cases "n < length ''smx''")
    case True
    then obtain out where "append_buf (drop n ''smx'') (tc_output c) = Inr out"
      "tc_interest EnableWriting (?c\<lparr>tc_output := out\<rparr>) = Inr c'"
      using assms(3) \<open>tc_state c = kConnected \<and> _\<close> n by (auto simp: tc_send_def sendInLoop_def rbind_Inr_iff Let_def simp del: tc_interest_Inr)
    then show ?thesis using greets_interest g greets_fields(2) by blast
  next
    case False
    then have "c' = ?c \<or> c' = tc_queue WriteComplete ?c"
      using assms(3) \<open>tc_state c = kConnected \<and> _\<close> n by (auto simp: tc_send_def sendInLoop_def Let_def split: if_splits)
    then show ?thesis using g by auto
  qed
qed

lemma client_test_start:
  assumes "client_test_init w c"
  shows "conn_inv c \<and> greets c"
proof -
  obtain sockfd err addr s fd peer s' where s: "client_test_main sockfd err = Inr (addr, s)"
    and n: "cl_newConnection (client_test_program w) True fd peer s = Inr s'" "live_conn 0 s' = Some c"
    using assms unfolding client_test_init_def by blast
  have "cl_callbacks s = (True, True, True)" "cl_connection s = None" "objs s = []"
    using s by (auto simp: client_test_main_def cl_connect_op_def rbind_Inr_iff cl_set_callbacks_def TcpClient_new_def Let_def)
  then have m: "client_connection (client_test_program w) (cl_loop s) fd = Inr c" using client_made [OF _ _ _ n] by blast
  then obtain conn d where conn: "construct_connection True (cl_loop s) fd = Inr conn"
    and d: "tc_interest EnableReading ((all_callbacks conn)\<lparr>tc_state := kConnected\<rparr>) = Inr d"
    and u: "call_user (client_test_program w) OnConnection (tc_hasConnection d) d = Inr c"
    by (auto simp: client_connection_def connectEstablished_def rbind_Inr_iff simp del: tc_interest_Inr)
  have "tc_functors conn = []" "tc_accepted conn = []"
    using conn by (auto simp: construct_connection_def enableReadInLoop_def TcpConnection_new_def Let_def)
  then have "tc_functors d = []" "tc_accepted d = []" using d by auto
  moreover have "tc_send True ''smx'' (w d) d = Inr c"
    using u by (auto simp: call_user_def client_test_program_def rbind_Inr_iff split: if_splits)
  ultimately have "greets c" by (intro greets_send) simp_all
  then show ?thesis using client_connection_inv [OF m] by simp
qed

interpretation gc: invariant_system "client_test_init w" "client_step (client_test_program w) w" "\<lambda>c. conn_inv c \<and> greets c" for w
proof (unfold_locales, goal_cases)
  case (1 c)
  then show ?case by (rule client_test_start)
next
  case (2 c d)
  have "conn_inv d"
    using conn_step_forward [OF close_forward(1) client_step_conn [OF 2(2)]] 2(1) by blast
  then show ?case using greets_step 2 by blast
qed

section \<open>Properties\<close>

text \<open>The client greets once. At every state its connection can reach, whatever the system takes of each write
  and whatever arrives, at most one message has been accepted, and the bytes sent followed by those that
  wait are that message, or nothing if the first write failed: nothing is ever sent twice or again.\<close>

theorem client_greets_once:
  assumes "reachable (client_test_init w) (client_step (client_test_program w) w) c"
  shows "tc_accepted c \<in> {[], [''smx'']} \<and> tc_sent c @ contents (tc_output c) = concat (tc_accepted c) \<and> prefix (tc_sent c) ''smx''"
proof -
  have "conn_inv c" "greets c" using gc.inv_reachable [OF assms] by simp_all
  then have a: "tc_accepted c \<in> {[], [''smx'']}" and s: "tc_sent c @ contents (tc_output c) = concat (tc_accepted c)"
    by (auto simp: greets_def conn_inv_def)
  then have "concat (tc_accepted c) = ''smx'' \<or> tc_sent c = []" by auto
  then have "prefix (tc_sent c) ''smx''" using s by (metis Nil_prefix prefixI)
  then show ?thesis using a s by blast
qed

text \<open>The system takes the message at once, and its completion is reported.\<close>

theorem client_greets_once_witness:
  "\<exists>c :: TcpConnection. tc_functors c = [] \<and> tc_sent c = ''smx'' \<and> tc_accepted c \<in> {[], [''smx'']} \<and> prefix (tc_sent c) ''smx''"
proof -
  let ?w = "\<lambda>c :: TcpConnection. Wrote 3"
  have z: "readableBytes Buffer_init = 0" by (simp add: Buffer_init_def readableBytes_def)
  obtain c where c: "client_connection (client_test_program ?w) 0 5 = Inr c" "tc_functors c = [WriteComplete]" "tc_sent c = ''smx''"
    using z by (simp add: client_connection_def construct_connection_def enableReadInLoop_def TcpConnection_new_def Channel_new_def
        connectEstablished_def call_user_def client_test_program_def tc_send_def sendInLoop_def sys_write_def tc_queue_def
        tc_interest_def set_index_def enableReading_def tc_isWriting_def ch_isWriting_def Let_def)
  obtain addr s where "client_test_main 7 0 = Inr (addr, s)" "cl_callbacks s = (True, True, True)" "cl_connection s = None" "objs s = []" "cl_loop s = 0"
    "cl_nextConnId s = 1"
    by (simp add: client_test_main_def cl_connect_op_def cl_set_callbacks_def TcpClient_new_def cn_start_def startInLoop_def
        Connector_new_def cn_connect_to_def connect_pending_def cn_connecting_def createNonblocking_def Let_def)
  moreover from this obtain s' where "cl_newConnection (client_test_program ?w) True 5 zero_addr s = Inr s'" "live_conn 0 s' = Some c"
    using c(1) by (auto simp: client_connection_def cl_newConnection_def rbind_Inr_iff Let_def cl_assign_def int32_def in_int32_def)
  ultimately have i: "client_test_init ?w c" unfolding client_test_init_def by blast
  have "run_functor (client_test_program ?w) (Wrote 3) WriteComplete (c\<lparr>tc_functors := []\<rparr>) = Inr (c\<lparr>tc_functors := []\<rparr>)"
    by (simp add: call_user_def client_test_program_def)
  then have "client_step (client_test_program ?w) ?w c (c\<lparr>tc_functors := []\<rparr>)" by (rule client_functor [OF c(2)])
  then have "reachable (client_test_init ?w) (client_step (client_test_program ?w) ?w) (c\<lparr>tc_functors := []\<rparr>)"
    using i reach_init reach_step by meson
  from client_greets_once [OF this] c(3) show ?thesis by (intro exI [of _ "c\<lparr>tc_functors := []\<rparr>"]) auto
qed

end
