(* ===== verification/ConnPollers.thy ===== *)
theory ConnPollers
  imports ConnClosures
begin

text \<open>
  A connection and the poller of its loop. The theory of the connection keeps of the poller only whether
  the channel is registered; here the poller runs beside it, with any other channels in it. Each change of
  interest of the connection is a call of \<open>Channel::update\<close> that the poller carries out, and the end of the
  connection a call of \<open>removeChannel\<close>, so that what the system watches for the connection is known at
  every state it can reach.
\<close>

section \<open>The two together\<close>

text \<open>
  What the poller does when the channel object \<open>oid\<close> of a connection asks it, and the calls that a
  connection has made, as it has recorded them, carried out by the poller one after the other.
\<close>

fun ask_poller :: "nat \<Rightarrow> poller_ask \<Rightarrow> 'cb PollPoller \<Rightarrow> 'cb PollPoller res" where
  "ask_poller oid (AskInterest i) P = channel_set True oid i P"
| "ask_poller oid AskRemove P = loop_removeChannel True oid P"

fun replay :: "nat \<Rightarrow> poller_ask list \<Rightarrow> 'cb PollPoller \<Rightarrow> 'cb PollPoller res" where
  "replay oid [] P = Inr P"
| "replay oid (a # as) P = rbind (ask_poller oid a P) (replay oid as)"

lemma replay_append: "replay oid as P = Inr P' \<Longrightarrow> replay oid (as @ bs) P = replay oid bs P'"
  by (induction as arbitrary: P) (auto simp: rbind_Inr_iff)

definition conn_fd :: "TcpConnection \<Rightarrow> int" where
  "conn_fd c = ch_fd (tc_channel c)"

definition conn_mask :: "TcpConnection \<Rightarrow> 32 word" where
  "conn_mask c = ch_events (tc_channel c)"

text \<open>The channel is in use: not yet registered, or registered.\<close>

definition in_use :: "TcpConnection \<Rightarrow> bool" where
  "in_use c \<longleftrightarrow> tc_registered c \<or> ch_index (tc_channel c) < 0"

text \<open>The poller as the connection has it.\<close>

definition polled :: "nat \<Rightarrow> TcpConnection \<Rightarrow> 'cb PollPoller \<Rightarrow> bool" where
  "polled oid c P \<longleftrightarrow> pp_inv P
     \<and> pp_watched P (conn_fd c) = (if tc_registered c then Some (short (conn_mask c)) else None)
     \<and> (in_use c \<longrightarrow> pp_fd_of P oid = Some (conn_fd c) \<and> mask_at P oid = conn_mask c)"

text \<open>The interest of a connection through its life.\<close>

definition interest_inv :: "TcpConnection \<Rightarrow> bool" where
  "interest_inv c \<longleftrightarrow>
     conn_mask c = (if ch_index (tc_channel c) < 0 then 0 else if tc_isWriting c then kReadEvent OR kWriteEvent else kReadEvent)
     \<and> (tc_registered c \<longrightarrow> 0 \<le> ch_index (tc_channel c))
     \<and> (tc_state c = kConnected \<or> tc_state c = kDisconnecting \<longrightarrow> tc_registered c)
     \<and> (tc_state c = kDisconnected \<longrightarrow> \<not> in_use c)
     \<and> (\<forall>m. SendInLoop m \<in> set (tc_functors c) \<longrightarrow> tc_state c \<noteq> kConnnecting)"

text \<open>
  The poller that carries out the calls \<open>as\<close> keeps in step with a connection that goes from \<open>c\<close> to \<open>c'\<close>,
  and leaves other descriptors as they are.
\<close>

definition carried_out :: "poller_ask list \<Rightarrow> TcpConnection \<Rightarrow> TcpConnection \<Rightarrow> nat \<Rightarrow> unit PollPoller \<Rightarrow> bool" where
  "carried_out as c c' oid P \<longleftrightarrow> (\<exists>P'. replay oid as P = Inr P' \<and> polled oid c' P'
     \<and> (\<forall>fd. fd \<noteq> conn_fd c \<longrightarrow> pp_watched P' fd = pp_watched P fd))"

text \<open>A step is followed if the poller keeps in step by exactly the calls that the connection makes in it.\<close>

definition follows :: "TcpConnection \<Rightarrow> TcpConnection \<Rightarrow> bool" where
  "follows c c' \<longleftrightarrow> (interest_inv c \<longrightarrow> interest_inv c' \<and> conn_fd c' = conn_fd c
     \<and> (\<exists>as. tc_asks c' = tc_asks c @ as \<and> (\<forall>oid P. polled oid c P \<longrightarrow> carried_out as c c' oid P)))"

lemma followsE:
  fixes P :: "unit PollPoller"
  assumes "follows c c'" "interest_inv c" "conn_fd c = fd" "polled oid c P"
  obtains as P' where "interest_inv c'" "conn_fd c' = fd" "tc_asks c' = tc_asks c @ as" "replay oid as P = Inr P'"
    "polled oid c' P'" "\<forall>fd'. fd' \<noteq> fd \<longrightarrow> pp_watched P' fd' = pp_watched P fd'"
  using assms unfolding follows_def carried_out_def by blast

lemma follows_refl: "follows c c"
  by (auto simp: follows_def carried_out_def)

lemma carried_out_append:
  assumes "carried_out as a b oid P" "\<And>P. polled oid b P \<Longrightarrow> carried_out bs b c oid P" "conn_fd b = conn_fd a"
  shows "carried_out (as @ bs) a c oid P"
proof -
  obtain P1 where 1: "replay oid as P = Inr P1" "polled oid b P1" "\<forall>fd. fd \<noteq> conn_fd a \<longrightarrow> pp_watched P1 fd = pp_watched P fd"
    using assms(1) by (auto simp: carried_out_def)
  obtain P2 where "replay oid bs P1 = Inr P2" "polled oid c P2" "\<forall>fd. fd \<noteq> conn_fd a \<longrightarrow> pp_watched P2 fd = pp_watched P1 fd"
    using assms(2) [OF 1(2)] assms(3) by (auto simp: carried_out_def)
  with 1 show ?thesis by (auto simp: carried_out_def replay_append)
qed

lemma follows_trans:
  assumes "follows a b" "follows b c" shows "follows a c"
  unfolding follows_def
proof (intro impI conjI)
  assume i: "interest_inv a"
  then obtain as where a: "interest_inv b" "conn_fd b = conn_fd a" "tc_asks b = tc_asks a @ as"
    "\<And>oid P. polled oid a P \<Longrightarrow> carried_out as a b oid P"
    using assms(1) unfolding follows_def by blast
  then obtain bs where b: "interest_inv c" "conn_fd c = conn_fd b" "tc_asks c = tc_asks b @ bs"
    "\<And>oid P. polled oid b P \<Longrightarrow> carried_out bs b c oid P"
    using assms(2) unfolding follows_def by blast
  show "interest_inv c" "conn_fd c = conn_fd a" using a b by simp_all
  show "\<exists>as. tc_asks c = tc_asks a @ as \<and> (\<forall>oid P. polled oid a P \<longrightarrow> carried_out as a c oid P)"
    using a(3) b(3) carried_out_append [OF a(4) b(4) a(2)] by (intro exI [of _ "as @ bs"]) simp
qed

text \<open>Nothing of the channel changes.\<close>

lemma follows_same:
  assumes "tc_channel c' = tc_channel c" "tc_registered c' = tc_registered c" "tc_asks c' = tc_asks c"
    "interest_inv c \<Longrightarrow> interest_inv c'"
  shows "follows c c'"
proof -
  have "polled oid c' P = polled oid c P" "conn_fd c' = conn_fd c" for oid and P :: "unit PollPoller"
    using assms(1,2) by (simp_all add: polled_def conn_fd_def conn_mask_def in_use_def)
  then show ?thesis using assms(3,4) by (auto simp: follows_def carried_out_def)
qed

section \<open>A change of interest\<close>

lemma set_interest_mask: "ch_events (set_index k (set_interest i ch)) = change_mask i (ch_events ch)"
  by (simp add: set_index_def)

lemma mask_facts:
  "kReadEvent OR kWriteEvent \<noteq> 0" "kReadEvent \<noteq> 0" "kReadEvent OR kReadEvent = kReadEvent"
  "kReadEvent OR kWriteEvent OR kReadEvent = kReadEvent OR kWriteEvent"
  "(kReadEvent OR kWriteEvent) OR kWriteEvent = kReadEvent OR kWriteEvent"
  "(kReadEvent OR kWriteEvent) AND NOT kWriteEvent = kReadEvent" "kReadEvent AND NOT kWriteEvent = kReadEvent"
  by (simp_all add: event_masks)

lemma polled_interest:
  assumes p: "polled oid c P" and t: "tc_interest i c = Inr c'" and m: "change_mask i (conn_mask c) \<noteq> 0"
  shows "carried_out [AskInterest i] c c' oid P"
proof -
  have u: "in_use c" and c': "c' = c\<lparr>tc_channel := set_index (max 0 (ch_index (tc_channel c))) (set_interest i (tc_channel c)), tc_registered := True,
       tc_asks := tc_asks c @ [AskInterest i]\<rparr>"
    using t by (auto simp: in_use_def)
  then have f: "conn_fd c' = conn_fd c" "conn_mask c' = change_mask i (conn_mask c)" "tc_registered c'"
    by (simp_all add: conn_fd_def conn_mask_def set_index_def)
  obtain P' where "channel_set True oid i P = Inr P'" "pp_inv P'" "pp_fd_of P' oid = Some (conn_fd c)"
    "mask_at P' oid = change_mask i (mask_at P oid)"
    "pp_watched P' = (pp_watched P)(conn_fd c \<mapsto> short (change_mask i (mask_at P oid)))"
    using channel_set_ok [of P oid "conn_fd c" i] p u m by (auto simp: polled_def)
  with p u f show ?thesis unfolding carried_out_def by (intro exI [of _ P']) (auto simp: polled_def)
qed

lemma follows_interest:
  assumes "tc_interest i c = Inr c'"
    and "interest_inv c \<Longrightarrow> change_mask i (conn_mask c) \<noteq> 0" "interest_inv c \<Longrightarrow> interest_inv c'"
  shows "follows c c'"
proof -
  have "conn_fd c' = conn_fd c" "tc_asks c' = tc_asks c @ [AskInterest i]"
    using assms(1) by (auto simp: conn_fd_def set_index_def)
  then show ?thesis unfolding follows_def using assms(2,3) polled_interest [OF _ assms(1)] by blast
qed


text \<open>The clauses on the interest itself, which the beginning and the end of a life keep too.\<close>

definition mask_inv :: "TcpConnection \<Rightarrow> bool" where
  "mask_inv c \<longleftrightarrow>
     conn_mask c = (if ch_index (tc_channel c) < 0 then 0 else if tc_isWriting c then kReadEvent OR kWriteEvent else kReadEvent)
     \<and> (tc_registered c \<longrightarrow> 0 \<le> ch_index (tc_channel c))"

lemma mask_inv_interest:
  assumes "mask_inv c" "tc_interest i c = Inr c'" "i = EnableReading \<or> tc_registered c"
  shows "mask_inv c' \<and> change_mask i (conn_mask c) \<noteq> 0 \<and> tc_registered c' \<and> 0 \<le> ch_index (tc_channel c')
    \<and> tc_state c' = tc_state c \<and> tc_functors c' = tc_functors c"
proof -
  have c': "c' = c\<lparr>tc_channel := set_index (max 0 (ch_index (tc_channel c))) (set_interest i (tc_channel c)), tc_registered := True,
       tc_asks := tc_asks c @ [AskInterest i]\<rparr>"
    using assms(2) by simp
  have m: "conn_mask c' = change_mask i (conn_mask c)" "ch_index (tc_channel c') = max 0 (ch_index (tc_channel c))"
    by (simp_all add: c' conn_mask_def set_index_def)
  have w: "tc_isWriting c' = (i = EnableWriting \<or> (tc_isWriting c \<and> i \<noteq> DisableWriting))"
    by (simp add: c' set_interest_writing tc_isWriting_def)
  have z: "tc_isWriting c = has_bits (conn_mask c) kWriteEvent" by (simp add: tc_isWriting_def ch_isWriting_def conn_mask_def)
  show ?thesis
  proof (cases "ch_index (tc_channel c) < 0")
    case True
    then have "conn_mask c = 0" "i = EnableReading" using assms(1,3) by (auto simp: mask_inv_def)
    then show ?thesis using m w z True by (simp add: mask_inv_def mask_facts c')
  next
    case False
    then have e: "conn_mask c = (if tc_isWriting c then kReadEvent OR kWriteEvent else kReadEvent)"
      using assms(1) by (simp add: mask_inv_def)
    have "0 \<le> ch_index (tc_channel c')" "tc_registered c'" using m(2) by (simp_all add: c')
    moreover have "change_mask i (conn_mask c) = (if tc_isWriting c' then kReadEvent OR kWriteEvent else kReadEvent)
        \<and> change_mask i (conn_mask c) \<noteq> 0"
      unfolding e w by (cases i; cases "tc_isWriting c"; simp add: event_masks)
    ultimately show ?thesis using m by (simp add: mask_inv_def c' mask_facts(1,2))
  qed
qed

lemma interest_inv_mask: "interest_inv c \<Longrightarrow> mask_inv c"
  by (simp add: interest_inv_def mask_inv_def)

lemma follows_any:
  assumes t: "tc_interest i c = Inr c'" and r: "interest_inv c \<Longrightarrow> i = EnableReading \<or> tc_registered c"
  shows "follows c c'"
proof (rule follows_interest [OF t])
  assume i: "interest_inv c"
  note m = mask_inv_interest [OF interest_inv_mask [OF i] t r [OF i]]
  then show "change_mask i (conn_mask c) \<noteq> 0" by simp
  have "in_use c" using t by (auto simp: in_use_def)
  then show "interest_inv c'" using m i by (auto simp: interest_inv_def mask_inv_def)
qed

interpretation cf: conn_closure follows "\<lambda>st. st \<noteq> kConnnecting"
proof (unfold_locales)
  show "follows c c" for c by (rule follows_refl)
  show "follows a c" if "follows a b" "follows b c" for a b c using that by (rule follows_trans)
  show "follows c (c\<lparr>tc_input := b\<rparr>)" "follows c (c\<lparr>tc_output := b\<rparr>)" "follows c (c\<lparr>tc_fin := True\<rparr>)"
    "follows c (tc_queue WriteComplete c)" "follows c (tc_queue ShutdownInLoop c)"
    "follows c (c\<lparr>tc_sent := bs, tc_accepted := ms\<rparr>)" "follows c (c\<lparr>tc_sent := bs, tc_output := b\<rparr>)" for c b bs ms
    by (rule follows_same; simp add: interest_inv_def conn_mask_def in_use_def tc_queue_def)+
  show "follows c (tc_queue (SendInLoop m) c)" "follows c (c\<lparr>tc_state := kDisconnecting\<rparr>)" if "tc_state c = kConnected" for c m
    using that by (auto intro!: follows_same simp: interest_inv_def conn_mask_def in_use_def tc_queue_def)
  show "follows c c'" if "tc_state c \<noteq> kConnnecting" "tc_interest EnableWriting c = Inr c'" for c c'
  proof (rule follows_any [OF that(2)])
    assume "interest_inv c"
    moreover have "in_use c" using that(2) by (auto simp: in_use_def)
    ultimately show "EnableWriting = EnableReading \<or> tc_registered c"
      using that(1) by (cases "tc_state c") (auto simp: interest_inv_def)
  qed
  show "follows c c'" if "tc_isWriting c" "tc_interest DisableWriting c = Inr c'" for c c'
  proof (rule follows_any [OF that(2)])
    assume i: "interest_inv c"
    have "\<not> ch_index (tc_channel c) < 0"
      using i that(1) by (auto simp: interest_inv_def conn_mask_def tc_isWriting_def ch_isWriting_def)
    then show "DisableWriting = EnableReading \<or> tc_registered c" using that(2) by auto
  qed
qed simp

section \<open>The beginning and the end\<close>

lemma polled_same:
  "tc_channel c' = tc_channel c \<Longrightarrow> tc_registered c' = tc_registered c \<Longrightarrow> polled oid c' P = polled oid c P"
  by (simp add: polled_def conn_fd_def conn_mask_def in_use_def)

text \<open>A change of interest together with a change of the state of the connection.\<close>

lemma follows_turn:
  assumes t: "tc_interest i (c\<lparr>tc_state := st\<rparr>) = Inr d"
    and r: "interest_inv c \<Longrightarrow> i = EnableReading \<or> tc_registered c" and st: "st = kConnected"
  shows "follows c d"
proof -
  let ?c = "c\<lparr>tc_state := st\<rparr>"
  have fd: "conn_fd d = conn_fd c" and asks: "tc_asks d = tc_asks c @ [AskInterest i]"
    using t by (auto simp: conn_fd_def set_index_def)
  show ?thesis unfolding follows_def
  proof (intro impI conjI exI [of _ "[AskInterest i]"] allI)
    assume i: "interest_inv c"
    have "mask_inv ?c" using interest_inv_mask [OF i] by (simp add: mask_inv_def conn_mask_def)
    from mask_inv_interest [OF this t] r [OF i] have m: "mask_inv d" "change_mask i (conn_mask ?c) \<noteq> 0" "tc_registered d"
      "0 \<le> ch_index (tc_channel d)" "tc_state d = st" by auto
    then show "interest_inv d" using st by (simp add: interest_inv_def mask_inv_def)
    show "conn_fd d = conn_fd c" "tc_asks d = tc_asks c @ [AskInterest i]" by (rule fd, rule asks)
    fix oid and P :: "unit PollPoller" assume "polled oid c P"
    then have "polled oid ?c P" using polled_same [of ?c c oid P] by simp
    from polled_interest [OF this t m(2)] show "carried_out [AskInterest i] c d oid P"
      by (simp add: carried_out_def conn_fd_def)
  qed
qed

lemma follows_established: "connectEstablished user b c = Inr c' \<Longrightarrow> follows c c'"
proof -
  assume "connectEstablished user b c = Inr c'"
  then obtain d where d: "tc_interest EnableReading (c\<lparr>tc_state := kConnected\<rparr>) = Inr d"
    and u: "call_user user OnConnection (tc_hasConnection d) d = Inr c'"
    by (auto simp: connectEstablished_def rbind_Inr_iff split: if_splits simp del: tc_interest_Inr)
  from follows_turn [OF d] have "follows c d" by simp
  then show ?thesis using cf.call_user_closed [OF u] follows_trans by blast
qed

lemma follows_destroyed: "connectDestroyed b c = Inr c' \<Longrightarrow> follows c c'"
proof -
  assume "connectDestroyed b c = Inr c'"
  let ?c = "c\<lparr>tc_state := kDisconnected\<rparr>"
  from \<open>connectDestroyed b c = Inr c'\<close> obtain d where st: "tc_state c = kConnected \<or> tc_state c = kDisconnecting"
    and d: "tc_interest DisableAll ?c = Inr d" and c': "c' = d\<lparr>tc_registered := False, tc_asks := tc_asks d @ [AskRemove]\<rparr>"
    unfolding connectDestroyed_def by (auto simp: rassert_Inr_iff rbind_Inr_iff split: if_splits simp del: tc_interest_Inr)
  let ?as = "[AskInterest DisableAll, AskRemove]"
  have fd: "conn_fd d = conn_fd c" "conn_fd c' = conn_fd d" and asks: "tc_asks c' = tc_asks c @ ?as"
    using d by (auto simp: conn_fd_def set_index_def c')
  show ?thesis unfolding follows_def
  proof (intro impI conjI exI [of _ ?as] allI)
    assume i: "interest_inv c"
    have "mask_inv ?c" "tc_registered ?c" using i st interest_inv_mask [OF i] by (auto simp: mask_inv_def conn_mask_def interest_inv_def)
    from mask_inv_interest [OF this(1) d] this(2) have m: "mask_inv d" "change_mask DisableAll (conn_mask ?c) \<noteq> 0" "tc_registered d"
      "0 \<le> ch_index (tc_channel d)" "tc_state d = kDisconnected" by auto
    then show "interest_inv c'" by (simp add: c' interest_inv_def mask_inv_def in_use_def conn_mask_def)
    show "conn_fd c' = conn_fd c" "tc_asks c' = tc_asks c @ ?as" using fd asks by simp_all
    fix oid and P :: "unit PollPoller" assume "polled oid c P"
    then have "polled oid ?c P" using polled_same [of ?c c oid P] by simp
    from polled_interest [OF this d m(2)] have 1: "carried_out [AskInterest DisableAll] c d oid P"
      by (simp add: carried_out_def conn_fd_def)
    have 2: "carried_out [AskRemove] d c' oid P1" if p1: "polled oid d P1" for P1
    proof -
      obtain P2 where P2: "loop_removeChannel True oid P1 = Inr P2" "pp_inv P2" "pp_watched P2 = (pp_watched P1)(conn_fd d := None)"
        using remove_ok [of P1 oid "conn_fd d"] p1 m(3) by (auto simp: polled_def in_use_def)
      moreover have "polled oid c' P2" using P2 m(4) by (simp add: polled_def c' in_use_def conn_fd_def)
      ultimately show ?thesis by (simp add: carried_out_def)
    qed
    show "carried_out ?as c c' oid P" using carried_out_append [OF 1 2 fd(1)] by simp
  qed
qed

lemma follows_close:
  assumes "close_by_queue c = Inr c' \<or> close_at_once c = Inr c'" shows "follows c c'"
proof (cases "close_by_queue c = Inr c'")
  case True
  then show ?thesis
    by (intro follows_same) (auto simp: close_by_queue_def interest_inv_def conn_mask_def in_use_def tc_queue_def)
qed (use assms follows_destroyed in \<open>auto simp: close_at_once_def\<close>)

lemma follows_handleClose:
  assumes close: "\<And>c c'. close c = Inr c' \<Longrightarrow> follows c c'" and h: "handleClose close b c = Inr c'"
  shows "follows c c'"
proof -
  obtain d where st: "tc_state c = kConnected \<or> tc_state c = kDisconnecting" and d: "tc_interest DisableAll c = Inr d"
    and c': "close d = Inr c'"
    using h by (auto simp: handleClose_def rassert_Inr_iff rbind_Inr_iff split: if_splits simp del: tc_interest_Inr)
  have "tc_registered c" if "interest_inv c" using that st by (auto simp: interest_inv_def)
  then have "follows c d" by (intro follows_any [OF d]) simp
  then show ?thesis using close [OF c'] by (rule follows_trans)
qed

lemma follows_run_functor:
  assumes q: "tc_functors c = f # fs" and f: "run_functor user w f (c\<lparr>tc_functors := fs\<rparr>) = Inr c'" and i: "interest_inv c"
  shows "follows c c'"
proof -
  let ?c = "c\<lparr>tc_functors := fs\<rparr>"
  have 1: "follows c ?c" using q by (intro follows_same) (auto simp: interest_inv_def conn_mask_def in_use_def)
  have "follows ?c c'"
  proof (cases f)
    case EnableReadInLoop
    then show ?thesis using f follows_any [of EnableReading ?c c'] by (simp add: enableReadInLoop_def del: tc_interest_Inr)
  next
    case ConnectEstablished
    then show ?thesis using f follows_established by simp
  next
    case (SendInLoop m)
    then show ?thesis using f q i cf.sendInLoop_closed [of True m w ?c c'] by (simp add: interest_inv_def)
  next
    case ShutdownInLoop
    then show ?thesis using f cf.shutdownInLoop_closed by simp
  next
    case WriteComplete
    then show ?thesis using f cf.call_user_closed by simp
  next
    case ConnectDestroyed
    then show ?thesis using f follows_destroyed by simp
  qed
  with 1 show ?thesis by (rule follows_trans)
qed

lemma follows_step:
  assumes close: "close = close_by_queue \<or> close = close_at_once" and step: "conn_step user close c c'"
  shows "follows c c'"
proof (cases "interest_inv c")
  case False
  then show ?thesis by (simp add: follows_def)
next
  case True
  have cl: "close c = Inr c' \<Longrightarrow> follows c c'" for c c' using close follows_close by auto
  show ?thesis
    using step
  proof cases
    case (step_functor f fs w)
    then show ?thesis using follows_run_functor True by blast
  next
    case (step_read r t)
    from cf.handleRead_closed [OF this(2)] show ?thesis
    proof cases
      case (2 inp)
      then show ?thesis using follows_handleClose [OF cl] cf.input follows_trans by blast
    qed
  next
    case (step_loop_call u)
    then show ?thesis using cf.user_steps_closed [of "[u]" c c'] by simp
  qed (blast intro: cf.handleWrite_closed cf.send_closed cf.shutdown_closed)+
qed

lemma follows_steps:
  assumes "close = close_by_queue \<or> close = close_at_once" and "(conn_step user close)\<^sup>*\<^sup>* c c'"
  shows "follows c c'"
  using assms(2)
proof (induction rule: rtranclp_induct)
  case base
  show ?case by (rule follows_refl)
next
  case (step d e)
  then show ?case using follows_step [OF assms(1)] follows_trans by blast
qed

section \<open>What the system watches\<close>

lemma new_connection_facts:
  "interest_inv (TcpConnection_new loop fd)" "conn_fd (TcpConnection_new loop fd) = fd"
  "polled oid (TcpConnection_new loop fd) P \<longleftrightarrow>
     pp_inv P \<and> pp_watched P fd = None \<and> pp_fd_of P oid = Some fd \<and> mask_at P oid = 0"
  by (simp_all add: interest_inv_def conn_mask_def conn_fd_def polled_def in_use_def TcpConnection_new_def Channel_new_def)

text \<open>The connection of a server or a client, with the callbacks of its owner and its beginning queued.\<close>

definition given_to_loop :: "TcpConnection \<Rightarrow> bool \<Rightarrow> bool \<Rightarrow> bool \<Rightarrow> TcpConnection" where
  "given_to_loop c has_connection has_message has_write_complete =
     tc_queue ConnectEstablished (c\<lparr>tc_hasConnection := has_connection, tc_hasMessage := has_message,
       tc_hasWriteComplete := has_write_complete, tc_hasClose := True\<rparr>)"

lemma follows_given:
  assumes "construct_connection in_loop loop fd = Inr c0"
  shows "follows (TcpConnection_new loop fd) (given_to_loop c0 a b w)"
proof -
  have "follows (TcpConnection_new loop fd) c0"
  proof (cases in_loop)
    case True
    then show ?thesis using assms follows_any [of EnableReading "TcpConnection_new loop fd" c0]
      by (simp add: construct_connection_def enableReadInLoop_def Let_def del: tc_interest_Inr)
  next
    case False
    then have "c0 = tc_queue EnableReadInLoop (TcpConnection_new loop fd)" using assms by (simp add: construct_connection_def Let_def)
    then show ?thesis by (intro follows_same) (auto simp: tc_queue_def interest_inv_def conn_mask_def in_use_def)
  qed
  moreover have "follows c0 (given_to_loop c0 a b w)"
    by (rule follows_same) (simp_all add: given_to_loop_def tc_queue_def interest_inv_def conn_mask_def in_use_def tc_isWriting_def)
  ultimately show ?thesis by (rule follows_trans)
qed

lemma given_init: "construct_connection in_loop loop fd = Inr c0 \<Longrightarrow> conn_init (given_to_loop c0 a b w)"
  using construct_init [of in_loop loop fd c0]
  by (cases in_loop) (auto simp: construct_connection_def enableReadInLoop_def Let_def TcpConnection_new_def
      given_to_loop_def conn_init_def tc_queue_def tc_isWriting_def)


text \<open>C4: A connection that is constructed on a descriptor and given to its loop keeps the poller in
  step with itself through everything that can happen to it, whatever the program does in its callbacks,
  whatever the other threads send, whatever the system reads and writes. The poller is well formed, has the
  new channel object and does not watch the descriptor yet. Then the updates and removals that the
  connection itself has made of its loop, in the order it made them, are all carried out by the poller
  without a failed assertion or other fault and leave the other descriptors as they were; after them the
  system watches the descriptor exactly while the channel is registered: for reading when nothing waits in
  the output buffer, for reading and writing when something does. It is registered in the states kConnected
  and kDisconnecting and not after the end.\<close>

theorem connection_watched:
  fixes P :: "unit PollPoller"
  assumes "construct_connection in_loop loop fd = Inr c0" and "close = close_by_queue \<or> close = close_at_once"
    and "(conn_step user close)\<^sup>*\<^sup>* (given_to_loop c0 has_connection has_message has_write_complete) c"
    and "pp_inv P" and "pp_watched P fd = None" and "pp_fd_of P oid = Some fd" and "mask_at P oid = 0"
  shows "\<exists>P'. replay oid (tc_asks c) P = Inr P' \<and> pp_inv P' \<and> (\<forall>fd'. fd' \<noteq> fd \<longrightarrow> pp_watched P' fd' = pp_watched P fd')
    \<and> pp_watched P' fd = (if \<not> tc_registered c then None
        else if contents (tc_output c) = [] then Some (short kReadEvent) else Some (short (kReadEvent OR kWriteEvent)))
    \<and> (tc_state c = kConnected \<or> tc_state c = kDisconnecting \<longrightarrow> tc_registered c)
    \<and> (tc_state c = kDisconnected \<longrightarrow> \<not> tc_registered c)"
proof -
  let ?n = "TcpConnection_new loop fd"
  have "follows ?n c"
    using follows_given [OF assms(1)] follows_steps [OF assms(2,3)] by (rule follows_trans)
  moreover have "interest_inv ?n" "conn_fd ?n = fd" "polled oid ?n P" using assms(4-7) by (simp_all add: new_connection_facts)
  ultimately obtain as P' where i: "interest_inv c" and fd: "conn_fd c = fd" and "tc_asks c = tc_asks ?n @ as" "replay oid as P = Inr P'"
    and p: "polled oid c P'" and o: "\<forall>fd'. fd' \<noteq> fd \<longrightarrow> pp_watched P' fd' = pp_watched P fd'"
    by (rule followsE)
  then have a: "replay oid (tc_asks c) P = Inr P'" by (simp add: TcpConnection_new_def)
  have "reachable conn_init (conn_step user close) c"
    by (rule reachable_steps [OF assms(3) reach_init]) (rule given_init [OF assms(1)])
  then have "conn_inv c" by (rule reachable_conn_inv [OF assms(2)])
  then have w: "tc_isWriting c \<longleftrightarrow> contents (tc_output c) \<noteq> []" by (simp add: conn_inv_def)
  have "conn_mask c = (if contents (tc_output c) = [] then kReadEvent else kReadEvent OR kWriteEvent)" if "tc_registered c"
    using i w that by (simp add: interest_inv_def)
  then have "pp_watched P' fd = (if \<not> tc_registered c then None
      else if contents (tc_output c) = [] then Some (short kReadEvent) else Some (short (kReadEvent OR kWriteEvent)))"
    using p fd by (simp add: polled_def)
  moreover have "pp_inv P'" using p by (simp add: polled_def)
  moreover have "tc_state c = kConnected \<or> tc_state c = kDisconnecting \<longrightarrow> tc_registered c"
    "tc_state c = kDisconnected \<longrightarrow> \<not> tc_registered c" using i by (simp_all add: interest_inv_def in_use_def)
  ultimately show ?thesis using a o by (intro exI [of _ P'] conjI)
qed


text \<open>The message ``hello'' of which the system takes two bytes leaves the descriptor watched for writing.\<close>

lemma connection_watched_witness:
  "\<exists>(c :: TcpConnection) (P :: unit PollPoller) P'. contents (tc_output c) = ''llo'' \<and> tc_state c = kConnected
     \<and> tc_asks c = [AskInterest EnableReading, AskInterest EnableReading, AskInterest EnableWriting]
     \<and> replay 0 (tc_asks c) P = Inr P' \<and> pp_watched P 5 = None \<and> pp_watched P' 5 = Some (short (kReadEvent OR kWriteEvent))"
proof -
  let ?P = "store 0 (Channel_new 0 5) PollPoller_new :: unit PollPoller"
  have "owned [] ?P" by (simp add: owned_def PollPoller_new_def)
  then have P: "pp_inv ?P" "pp_watched ?P 5 = None" "pp_fd_of ?P 0 = Some 5" "mask_at ?P 0 = 0"
    by (auto simp: pp_inv_def PollPoller_new_def pp_fd_of_def pp_watched_def mask_at_def Channel_new_def)
  let ?c = "tc_queue EnableReadInLoop (TcpConnection_new 0 5)"
  let ?g = "given_to_loop ?c True True False"
  have new: "construct_connection False 0 5 = Inr ?c" by (simp add: construct_connection_def)
  obtain a where a: "run_functor quiet_program (Wrote 0) EnableReadInLoop (?g\<lparr>tc_functors := [ConnectEstablished]\<rparr>) = Inr a"
    "tc_functors a = [ConnectEstablished]" "tc_registered a" "tc_output a = Buffer_init" "tc_hasConnection a"
    "tc_asks a = [AskInterest EnableReading]"
    by (simp add: enableReadInLoop_def given_to_loop_def tc_queue_def TcpConnection_new_def Channel_new_def)
  obtain b where b: "run_functor quiet_program (Wrote 0) ConnectEstablished (a\<lparr>tc_functors := []\<rparr>) = Inr b"
    "tc_state b = kConnected" "tc_registered b" "tc_output b = Buffer_init"
    "tc_asks b = [AskInterest EnableReading, AskInterest EnableReading]"
    using a(3-6) by (simp add: connectEstablished_def tc_interest_def call_user_def quiet_program_def)
  have "conn_step quiet_program close_by_queue ?g a"
    by (rule step_functor [OF _ a(1)]) (simp add: given_to_loop_def tc_queue_def TcpConnection_new_def)
  moreover have "conn_step quiet_program close_by_queue a b" by (rule step_functor [OF a(2) b(1)])
  ultimately have gb: "(conn_step quiet_program close_by_queue)\<^sup>*\<^sup>* ?g b" by (meson r_into_rtranclp rtranclp.rtrancl_into_rtrancl)
  have "reachable conn_init (conn_step quiet_program close_by_queue) b"
    by (rule reachable_steps [OF gb reach_init]) (rule given_init [OF new])
  then have i: "conn_inv b" by (rule cq.inv_reachable)
  obtain c where c: "tc_send True ''hello'' (Wrote 2) b = Inr c" "tc_registered c" "tc_state c = kConnected" "contents (tc_output c) = ''llo''"
    "tc_asks c = [AskInterest EnableReading, AskInterest EnableReading, AskInterest EnableWriting]"
    using send_partial [OF i b(2) _ b(3), of 2 "''hello''"] b(4,5) by (auto simp: queue_simps)
  have "conn_step quiet_program close_by_queue b c" using c(1) by (intro step_loop_call [of "USend ''hello'' (Wrote 2)"]) simp
  then have "(conn_step quiet_program close_by_queue)\<^sup>*\<^sup>* ?g c" using gb by (meson rtranclp.rtrancl_into_rtrancl)
  from connection_watched [OF new _ this P] c(2,4) obtain P' where "replay 0 (tc_asks c) ?P = Inr P'"
    "pp_watched P' 5 = Some (short (kReadEvent OR kWriteEvent))" by auto
  then show ?thesis using c(3,4,5) P(2) by blast
qed

end
