(* ===== verification/Sockets.thy ===== *)
theory Sockets
  imports Endpoints StepSystems
begin

text \<open>
  \<open>Socket\<close> (winterfell/net/wf_socket.h, wf_socket.cc) with its pointer, and the wrappers of the system calls
  (wf_sockets_ops.cc). A socket object holds a pointer to an \<open>int\<close> on the heap, the descriptor; here the
  objects are variables, and each call the code makes of the system is recorded. \<open>kernel\<close> says which
  records are a use of open descriptors only. The closes of a negative number, which the acceptor makes after
  a refused accept, are no such use; they are counted apart, against the accepts that were refused.
\<close>

section \<open>The system calls\<close>

datatype syscall =
    SysSocket int
  | SysSetReuseAddr int int
  | SysBind int sockaddr_in
  | SysListen int int
  | SysAccept int int
  | SysShutdown int
  | SysClose int

text \<open>
  The specification of a record of calls: the descriptors that are open after a call, as POSIX has them, and
  \<open>None\<close> for a call on a descriptor that is not open or a new descriptor that was.
\<close>

fun kernel :: "int list \<Rightarrow> syscall \<Rightarrow> int list option" where
  "kernel fds (SysSocket fd) = (if fd \<in> set fds then None else Some (fd # fds))"
| "kernel fds (SysSetReuseAddr fd v) = (if fd \<in> set fds then Some fds else None)"
| "kernel fds (SysBind fd a) = (if fd \<in> set fds then Some fds else None)"
| "kernel fds (SysListen fd n) = (if fd \<in> set fds then Some fds else None)"
| "kernel fds (SysAccept fd connfd) =
     (if fd \<notin> set fds \<or> connfd \<in> set fds then None else if connfd < 0 then Some fds else Some (connfd # fds))"
| "kernel fds (SysShutdown fd) = (if fd \<in> set fds then Some fds else None)"
| "kernel fds (SysClose fd) = (if fd \<in> set fds then Some (remove1 fd fds) else None)"

fun kernel_run :: "int list \<Rightarrow> syscall list \<Rightarrow> int list option" where
  "kernel_run fds [] = Some fds"
| "kernel_run fds (c # cs) = (case kernel fds c of None \<Rightarrow> None | Some fds \<Rightarrow> kernel_run fds cs)"

lemma kernel_run_snoc [simp]:
  "kernel_run fds (cs @ [c]) = (case kernel_run fds cs of None \<Rightarrow> None | Some fds \<Rightarrow> kernel fds c)"
  by (induction cs arbitrary: fds) (auto split: option.splits)

text \<open>
  The calls on descriptors. What is left out are the closes of negative numbers, which the system answers with EBADF and which
  change nothing: \<open>Acceptor::handleRead\<close> makes a socket of the result of \<open>accept\<close> before it looks at it, so
  that after a refused accept the destructor closes its negative result.
\<close>

fun on_descriptor :: "syscall \<Rightarrow> bool" where
  "on_descriptor (SysClose fd) = (0 \<le> fd)"
| "on_descriptor c = True"

lemma on_descriptor_iff: "on_descriptor c \<longleftrightarrow> (\<forall>fd < 0. c \<noteq> SysClose fd)"
  by (cases c) (auto simp: not_less [symmetric])

definition descriptor_calls :: "syscall list \<Rightarrow> syscall list" where
  "descriptor_calls cs = filter on_descriptor cs"

lemma descriptor_calls_eq: "descriptor_calls cs = filter (\<lambda>c. \<forall>fd < 0. c \<noteq> SysClose fd) cs"
  unfolding descriptor_calls_def by (rule filter_cong [OF refl on_descriptor_iff])

lemma descriptor_calls_simps [simp]:
  "descriptor_calls [] = []"
  "descriptor_calls (cs @ [c]) = (if on_descriptor c then descriptor_calls cs @ [c] else descriptor_calls cs)"
  by (simp_all add: descriptor_calls_def)

definition closes :: "int \<Rightarrow> syscall list \<Rightarrow> nat" where
  "closes fd cs = length (filter (\<lambda>c. c = SysClose fd) cs)"

fun accept_returned :: "int \<Rightarrow> syscall \<Rightarrow> bool" where
  "accept_returned fd (SysAccept l n) = (n = fd)"
| "accept_returned fd c = False"

definition accepts :: "int \<Rightarrow> syscall list \<Rightarrow> nat" where
  "accepts fd cs = length (filter (accept_returned fd) cs)"

lemma closes_accepts_simps [simp]:
  "closes fd [] = 0" "accepts fd [] = 0"
  "closes fd (cs @ [c]) = closes fd cs + (if c = SysClose fd then 1 else 0)"
  "accepts fd (cs @ [c]) = accepts fd cs + (if accept_returned fd c then 1 else 0)"
  by (simp_all add: closes_def accepts_def)

section \<open>Socket objects\<close>

text \<open>\<open>so_ints\<close> is the heap, \<open>None\<close> a deleted cell; a variable that is in scope holds a pointer, which is null
  after a move. \<open>so_raw\<close> are the descriptors kept in plain variables, as by the connector.\<close>

record Sockets =
  so_ints :: "int option list"
  so_vars :: "nat \<Rightarrow> nat option option"
  so_raw :: "int list"
  so_calls :: "syscall list"

definition Sockets_init :: Sockets where
  "Sockets_init = \<lparr>so_ints = [], so_vars = (\<lambda>v. None), so_raw = [], so_calls = []\<rparr>"

definition sys :: "syscall \<Rightarrow> Sockets \<Rightarrow> Sockets" where
  "sys c s = s\<lparr>so_calls := so_calls s @ [c]\<rparr>"

definition sk_construct :: "nat \<Rightarrow> int \<Rightarrow> Sockets \<Rightarrow> Sockets" where
  "sk_construct v sockfd s = s\<lparr>so_ints := so_ints s @ [Some sockfd], so_vars := (so_vars s)(v := Some (Some (length (so_ints s))))\<rparr>"

definition read_int :: "nat \<Rightarrow> Sockets \<Rightarrow> int res" where
  "read_int p s = (if p < length (so_ints s) then (case so_ints s ! p of Some fd \<Rightarrow> Inr fd | None \<Rightarrow> Inl UseAfterFree) else Inl OutOfBounds)"

definition sk_fd :: "nat \<Rightarrow> Sockets \<Rightarrow> int res" where
  "sk_fd v s =
     (case so_vars s v of None \<Rightarrow> Inl UseAfterFree | Some None \<Rightarrow> Inl NullDeref | Some (Some p) \<Rightarrow> read_int p s)"

text \<open>The moving constructor delegates to the other one and then sets the pointer of its source to null.\<close>

definition sk_move :: "nat \<Rightarrow> nat \<Rightarrow> Sockets \<Rightarrow> Sockets res" where
  "sk_move v sock s =
     rbind (sk_fd sock s) (\<lambda>fd.
     let s = sk_construct v fd s in Inr (s\<lparr>so_vars := (so_vars s)(sock := Some None)\<rparr>))"

definition sockets_close :: "int \<Rightarrow> Sockets \<Rightarrow> Sockets" where
  "sockets_close fd s = sys (SysClose fd) s"

definition sk_destroy :: "nat \<Rightarrow> Sockets \<Rightarrow> Sockets res" where
  "sk_destroy v s =
     (case so_vars s v of
        None \<Rightarrow> Inl UseAfterFree
      | Some None \<Rightarrow> Inr (s\<lparr>so_vars := (so_vars s)(v := None)\<rparr>)
      | Some (Some p) \<Rightarrow>
          rbind (sk_fd v s) (\<lambda>fd.
          let s = sys (SysClose fd) s
          in Inr (s\<lparr>so_ints := (so_ints s)[p := None], so_vars := (so_vars s)(v := None)\<rparr>)))"

section \<open>The wrappers\<close>

text \<open>Those whose failure is fatal abort on a negative result; the others log it or ignore it.\<close>

definition sockets_createNonblocking :: "int \<Rightarrow> Sockets \<Rightarrow> (int \<times> Sockets) res" where
  "sockets_createNonblocking sockfd s = rbind (createNonblocking sockfd) (\<lambda>fd. Inr (fd, sys (SysSocket fd) s))"

definition sockets_setReuseAddr :: "int \<Rightarrow> bool \<Rightarrow> Sockets \<Rightarrow> Sockets" where
  "sockets_setReuseAddr sockfd on s = (let optval = (if on then 1 else 0) in sys (SysSetReuseAddr sockfd optval) s)"

definition sockets_shutdownWrite :: "int \<Rightarrow> Sockets \<Rightarrow> Sockets" where
  "sockets_shutdownWrite sockfd s = sys (SysShutdown sockfd) s"

text \<open>The address the system writes is used when the call succeeds; otherwise it is all zero.\<close>

definition getLocalAddr :: "int \<Rightarrow> sockaddr_in \<Rightarrow> sockaddr_in" where
  "getLocalAddr ret written = (if ret < 0 then zero_addr else written)"

definition getPeerAddr :: "int \<Rightarrow> sockaddr_in \<Rightarrow> sockaddr_in" where
  "getPeerAddr ret written = (if ret < 0 then zero_addr else written)"

definition sk_setReuseAddr :: "nat \<Rightarrow> bool \<Rightarrow> Sockets \<Rightarrow> Sockets res" where
  "sk_setReuseAddr v on s = rbind (sk_fd v s) (\<lambda>fd. Inr (sockets_setReuseAddr fd on s))"

definition sk_bindAddress :: "nat \<Rightarrow> sockaddr_in \<Rightarrow> int \<Rightarrow> Sockets \<Rightarrow> Sockets res" where
  "sk_bindAddress v endpoint ret s =
     rbind (sk_fd v s) (\<lambda>fd. rbind (sockets_bind ret) (\<lambda>_. Inr (sys (SysBind fd endpoint) s)))"

definition default_backlog :: int where
  "default_backlog = 128"

definition sk_listen :: "nat \<Rightarrow> int \<Rightarrow> Sockets \<Rightarrow> Sockets res" where
  "sk_listen v ret s =
     rbind (sk_fd v s) (\<lambda>fd. rbind (sockets_listen ret) (\<lambda>_. Inr (sys (SysListen fd default_backlog) s)))"

definition sk_accept :: "nat \<Rightarrow> int \<Rightarrow> sockaddr_in \<Rightarrow> sockaddr_in \<Rightarrow> Sockets \<Rightarrow> ((int \<times> sockaddr_in) \<times> Sockets) res" where
  "sk_accept v connfd peer garbage s =
     rbind (sk_fd v s) (\<lambda>fd. Inr (Socket_accept connfd peer garbage, sys (SysAccept fd connfd) s))"

definition sk_shutdownWrite :: "nat \<Rightarrow> Sockets \<Rightarrow> Sockets res" where
  "sk_shutdownWrite v s = rbind (sk_fd v s) (\<lambda>fd. Inr (sockets_shutdownWrite fd s))"

text \<open>\<open>setTcpNoDelay\<close> has an empty body.\<close>

definition sk_setTcpNoDelay :: "nat \<Rightarrow> bool \<Rightarrow> Sockets \<Rightarrow> Sockets" where
  "sk_setTcpNoDelay v on s = s"

section \<open>Steps\<close>

definition open_fds :: "Sockets \<Rightarrow> int list" where
  "open_fds s = (case kernel_run [] (descriptor_calls (so_calls s)) of None \<Rightarrow> [] | Some fds \<Rightarrow> fds)"

text \<open>
  What the library does with sockets: the acceptor creates one and accepts others; the connector keeps a
  descriptor in a variable until it closes it or the client makes a socket of it; sockets are moved and
  destroyed, and used for calls when they hold a descriptor. The system gives descriptors that are not open.
\<close>

inductive socket_step :: "Sockets \<Rightarrow> Sockets \<Rightarrow> bool" where
  step_socket: "sockfd \<notin> set (open_fds s) \<Longrightarrow> so_vars s v = None \<Longrightarrow> sockets_createNonblocking sockfd s = Inr (fd, s')
    \<Longrightarrow> socket_step s (sk_construct v fd s')"
| step_raw: "sockfd \<notin> set (open_fds s) \<Longrightarrow> sockets_createNonblocking sockfd s = Inr (fd, s')
    \<Longrightarrow> socket_step s (s'\<lparr>so_raw := fd # so_raw s'\<rparr>)"
| step_adopt: "fd \<in> set (so_raw s) \<Longrightarrow> so_vars s v = None
    \<Longrightarrow> socket_step s (sk_construct v fd (s\<lparr>so_raw := remove1 fd (so_raw s)\<rparr>))"
| step_close: "fd \<in> set (so_raw s) \<Longrightarrow> socket_step s (sockets_close fd (s\<lparr>so_raw := remove1 fd (so_raw s)\<rparr>))"
| step_accept: "connfd \<notin> set (open_fds s) \<Longrightarrow> so_vars s w = None \<Longrightarrow> sk_fd v s = Inr fd \<Longrightarrow> 0 \<le> fd
    \<Longrightarrow> sk_accept v connfd peer garbage s = Inr ((n, addr), s') \<Longrightarrow> socket_step s (sk_construct w n s')"
| step_move: "so_vars s v = None \<Longrightarrow> sk_move v u s = Inr s' \<Longrightarrow> socket_step s s'"
| step_destroy: "sk_destroy v s = Inr s' \<Longrightarrow> socket_step s s'"
| step_call: "sk_fd v s = Inr fd \<Longrightarrow> 0 \<le> fd
    \<Longrightarrow> s' = sk_setTcpNoDelay v on s \<or> sk_setReuseAddr v on s = Inr s' \<or> sk_bindAddress v endpoint ret s = Inr s'
      \<or> sk_listen v ret s = Inr s' \<or> sk_shutdownWrite v s = Inr s'
    \<Longrightarrow> socket_step s s'"

section \<open>Owners\<close>

text \<open>What the objects amount to: which variable owns which descriptor.\<close>

definition held :: "Sockets \<Rightarrow> nat \<rightharpoonup> int" where
  "held s v = (case sk_fd v s of Inr fd \<Rightarrow> Some fd | Inl e \<Rightarrow> None)"

definition pointers_ok :: "Sockets \<Rightarrow> bool" where
  "pointers_ok s \<longleftrightarrow>
     (\<forall>v p. so_vars s v = Some (Some p) \<longrightarrow> p < length (so_ints s) \<and> so_ints s ! p \<noteq> None)
     \<and> (\<forall>v w p. so_vars s v = Some (Some p) \<longrightarrow> so_vars s w = Some (Some p) \<longrightarrow> v = w)"

lemma held_Some: "held s v = Some fd \<longleftrightarrow> sk_fd v s = Inr fd"
  by (simp add: held_def split: sum.splits)

lemma held_pointer: "sk_fd v s = Inr fd \<Longrightarrow> \<exists>p < length (so_ints s). so_vars s v = Some (Some p) \<and> so_ints s ! p = Some fd"
  by (auto simp: sk_fd_def read_int_def split: option.splits if_splits)

lemma read_int_vars [simp]: "read_int p (s\<lparr>so_vars := f\<rparr>) = read_int p s"
  by (simp add: read_int_def)

lemma held_same: "so_ints s' = so_ints s \<Longrightarrow> so_vars s' = so_vars s \<Longrightarrow> held s' = held s"
  by (rule ext) (simp add: held_def sk_fd_def read_int_def split: option.splits)

text \<open>The operations on the owners.\<close>

lemma construct_held:
  assumes "pointers_ok s"
  shows "pointers_ok (sk_construct v fd s) \<and> held (sk_construct v fd s) = (held s)(v \<mapsto> fd)"
proof (intro conjI ext)
  have p: "p < length (so_ints s) \<and> so_ints s ! p \<noteq> None" if "so_vars s w = Some (Some p)" for w p
    using assms that by (auto simp: pointers_ok_def)
  show "pointers_ok (sk_construct v fd s)"
    using assms by (auto simp: pointers_ok_def sk_construct_def nth_append less_Suc_eq dest: p)
  show "held (sk_construct v fd s) w = ((held s)(v \<mapsto> fd)) w" for w
    using p [of w] by (auto simp: held_def sk_fd_def read_int_def sk_construct_def nth_append split: option.splits)
qed

lemma forget_held:
  assumes "pointers_ok s" "x = None \<or> x = Some None"
  shows "pointers_ok (s\<lparr>so_vars := (so_vars s)(v := x)\<rparr>)" "held (s\<lparr>so_vars := (so_vars s)(v := x)\<rparr>) = (held s)(v := None)"
  using assms by (auto simp: pointers_ok_def held_def sk_fd_def fun_eq_iff split: option.splits)

lemma move_held:
  assumes "pointers_ok s" "so_vars s v = None" "sk_move v u s = Inr s'"
  shows "\<exists>fd. held s u = Some fd \<and> pointers_ok s' \<and> held s' = (held s)(v \<mapsto> fd, u := None)
    \<and> so_raw s' = so_raw s \<and> so_calls s' = so_calls s"
proof -
  obtain fd where fd: "sk_fd u s = Inr fd"
    and s': "s' = (sk_construct v fd s)\<lparr>so_vars := (so_vars (sk_construct v fd s))(u := Some None)\<rparr>"
    using assms(3) by (auto simp: sk_move_def rbind_Inr_iff Let_def)
  show ?thesis
    using forget_held [of "sk_construct v fd s" "Some None" u] construct_held [OF assms(1), of v fd] fd
    by (intro exI [of _ fd]) (auto simp: s' held_Some, auto simp: sk_construct_def)
qed

lemma destroy_held:
  assumes "pointers_ok s" "sk_destroy v s = Inr s'"
  shows "pointers_ok s' \<and> held s' = (held s)(v := None) \<and> so_raw s' = so_raw s
    \<and> so_calls s' = so_calls s @ (case held s v of None \<Rightarrow> [] | Some fd \<Rightarrow> [SysClose fd])"
proof (cases "sk_fd v s")
  case (Inl e)
  have "so_vars s v = Some None"
    using assms Inl by (cases "so_vars s v") (auto simp: sk_destroy_def rbind_Inr_iff split: option.splits)
  moreover from this have "s' = s\<lparr>so_vars := (so_vars s)(v := None)\<rparr>" using assms(2) by (simp add: sk_destroy_def)
  ultimately show ?thesis using forget_held [OF assms(1), of None v] by (simp add: held_def sk_fd_def)
next
  case (Inr fd)
  then obtain p where p: "p < length (so_ints s)" "so_vars s v = Some (Some p)" "so_ints s ! p = Some fd"
    using held_pointer by blast
  then have s': "s' = s\<lparr>so_calls := so_calls s @ [SysClose fd], so_ints := (so_ints s)[p := None], so_vars := (so_vars s)(v := None)\<rparr>"
    using assms(2) Inr by (simp add: sk_destroy_def sys_def Let_def)
  have q: "q \<noteq> p \<and> q < length (so_ints s) \<and> so_ints s ! q \<noteq> None" if "so_vars s w = Some (Some q)" "w \<noteq> v" for w q
    using assms(1) that p(2) by (auto simp: pointers_ok_def)
  have "pointers_ok s'" using assms(1) by (auto simp: pointers_ok_def s' nth_list_update dest: q)
  moreover have "held s' w = ((held s)(v := None)) w" for w
  proof (cases "w = v")
    case True
    then show ?thesis by (simp add: held_def sk_fd_def s')
  next
    case False
    then have "read_int x s' = read_int x s" if "so_vars s w = Some (Some x)" for x
      using q [of w x] that by (simp add: read_int_def s')
    then show ?thesis using False by (simp add: held_def sk_fd_def s' split: option.splits)
  qed
  ultimately show ?thesis using Inr by (auto simp: s' held_def)
qed

section \<open>The invariant\<close>

text \<open>The owners against the open descriptors: each descriptor that is open has exactly one owner, a socket
  object or a plain variable, and what they own is open.\<close>

definition one_owner :: "(nat \<rightharpoonup> int) \<Rightarrow> bool" where
  "one_owner h \<longleftrightarrow> (\<forall>v w fd. h v = Some fd \<longrightarrow> h w = Some fd \<longrightarrow> 0 \<le> fd \<longrightarrow> v = w)"

definition owners_ok :: "(nat \<rightharpoonup> int) \<Rightarrow> int list \<Rightarrow> int list \<Rightarrow> bool" where
  "owners_ok h raw fds \<longleftrightarrow>
     distinct fds \<and> distinct raw \<and> (\<forall>fd \<in> set fds. 0 \<le> fd)
     \<and> (\<forall>fd \<ge> 0. fd \<in> set fds \<longleftrightarrow> fd \<in> ran h \<or> fd \<in> set raw)
     \<and> (\<forall>fd \<in> set raw. 0 \<le> fd \<and> fd \<notin> ran h)
     \<and> one_owner h"

definition sockets_inv :: "Sockets \<Rightarrow> bool" where
  "sockets_inv s \<longleftrightarrow> pointers_ok s \<and> (\<exists>fds. kernel_run [] (descriptor_calls (so_calls s)) = Some fds \<and> owners_ok (held s) (so_raw s) fds)"

lemma sockets_invI:
  "pointers_ok s \<Longrightarrow> kernel_run [] (descriptor_calls (so_calls s)) = Some fds \<Longrightarrow> owners_ok (held s) (so_raw s) fds \<Longrightarrow> sockets_inv s"
  by (auto simp: sockets_inv_def)

lemma ranD: "x \<in> ran m \<Longrightarrow> \<exists>k. m k = Some x"
  by (auto simp: ran_def)

lemma owners_gain:
  assumes "owners_ok h raw fds" "h v = None" "fd \<notin> set fds"
  shows "owners_ok (h(v \<mapsto> fd)) raw (if fd < 0 then fds else fd # fds)"
proof -
  have r: "ran (h(v \<mapsto> fd)) = insert fd (ran h)" using assms(2) by simp
  have n: "h w \<noteq> Some fd" if "0 \<le> fd" for w using assms(1,3) that by (auto simp: owners_ok_def ran_def)
  have "one_owner (h(v \<mapsto> fd))" using assms(1) n by (auto simp: owners_ok_def one_owner_def)
  then show ?thesis using assms unfolding owners_ok_def r by auto
qed

lemma owners_move:
  assumes o: "owners_ok h raw fds" and h: "h v = None" "h u = Some fd"
  shows "owners_ok (h(v \<mapsto> fd, u := None)) raw fds"
proof -
  let ?h = "h(v \<mapsto> fd, u := None)"
  have inj: "x = w" if "h x = Some y" "h w = Some y" "0 \<le> y" for x w y
    using o that unfolding owners_ok_def one_owner_def by blast
  have was: "h (if x = v then u else x) = Some y" if "?h x = Some y" for x y
    using that h by (auto split: if_splits)
  have r: "ran ?h = ran h"
  proof (intro set_eqI iffI)
    fix y assume "y \<in> ran h"
    then obtain a where "h a = Some y" by (auto simp: ran_def)
    then have "?h (if a = u then v else a) = Some y" using h by auto
    then show "y \<in> ran ?h" by (rule ranI)
  next
    fix y assume "y \<in> ran ?h"
    then show "y \<in> ran h" using was ranI by (fastforce simp: ran_def)
  qed
  have "x = w" if "?h x = Some y" "?h w = Some y" "0 \<le> y" for x w y
  proof -
    have "x \<noteq> u" "w \<noteq> u" using that by auto
    moreover have "(if x = v then u else x) = (if w = v then u else w)"
      by (rule inj [OF was [OF that(1)] was [OF that(2)] that(3)])
    ultimately show ?thesis by (auto split: if_splits)
  qed
  then have "one_owner ?h" unfolding one_owner_def by blast
  then show ?thesis using o unfolding owners_ok_def r by simp
qed

lemma owners_lose:
  assumes o: "owners_ok h raw fds" and h: "h v = Some fd"
  shows "owners_ok (h(v := None)) raw (if fd < 0 then fds else remove1 fd fds) \<and> (0 \<le> fd \<longrightarrow> fd \<in> set fds)"
proof -
  have u: "w = v" if "h w = Some fd" "0 \<le> fd" for w using o h that unfolding owners_ok_def one_owner_def by blast
  have r: "y \<in> ran (h(v := None)) \<longleftrightarrow> y \<in> ran h \<and> y \<noteq> fd" if "0 \<le> y" for y
  proof (intro iffI conjI)
    assume "y \<in> ran (h(v := None))"
    then obtain w where w: "h w = Some y" "w \<noteq> v" by (auto simp: ran_def split: if_splits)
    show "y \<in> ran h" using w(1) by (rule ranI)
    show "y \<noteq> fd" using u w that by auto
  next
    assume "y \<in> ran h \<and> y \<noteq> fd"
    then obtain w where "h w = Some y" "y \<noteq> fd" by (auto simp: ran_def)
    then have "(h(v := None)) w = Some y" using h by auto
    then show "y \<in> ran (h(v := None))" by (rule ranI)
  qed
  have "ran (h(v := None)) \<subseteq> ran h" by (auto simp: ran_def split: if_splits)
  moreover have "fd \<in> ran h" using h by (rule ranI)
  moreover have "one_owner (h(v := None))" using o unfolding owners_ok_def one_owner_def by auto
  ultimately show ?thesis using o r unfolding owners_ok_def by (auto simp del: fun_upd_apply)
qed

lemma owners_raw:
  assumes "owners_ok h raw fds" "fd \<in> set raw"
  shows "owners_ok h (remove1 fd raw) (remove1 fd fds)" "fd \<in> set fds" "0 \<le> fd"
    "h v = None \<Longrightarrow> owners_ok (h(v \<mapsto> fd)) (remove1 fd raw) fds"
proof -
  show 0: "0 \<le> fd" and "fd \<in> set fds" using assms by (auto simp: owners_ok_def)
  show "owners_ok h (remove1 fd raw) (remove1 fd fds)" using assms unfolding owners_ok_def by auto
  assume "h v = None"
  then have r: "ran (h(v \<mapsto> fd)) = insert fd (ran h)" by simp
  have n: "h w \<noteq> Some fd" for w using assms by (auto simp: owners_ok_def ran_def)
  have "one_owner (h(v \<mapsto> fd))" using assms n by (auto simp: owners_ok_def one_owner_def)
  then show "owners_ok (h(v \<mapsto> fd)) (remove1 fd raw) fds"
    using assms n 0 unfolding owners_ok_def r by (auto simp del: fun_upd_apply)
qed

text \<open>Every step keeps it.\<close>

lemma calls_same: "held (s\<lparr>so_calls := cs\<rparr>) = held s" "held (s\<lparr>so_raw := raw\<rparr>) = held s"
  "pointers_ok (s\<lparr>so_calls := cs\<rparr>) = pointers_ok s" "pointers_ok (s\<lparr>so_raw := raw\<rparr>) = pointers_ok s"
proof -
  show "held (s\<lparr>so_calls := cs\<rparr>) = held s" "held (s\<lparr>so_raw := raw\<rparr>) = held s" by (rule held_same; simp)+
qed (simp_all add: pointers_ok_def)

lemma vars_held: "so_vars s v = None \<Longrightarrow> held s v = None"
  by (simp add: held_def sk_fd_def)

lemma sockets_inv_construct:
  assumes "pointers_ok s" "kernel_run [] (descriptor_calls (so_calls s)) = Some fds" "owners_ok ((held s)(v \<mapsto> fd)) (so_raw s) fds"
  shows "sockets_inv (sk_construct v fd s)"
proof (rule sockets_invI)
  note c = construct_held [OF assms(1), of v fd]
  show "pointers_ok (sk_construct v fd s)" using c by simp
  show "kernel_run [] (descriptor_calls (so_calls (sk_construct v fd s))) = Some fds" using assms(2) by (simp add: sk_construct_def)
  show "owners_ok (held (sk_construct v fd s)) (so_raw (sk_construct v fd s)) fds"
    using assms(3) c by (simp add: sk_construct_def)
qed

lemma owners_gain_raw:
  assumes "owners_ok h raw fds" "fd \<notin> set fds" "0 \<le> fd"
  shows "owners_ok h (fd # raw) (fd # fds)"
proof -
  have "fd \<notin> ran h" "fd \<notin> set raw" using assms by (auto simp: owners_ok_def)
  then show ?thesis using assms unfolding owners_ok_def by simp blast
qed

lemma owned_open:
  assumes "owners_ok (held s) raw fds" "sk_fd v s = Inr fd" "0 \<le> fd" shows "fd \<in> set fds"
proof -
  have "fd \<in> ran (held s)" using assms(2) by (intro ranI) (simp add: held_Some)
  then show ?thesis using assms(1,3) by (auto simp: owners_ok_def)
qed

lemma sockets_inv_step: "sockets_inv s \<Longrightarrow> socket_step s s' \<Longrightarrow> sockets_inv s'"
proof -
  assume i: "sockets_inv s" and step: "socket_step s s'"
  obtain fds where p: "pointers_ok s" and k: "kernel_run [] (descriptor_calls (so_calls s)) = Some fds" and o: "owners_ok (held s) (so_raw s) fds"
    using i by (auto simp: sockets_inv_def)
  have opn: "open_fds s = fds" using k by (simp add: open_fds_def)
  from step show ?thesis
  proof cases
    case (step_socket sockfd v fd t)
    then have t: "t = sys (SysSocket fd) s" "0 \<le> fd" "fd \<notin> set fds"
      by (auto simp: sockets_createNonblocking_def createNonblocking_def opn split: if_splits)
    have "owners_ok ((held s)(v \<mapsto> fd)) (so_raw s) (fd # fds)"
      using owners_gain [OF o vars_held [OF step_socket(3)] t(3)] t(2) by simp
    then show ?thesis unfolding step_socket(1)
      using p k t by (intro sockets_inv_construct [where fds = "fd # fds"]) (simp_all add: sys_def calls_same)
  next
    case (step_raw sockfd fd t)
    then have t: "t = sys (SysSocket fd) s" "0 \<le> fd" "fd \<notin> set fds"
      by (auto simp: sockets_createNonblocking_def createNonblocking_def opn split: if_splits)
    then show ?thesis unfolding step_raw(1)
      using p k owners_gain_raw [OF o t(3,2)] by (intro sockets_invI [where fds = "fd # fds"]) (simp_all add: sys_def calls_same)
  next
    case (step_adopt fd v)
    then show ?thesis unfolding step_adopt(1)
      using p k owners_raw(4) [OF o step_adopt(2) vars_held [OF step_adopt(3)]]
      by (intro sockets_inv_construct [where fds = fds]) (simp_all add: calls_same)
  next
    case (step_close fd)
    then show ?thesis unfolding step_close(1)
      using p k owners_raw(1-3) [OF o step_close(2)]
      by (intro sockets_invI [where fds = "remove1 fd fds"]) (simp_all add: calls_same sockets_close_def sys_def)
  next
    case (step_accept connfd w v fd peer garbage n addr t)
    then have t: "t = sys (SysAccept fd n) s" "n = connfd"
      by (auto simp: sk_accept_def Socket_accept_def sockets_accept_def)
    have fd: "fd \<in> set fds" by (rule owned_open [OF o step_accept(4,5)])
    have n: "n \<notin> set fds" using step_accept(2) t(2) by (simp add: opn)
    show ?thesis unfolding step_accept(1)
      using p k t(1) fd n owners_gain [OF o vars_held [OF step_accept(3)] n]
      by (intro sockets_inv_construct [where fds = "if n < 0 then fds else n # fds"]) (simp_all add: calls_same sys_def split: if_splits)
  next
    case (step_move v u)
    from move_held [OF p this] obtain fd where m: "held s u = Some fd" "pointers_ok s'" "held s' = (held s)(v \<mapsto> fd, u := None)"
      "so_raw s' = so_raw s" "so_calls s' = so_calls s" by blast
    show ?thesis using m k owners_move [OF o vars_held [OF step_move(1)] m(1)] by (intro sockets_invI [where fds = fds]) simp_all
  next
    case (step_destroy v)
    note d = destroy_held [OF p step_destroy]
    show ?thesis
    proof (cases "held s v")
      case None
      then have "(held s)(v := None) = held s" by (simp add: fun_upd_idem)
      then show ?thesis using d k o None by (intro sockets_invI [where fds = fds]) simp_all
    next
      case (Some fd)
      then show ?thesis using d k owners_lose [OF o Some]
        by (intro sockets_invI [where fds = "if fd < 0 then fds else remove1 fd fds"]) simp_all
    qed
  next
    case (step_call v fd "on" endpoint ret)
    have "fd \<in> set fds" by (rule owned_open [OF o step_call(1,2)])
    moreover have "s' = s \<or> (\<exists>c. s' = sys c s \<and> c \<in> {SysSetReuseAddr fd (if on then 1 else 0), SysBind fd endpoint,
        SysListen fd default_backlog, SysShutdown fd})"
      using step_call(1,3)
      by (auto simp: sk_setTcpNoDelay_def sk_setReuseAddr_def sk_bindAddress_def sk_listen_def sk_shutdownWrite_def rbind_Inr_iff
          sockets_setReuseAddr_def sockets_shutdownWrite_def sockets_bind_def sockets_listen_def split: if_splits)
    ultimately show ?thesis using p k o by (auto intro!: sockets_invI simp: sys_def calls_same)
  qed
qed

interpretation sk: invariant_system "\<lambda>s. s = Sockets_init" socket_step sockets_inv
proof
  show "sockets_inv s" if "s = Sockets_init" for s
  proof -
    have "held s = Map.empty" using that by (simp add: fun_eq_iff held_def sk_fd_def Sockets_init_def)
    then show ?thesis using that by (auto simp: sockets_inv_def pointers_ok_def owners_ok_def one_owner_def Sockets_init_def)
  qed
qed (rule sockets_inv_step)

section \<open>Refused accepts\<close>

text \<open>
  A negative number in a socket object comes from a refused accept, and each refused accept leads to at most one close of it.
\<close>

definition refused_inv :: "Sockets \<Rightarrow> bool" where
  "refused_inv s \<longleftrightarrow> finite (dom (held s))
     \<and> (\<forall>fd < 0. card {v. held s v = Some fd} + closes fd (so_calls s) = accepts fd (so_calls s))
     \<and> (\<forall>fd < 0. \<forall>n. closes fd (take n (so_calls s)) \<le> accepts fd (take n (so_calls s)))"

lemma finite_owners: "finite (dom h) \<Longrightarrow> finite {v. h v = Some fd}"
  by (rule finite_subset [of _ "dom h"]) auto

lemma card_gain:
  assumes "finite (dom h)" "h v = None"
  shows "card {w. (h(v \<mapsto> y)) w = Some fd} = card {w. h w = Some fd} + (if y = fd then 1 else 0)"
proof -
  have "{w. (h(v \<mapsto> y)) w = Some fd} = (if y = fd then insert v {w. h w = Some fd} else {w. h w = Some fd})"
    using assms(2) by (auto split: if_splits)
  then show ?thesis using finite_owners [OF assms(1), of fd] assms(2) by simp
qed

lemma card_lose:
  assumes "finite (dom h)" "h v = Some y"
  shows "card {w. (h(v := None)) w = Some fd} + (if y = fd then 1 else 0) = card {w. h w = Some fd}"
proof -
  have "(h(v := None))(v \<mapsto> y) = h" using assms(2) by (auto simp: fun_eq_iff)
  then show ?thesis using card_gain [of "h(v := None)" v y fd] assms(1) by simp
qed

lemma refused_invI:
  assumes "refused_inv s" "so_calls s' = so_calls s @ cs" "cs = [] \<or> (\<exists>c. cs = [c])" "finite (dom (held s'))"
    and b: "\<And>fd. fd < 0 \<Longrightarrow> card {v. held s' v = Some fd} + closes fd cs = card {v. held s v = Some fd} + accepts fd cs"
  shows "refused_inv s'"
proof -
  have app: "closes fd (as @ bs) = closes fd as + closes fd bs" "accepts fd (as @ bs) = accepts fd as + accepts fd bs" for fd as bs
    by (simp_all add: closes_def accepts_def)
  have eq: "card {v. held s' v = Some fd} + closes fd (so_calls s') = accepts fd (so_calls s')" if "fd < 0" for fd
  proof -
    have "card {v. held s v = Some fd} + closes fd (so_calls s) = accepts fd (so_calls s)"
      using assms(1) that by (simp add: refused_inv_def)
    then show ?thesis using b [OF that] by (simp add: assms(2) app)
  qed
  moreover have "closes fd (take n (so_calls s')) \<le> accepts fd (take n (so_calls s'))" if "fd < 0" for fd n
  proof (cases "n \<le> length (so_calls s)")
    case True
    then show ?thesis using assms(1) that by (simp add: refused_inv_def assms(2))
  next
    case False
    then have "take n (so_calls s') = so_calls s'" using assms(2,3) by auto
    then show ?thesis using eq [OF that] by simp
  qed
  ultimately show ?thesis using assms(4) by (simp add: refused_inv_def)
qed

lemma refused_inv_step:
  assumes i: "sockets_inv s" and r: "refused_inv s" and step: "socket_step s s'"
  shows "refused_inv s'"
proof -
  have p: "pointers_ok s" and f: "finite (dom (held s))" using i r by (auto simp: sockets_inv_def refused_inv_def)
  note gain = card_gain [OF f] and lose = card_lose [OF f]
  from step show ?thesis
  proof cases
    case (step_socket sockfd v fd t)
    then have t: "t = sys (SysSocket fd) s" "0 \<le> fd"
      by (auto simp: sockets_createNonblocking_def createNonblocking_def split: if_splits)
    have h: "held s' = (held s)(v \<mapsto> fd)" "so_calls s' = so_calls s @ [SysSocket fd]"
      using construct_held [of t v fd] p by (simp_all add: step_socket(1) t sys_def calls_same sk_construct_def)
    show ?thesis
      using t(2) f gain [OF vars_held [OF step_socket(3)]]
      by (intro refused_invI [OF r h(2)]) (auto simp: h(1) closes_def accepts_def simp del: fun_upd_apply)
  next
    case (step_raw sockfd fd t)
    then have "s' = (sys (SysSocket fd) s)\<lparr>so_raw := fd # so_raw s\<rparr>"
      by (auto simp: sockets_createNonblocking_def createNonblocking_def sys_def split: if_splits)
    then show ?thesis using f by (intro refused_invI [OF r, of _ "[SysSocket fd]"]) (auto simp: sys_def calls_same closes_def accepts_def)
  next
    case (step_adopt fd v)
    have 0: "0 \<le> fd" using i step_adopt(2) by (auto simp: sockets_inv_def owners_ok_def)
    have h: "held s' = (held s)(v \<mapsto> fd)" "so_calls s' = so_calls s @ []"
      using construct_held [of "s\<lparr>so_raw := remove1 fd (so_raw s)\<rparr>" v fd] p by (simp_all add: step_adopt(1) calls_same sk_construct_def)
    show ?thesis
      using 0 f gain [OF vars_held [OF step_adopt(3)]]
      by (intro refused_invI [OF r h(2)]) (auto simp: h(1) simp del: fun_upd_apply)
  next
    case (step_close fd)
    have 0: "0 \<le> fd" using i step_close(2) by (auto simp: sockets_inv_def owners_ok_def)
    then show ?thesis using f
      by (intro refused_invI [OF r, of _ "[SysClose fd]"]) (auto simp: step_close(1) sockets_close_def sys_def calls_same closes_def accepts_def)
  next
    case (step_accept connfd w v fd peer garbage n addr t)
    then have t: "t = sys (SysAccept fd n) s"
      by (auto simp: sk_accept_def Socket_accept_def sockets_accept_def)
    have h: "held s' = (held s)(w \<mapsto> n)" "so_calls s' = so_calls s @ [SysAccept fd n]"
      using construct_held [of t w n] p by (simp_all add: step_accept(1) t sys_def calls_same sk_construct_def)
    show ?thesis
      using f gain [OF vars_held [OF step_accept(3)]]
      by (intro refused_invI [OF r h(2)]) (auto simp: h(1) closes_def accepts_def simp del: fun_upd_apply)
  next
    case (step_move v u)
    from move_held [OF p this] obtain fd where m: "held s u = Some fd" "held s' = (held s)(v \<mapsto> fd, u := None)"
      "so_calls s' = so_calls s @ []" by auto
    have v: "held s v = None" by (rule vars_held [OF step_move(1)])
    then have u: "((held s)(v \<mapsto> fd)) u = Some fd" using m(1) by auto
    have "card {w. held s' w = Some y} = card {w. held s w = Some y}" for y
      using card_lose [of "(held s)(v \<mapsto> fd)" u fd y, OF _ u] gain [OF v, of fd y] f unfolding m(2) by (simp del: fun_upd_apply)
    then show ?thesis using f by (intro refused_invI [OF r m(3)]) (auto simp: m(2) closes_def accepts_def simp del: fun_upd_apply)
  next
    case (step_destroy v)
    note d = destroy_held [OF p step_destroy]
    show ?thesis
    proof (cases "held s v")
      case None
      then have "(held s)(v := None) = held s" by (simp add: fun_upd_idem)
      then show ?thesis using d f None by (intro refused_invI [OF r, of _ "[]"]) auto
    next
      case (Some fd)
      then show ?thesis using d f
        by (intro refused_invI [OF r, of _ "[SysClose fd]"]) (auto simp: lose [OF Some, symmetric] closes_def accepts_def simp del: fun_upd_apply)
    qed
  next
    case (step_call v fd "on" endpoint ret)
    have "s' = s \<or> (\<exists>c. s' = sys c s \<and> (\<forall>fd. c \<noteq> SysClose fd \<and> \<not> accept_returned fd c))"
      using step_call(1,3)
      by (auto simp: sk_setTcpNoDelay_def sk_setReuseAddr_def sk_bindAddress_def sk_listen_def sk_shutdownWrite_def rbind_Inr_iff
          sockets_setReuseAddr_def sockets_shutdownWrite_def sockets_bind_def sockets_listen_def split: if_splits)
    then show ?thesis
    proof (elim disjE exE conjE)
      fix c assume c: "s' = sys c s" "\<forall>fd. c \<noteq> SysClose fd \<and> \<not> accept_returned fd c"
      then show ?thesis using f by (intro refused_invI [OF r, of _ "[c]"]) (auto simp: sys_def calls_same closes_def accepts_def)
    qed (use r in simp)
  qed
qed

interpretation sr: invariant_system "\<lambda>s. s = Sockets_init" socket_step "\<lambda>s. sockets_inv s \<and> refused_inv s"
proof
  show "sockets_inv s \<and> refused_inv s" if "s = Sockets_init" for s
    using that sk.inv_init by (simp add: refused_inv_def held_def sk_fd_def dom_def Sockets_init_def)
qed (blast intro: sockets_inv_step refused_inv_step)

section \<open>The acceptor and what it accepts\<close>

text \<open>The socket of \<open>Acceptor::Acceptor\<close> and of \<open>Acceptor::handleRead\<close>. A socket is passed on by value: each
  call makes a variable of its own by a move, and destroys it when it returns, except the last, which
  belongs to the connection.\<close>

definition acceptor_open :: "nat \<Rightarrow> int \<Rightarrow> sockaddr_in \<Rightarrow> int \<Rightarrow> Sockets \<Rightarrow> Sockets res" where
  "acceptor_open v sockfd listenAddr bind_ret s =
     rbind (sockets_createNonblocking sockfd s) (\<lambda>(fd, s).
     let s = sk_construct v fd s in
     rbind (sk_setReuseAddr v True s) (\<lambda>s. sk_bindAddress v listenAddr bind_ret s))"

fun pass_on :: "nat list \<Rightarrow> nat \<Rightarrow> Sockets \<Rightarrow> Sockets res" where
  "pass_on [] v s = Inr s"
| "pass_on (w # ws) v s = rbind (sk_move w v s) (\<lambda>s. rbind (pass_on ws w s) (\<lambda>s. sk_destroy v s))"

definition acceptor_accept :: "nat \<Rightarrow> nat \<Rightarrow> nat list \<Rightarrow> int \<Rightarrow> sockaddr_in \<Rightarrow> sockaddr_in \<Rightarrow> Sockets \<Rightarrow> Sockets res" where
  "acceptor_accept v sock callees connfd peer garbage s =
     rbind (sk_accept v connfd peer garbage s) (\<lambda>((connfd, peerEndpoint), s).
     let s = sk_construct sock connfd s in
     if 0 \<le> connfd \<and> callees \<noteq> [] then pass_on callees sock s else sk_destroy sock s)"

lemma move_vars:
  assumes "sk_move w v s = Inr s'" "v \<noteq> w"
  shows "so_vars s' = (so_vars s)(w \<mapsto> Some (length (so_ints s)), v \<mapsto> None)
    \<and> (\<exists>fd. sk_fd v s = Inr fd \<and> so_ints s' = so_ints s @ [Some fd])"
  using assms by (auto simp: sk_move_def rbind_Inr_iff sk_construct_def Let_def)

lemma destroy_moved: "so_vars s v = Some None \<Longrightarrow> sk_destroy v s = Inr (s\<lparr>so_vars := (so_vars s)(v := None)\<rparr>)"
  by (simp add: sk_destroy_def)

lemma pass_on_held:
  assumes "pointers_ok s" "held s v = Some fd" "distinct (v # ws)" "\<forall>w \<in> set ws. so_vars s w = None" "ws \<noteq> []"
  shows "\<exists>s'. pass_on ws v s = Inr s' \<and> pointers_ok s' \<and> held s' = (held s)(v := None, last ws \<mapsto> fd)
    \<and> so_calls s' = so_calls s \<and> so_raw s' = so_raw s \<and> so_ints s' = so_ints s @ replicate (length ws) (Some fd)
    \<and> so_vars s' = (so_vars s)(v := None, last ws \<mapsto> Some (length (so_ints s) + length ws - 1))"
  using assms
proof (induction ws arbitrary: v s)
  case (Cons w ws)
  have vw: "v \<noteq> w" using Cons.prems(3) by auto
  have fd: "sk_fd v s = Inr fd" using Cons.prems(2) by (simp add: held_Some)
  then obtain t where t: "sk_move w v s = Inr t" by (simp add: sk_move_def Let_def)
  from move_held [OF Cons.prems(1) _ t] Cons.prems(2,4)
  have h: "pointers_ok t" "held t = (held s)(w \<mapsto> fd, v := None)" "so_raw t = so_raw s" "so_calls t = so_calls s" by auto
  from move_vars [OF t vw] fd
  have m: "so_vars t = (so_vars s)(w \<mapsto> Some (length (so_ints s)), v \<mapsto> None)" "so_ints t = so_ints s @ [Some fd]" by auto
  have nv: "held s w = None" using Cons.prems(4) by (simp add: vars_held)
  show ?case
  proof (cases "ws = []")
    case True
    have "so_vars t v = Some None" using m(1) by simp
    note d = destroy_moved [OF this] forget_held [OF h(1), of None v]
    show ?thesis using True t d h m vw by (auto simp: fun_upd_twist)
  next
    case False
    have "held t w = Some fd" using h(2) vw by simp
    moreover have "\<forall>x \<in> set ws. so_vars t x = None" using Cons.prems(3,4) m(1) by auto
    ultimately obtain u where u: "pass_on ws w t = Inr u" "pointers_ok u" "held u = (held t)(w := None, last ws \<mapsto> fd)"
      "so_calls u = so_calls t" "so_raw u = so_raw t" "so_ints u = so_ints t @ replicate (length ws) (Some fd)"
      "so_vars u = (so_vars t)(w := None, last ws \<mapsto> Some (length (so_ints t) + length ws - 1))"
      using Cons.IH [OF h(1), of w] Cons.prems(3) False by (auto simp del: fun_upd_apply)
    have lv: "last ws \<noteq> v" "last ws \<noteq> w" using Cons.prems(3) False last_in_set [of ws] by auto
    then have "so_vars u v = Some None" using u(7) m(1) vw by simp
    note d = destroy_moved [OF this] forget_held [OF u(2), of None v]
    have e: "(held u)(v := None) = (held s)(v := None, last ws \<mapsto> fd)"
      using u(3) h(2) nv lv vw by (auto simp: fun_eq_iff)
    have "(so_vars u)(v := None) = (so_vars s)(v := None, last ws \<mapsto> Some (length (so_ints s) + length ws))"
      using u(7) m lv vw Cons.prems(4) False by (auto simp: fun_eq_iff)
    then show ?thesis using t u d h m e False by (auto simp del: fun_upd_apply)
  qed
qed simp

text \<open>Runs of the acceptor as steps.\<close>

lemma open_steps:
  assumes "sockfd \<notin> set (open_fds s)" "0 \<le> sockfd" "so_vars s v = None" "acceptor_open v sockfd addr ret s = Inr s'"
  shows "socket_step\<^sup>*\<^sup>* s s' \<and> so_vars s' = (so_vars s)(v \<mapsto> Some (length (so_ints s)))
    \<and> so_calls s' = so_calls s @ [SysSocket sockfd, SysSetReuseAddr sockfd 1, SysBind sockfd addr]
    \<and> so_raw s' = so_raw s \<and> sk_fd v s' = Inr sockfd"
proof -
  let ?t = "sk_construct v sockfd (sys (SysSocket sockfd) s)"
  have fd: "sk_fd v (sk_construct v sockfd x) = Inr sockfd" for x
    by (simp add: sk_fd_def sk_construct_def read_int_def)
  have 1: "socket_step s ?t"
    using assms(1-3) by (intro step_socket) (auto simp: sockets_createNonblocking_def createNonblocking_def)
  let ?u = "sys (SysSetReuseAddr sockfd 1) ?t"
  have sr: "sk_setReuseAddr v True ?t = Inr ?u" using fd by (simp add: sk_setReuseAddr_def sockets_setReuseAddr_def)
  have 2: "socket_step ?t ?u" using sr by (intro step_call [OF fd assms(2)]) blast
  have fu: "sk_fd v ?u = Inr sockfd" by (simp add: sk_fd_def sk_construct_def sys_def read_int_def)
  have b: "sk_bindAddress v addr ret ?u = Inr s'"
    using assms(2,4) sr by (simp add: acceptor_open_def sockets_createNonblocking_def createNonblocking_def Let_def)
  have 3: "socket_step ?u s'" using b by (intro step_call [OF fu assms(2)]) blast
  have "s' = sys (SysBind sockfd addr) ?u" using b fu by (auto simp: sk_bindAddress_def rbind_Inr_iff)
  moreover from this have "sk_fd v s' = Inr sockfd" by (simp add: sk_fd_def sk_construct_def sys_def read_int_def)
  ultimately show ?thesis using 1 2 3 by (auto simp: sys_def sk_construct_def intro: converse_rtranclp_into_rtranclp)
qed

section \<open>Properties\<close>

text \<open>C14: A socket object owns its descriptor. Whatever sockets the library creates, accepts, adopts,
  moves, uses and destroys, each call it makes of the system is on a descriptor that is open at that moment,
  with one exception: the close of a negative number, by the destructor of a socket made of the result of a
  refused accept, and at any moment there have been no more of these than accepts that returned that number.
  No descriptor is closed twice, and the open descriptors are exactly those that one socket object, and only
  one, or one plain variable holds: when all of them are gone, no descriptor is left open.\<close>

theorem sockets_raii:
  assumes "reachable (\<lambda>s. s = Sockets_init) socket_step s"
  shows "\<exists>fds. kernel_run [] (filter (\<lambda>c. \<forall>fd < 0. c \<noteq> SysClose fd) (so_calls s)) = Some fds \<and> distinct fds
    \<and> (\<forall>fd < 0. \<forall>n. closes fd (take n (so_calls s)) \<le> accepts fd (take n (so_calls s)))
    \<and> (\<forall>fd. fd \<in> set fds \<longrightarrow> 0 \<le> fd)
    \<and> (\<forall>fd \<ge> 0. fd \<in> set fds \<longleftrightarrow> (\<exists>v. sk_fd v s = Inr fd) \<or> fd \<in> set (so_raw s))
    \<and> (\<forall>fd \<ge> 0. \<forall>v w. sk_fd v s = Inr fd \<longrightarrow> sk_fd w s = Inr fd \<longrightarrow> v = w \<and> fd \<notin> set (so_raw s))
    \<and> ((\<forall>v. so_vars s v = None) \<and> so_raw s = [] \<longrightarrow> fds = [])"
proof -
  obtain fds where k: "kernel_run [] (descriptor_calls (so_calls s)) = Some fds" and o: "owners_ok (held s) (so_raw s) fds"
    and b: "\<forall>fd < 0. \<forall>n. closes fd (take n (so_calls s)) \<le> accepts fd (take n (so_calls s))"
    using sr.inv_reachable [OF assms] by (auto simp: sockets_inv_def refused_inv_def)
  have r: "fd \<in> ran (held s) \<longleftrightarrow> (\<exists>v. sk_fd v s = Inr fd)" for fd by (simp add: ran_def held_Some)
  have one: "v = w" if "0 \<le> fd" "sk_fd v s = Inr fd" "sk_fd w s = Inr fd" for v w fd
    using o that by (auto simp: owners_ok_def one_owner_def held_Some)
  have raw: "fd \<notin> set (so_raw s)" if "sk_fd v s = Inr fd" for v fd
    using o r that by (auto simp: owners_ok_def)
  have open_iff: "fd \<in> set fds \<longleftrightarrow> (\<exists>v. sk_fd v s = Inr fd) \<or> fd \<in> set (so_raw s)" if "0 \<le> fd" for fd
    using o r that by (simp add: owners_ok_def)
  have "fds = []" if "\<forall>v. so_vars s v = None" "so_raw s = []"
  proof -
    have "\<nexists>v fd. sk_fd v s = Inr fd" using that(1) by (simp add: sk_fd_def)
    then have "fd \<notin> set fds" for fd using open_iff [of fd] that(2) o by (auto simp: owners_ok_def)
    then show ?thesis using hd_in_set [of fds] by blast
  qed
  moreover have "distinct fds" "fd \<in> set fds \<longrightarrow> 0 \<le> fd" for fd using o by (auto simp: owners_ok_def)
  ultimately show ?thesis using k [unfolded descriptor_calls_eq] b one raw open_iff by (intro exI [of _ fds] conjI) blast+
qed

text \<open>An acceptor that is opened, whose next accept is refused, and which is then destroyed.\<close>

theorem sockets_raii_witness:
  "\<exists>s :: Sockets. so_calls s = [SysSocket 5, SysSetReuseAddr 5 1, SysBind 5 (Endpoint_port 80), SysAccept 5 (- 1), SysClose (- 1), SysClose 5]
    \<and> kernel_run [] (filter (\<lambda>c. \<forall>fd < 0. c \<noteq> SysClose fd) (so_calls s)) = Some []"
proof -
  have e: "so_vars Sockets_init v = None" "open_fds Sockets_init = []" for v by (simp_all add: Sockets_init_def open_fds_def)
  obtain s where "acceptor_open 0 5 (Endpoint_port 80) 0 Sockets_init = Inr s"
    by (simp add: acceptor_open_def sockets_createNonblocking_def createNonblocking_def sk_setReuseAddr_def sk_bindAddress_def
        sockets_setReuseAddr_def sockets_bind_def sk_fd_def sk_construct_def read_int_def sys_def Let_def)
  then have s: "socket_step\<^sup>*\<^sup>* Sockets_init s" "so_vars s = (so_vars Sockets_init)(0 \<mapsto> Some 0)" "sk_fd 0 s = Inr 5" "so_raw s = []"
    "so_calls s = [SysSocket 5, SysSetReuseAddr 5 1, SysBind 5 (Endpoint_port 80)]"
    using open_steps [of 5 Sockets_init 0 "Endpoint_port 80" 0 s] e by (auto simp: Sockets_init_def)
  let ?a = "sk_construct 1 (- 1) (sys (SysAccept 5 (- 1)) s)"
  have "set (open_fds s) = {5}" using s(5) by (simp add: open_fds_def descriptor_calls_def)
  moreover have "so_vars s 1 = None" by (simp add: s(2) e)
  moreover have "sk_accept 0 (- 1) peer garbage s = Inr ((- 1, snd (Socket_accept (- 1) peer garbage)), sys (SysAccept 5 (- 1)) s)" for peer garbage
    using s(3) by (simp add: sk_accept_def Socket_accept_def sockets_accept_def)
  ultimately have 1: "socket_step s ?a" using s(3) by (intro step_accept [of "- 1" s 1 0 5]) auto
  define b where "b = s\<lparr>so_calls := so_calls s @ [SysAccept 5 (- 1), SysClose (- 1)], so_ints := so_ints s @ [None],
    so_vars := (so_vars s)(1 := None)\<rparr>"
  have "sk_fd 1 ?a = Inr (- 1)" by (simp add: sk_fd_def sk_construct_def sys_def read_int_def)
  moreover have "so_vars ?a 1 = Some (Some (length (so_ints s)))" by (simp add: sk_construct_def sys_def)
  ultimately have b: "sk_destroy 1 ?a = Inr b"
    by (simp add: sk_destroy_def Let_def b_def) (simp add: sk_construct_def sys_def)
  have b': "so_vars b = (so_vars Sockets_init)(0 \<mapsto> Some 0)" "so_raw b = []"
    "so_calls b = so_calls s @ [SysAccept 5 (- 1), SysClose (- 1)]" "so_ints b = so_ints s @ [None]"
    using s(2,4) e(1) by (simp_all add: b_def fun_eq_iff)
  have "sk_fd 0 b = Inr 5" using s(2,3) b'(1,4) by (auto simp: sk_fd_def read_int_def nth_append split: if_splits)
  then obtain t where t: "sk_destroy 0 b = Inr t" "so_vars t = so_vars Sockets_init" "so_raw t = []"
    "so_calls t = so_calls b @ [SysClose 5]"
    using b'(1,2) by (simp add: sk_destroy_def sys_def Let_def Sockets_init_def fun_eq_iff)
  have "reachable (\<lambda>s. s = Sockets_init) socket_step s" by (rule reachable_steps [OF s(1) reach_init]) simp
  from reach_step [OF reach_step [OF reach_step [OF this 1] step_destroy [OF b]] step_destroy [OF t(1)]]
  have "kernel_run [] (filter (\<lambda>c. \<forall>fd < 0. c \<noteq> SysClose fd) (so_calls t)) = Some []"
    using sockets_raii [of t] t(2,3) e(1) by auto
  then show ?thesis using t(4) b'(3) s(5) by (intro exI [of _ t]) simp
qed

text \<open>C28: An accepted socket reaches its connection through any number of calls that pass it by value: the
  last variable then holds the descriptor, the others are out of scope, and the system has seen nothing
  of it but \<open>accept4\<close>. But each move leaves the heap cell of its source without a pointer to it: of the cells
  allocated on the way, only the last can ever be deleted.\<close>

theorem accept_hands_over:
  assumes "pointers_ok s" and "sk_fd v s = Inr lfd" and "0 \<le> connfd" and "callees \<noteq> []" and "distinct (sock # callees)"
    and "\<forall>w \<in> set (sock # callees). so_vars s w = None"
  shows "\<exists>s'. acceptor_accept v sock callees connfd peer garbage s = Inr s'
    \<and> so_vars s' = (so_vars s)(last callees \<mapsto> Some (length (so_ints s) + length callees))
    \<and> sk_fd (last callees) s' = Inr connfd \<and> so_calls s' = so_calls s @ [SysAccept lfd connfd]
    \<and> so_ints s' = so_ints s @ replicate (length callees) (Some connfd) @ [Some connfd]
    \<and> (\<forall>w p. so_vars s' w = Some (Some p) \<longrightarrow> p < length (so_ints s) \<or> p = length (so_ints s) + length callees)"
proof -
  let ?t = "sk_construct sock connfd (sys (SysAccept lfd connfd) s)"
  have p: "pointers_ok (sys (SysAccept lfd connfd) s)" using assms(1) by (simp add: sys_def calls_same)
  have t: "pointers_ok ?t" "held ?t sock = Some connfd" using construct_held [OF p, of sock connfd] by auto
  have v: "\<forall>w \<in> set callees. so_vars ?t w = None" using assms(5,6) by (auto simp: sk_construct_def sys_def)
  from pass_on_held [OF t assms(5) v assms(4)] obtain s' where s': "pass_on callees sock ?t = Inr s'"
    "held s' = (held ?t)(sock := None, last callees \<mapsto> connfd)" "so_calls s' = so_calls ?t"
    "so_ints s' = so_ints ?t @ replicate (length callees) (Some connfd)"
    "so_vars s' = (so_vars ?t)(sock := None, last callees \<mapsto> Some (length (so_ints ?t) + length callees - 1))" by blast
  have "acceptor_accept v sock callees connfd peer garbage s = Inr s'"
    using assms(2-4) s'(1) by (simp add: acceptor_accept_def sk_accept_def Socket_accept_def sockets_accept_def Let_def)
  moreover have "so_vars s' = (so_vars s)(last callees \<mapsto> Some (length (so_ints s) + length callees))"
    using s'(5) assms(6) by (auto simp: sk_construct_def sys_def fun_eq_iff)
  moreover have "sk_fd (last callees) s' = Inr connfd" using s'(2) by (simp add: held_Some [symmetric])
  moreover have "p < length (so_ints s)" if "so_vars s w = Some (Some p)" for w p
    using assms(1) that by (auto simp: pointers_ok_def)
  ultimately show ?thesis
    using s'(3,4) by (intro exI [of _ s']) (auto simp: sk_construct_def sys_def replicate_append_same split: if_splits)
qed

theorem accept_hands_over_witness:
  "\<exists>s'. acceptor_accept 0 1 [2, 3] 7 (Endpoint_port 99) zero_addr (sk_construct 0 5 (sys (SysSocket 5) Sockets_init)) = Inr s'
     \<and> sk_fd 3 s' = Inr 7 \<and> so_ints s' = [Some 5, Some 7, Some 7, Some 7] \<and> so_calls s' = [SysSocket 5, SysAccept 5 7]"
proof -
  let ?s = "sk_construct 0 5 (sys (SysSocket 5) Sockets_init)"
  have "pointers_ok ?s" "sk_fd 0 ?s = Inr 5" "\<forall>w \<in> set [1, 2, 3]. so_vars ?s w = None"
    by (auto simp: pointers_ok_def sk_fd_def read_int_def sk_construct_def sys_def Sockets_init_def split: if_splits)
  from accept_hands_over [OF this(1,2), of 7 "[2, 3]" 1 "Endpoint_port 99" zero_addr] this(3) show ?thesis
    by (auto simp: sk_construct_def sys_def Sockets_init_def)
qed

end
