(* ===== verification/TimerQueues.thy ===== *)
theory TimerQueues
  imports StdMaps RateLimiters
begin

text \<open>
  \<open>Timer\<close> and \<open>TimerQueue\<close> (winterfell/net/wf_timer.h, wf_timer.cc, wf_timer_queue.h,
  wf_timer_queue.cc) and the timer calls of \<open>EventLoop\<close> (wf_event_loop.cc), in the loop's thread. The
  clock is a sequence \<open>clk\<close> of readings in microseconds; the state counts the readings taken. The
  timer descriptor is modelled after the manual of \<open>timerfd_settime\<close>: a zero value disarms it, a
  negative one is refused, any other arms it once. The code reads the time of day for the timers, while
  the descriptor runs on the monotonic clock; one sequence of readings stands for both, as it is when
  nobody sets the time of day. What a timer callback does to the queue is the list
  of timers it adds, which may depend on the time.
\<close>

section \<open>Timers\<close>

record 'cb Timer =
  tm_when :: Timestamp
  tm_repeated :: bool
  tm_interval :: rat
  tm_tcb :: 'cb

definition Timer_new :: "Timestamp \<Rightarrow> rat \<Rightarrow> 'cb \<Rightarrow> 'cb Timer" where
  "Timer_new when interval tcb = \<lparr>tm_when = when, tm_repeated = (interval > 0), tm_interval = interval, tm_tcb = tcb\<rparr>"

definition updateWhen :: "Timestamp \<Rightarrow> 'cb Timer \<Rightarrow> 'cb Timer res" where
  "updateWhen now timer = rbind (addTime now (tm_interval timer)) (\<lambda>w. Inr (timer\<lparr>tm_when := w\<rparr>))"

section \<open>The timer descriptor\<close>

datatype TimerFd = Disarmed | Armed int

definition timerfd_settime :: "int \<Rightarrow> int \<Rightarrow> int \<Rightarrow> TimerFd \<Rightarrow> TimerFd" where
  "timerfd_settime clock sec nsec fd =
     (if sec < 0 \<or> nsec < 0 \<or> nsec \<ge> 1000000000 then fd
      else if sec = 0 \<and> nsec = 0 then Disarmed
      else Armed (clock + sec * 1000000 + nsec div 1000))"

definition timerfd_read :: "int \<Rightarrow> TimerFd \<Rightarrow> TimerFd" where
  "timerfd_read clock fd = (case fd of Disarmed \<Rightarrow> Disarmed | Armed d \<Rightarrow> if d \<le> clock then Disarmed else Armed d)"

definition timerfd_readable :: "int \<Rightarrow> TimerFd \<Rightarrow> bool" where
  "timerfd_readable clock fd = (case fd of Disarmed \<Rightarrow> False | Armed d \<Rightarrow> d \<le> clock)"

section \<open>The queue\<close>

text \<open>\<open>tq_ran\<close> records the callbacks run.\<close>

record 'cb TimerQueue =
  tq_heap :: "(Timestamp \<times> 'cb Timer) list"
  tq_timerfd :: TimerFd
  tq_ticks :: nat
  tq_ran :: "'cb list"

definition TimerQueue_new :: "'cb TimerQueue" where
  "TimerQueue_new = \<lparr>tq_heap = [], tq_timerfd = Disarmed, tq_ticks = 0, tq_ran = []\<rparr>"

definition read_clock :: "(nat \<Rightarrow> int) \<Rightarrow> 'cb TimerQueue \<Rightarrow> int \<times> 'cb TimerQueue" where
  "read_clock clk q = (clk (tq_ticks q), q\<lparr>tq_ticks := tq_ticks q + 1\<rparr>)"

definition addTimerInLoop :: "(nat \<Rightarrow> int) \<Rightarrow> 'cb Timer \<Rightarrow> 'cb TimerQueue \<Rightarrow> 'cb TimerQueue res" where
  "addTimerInLoop clk timer q =
     (let (now, q) = read_clock clk q in
      rbind (int64 (microSecondsSinceEpoch (tm_when timer) - now)) (\<lambda>microseconds.
        let (clock, q) = read_clock clk q
        in Inr (q\<lparr>tq_timerfd := timerfd_settime clock (microseconds sdiv kMicroSecondsPerSecond)
                    (microseconds smod kMicroSecondsPerSecond * 1000) (tq_timerfd q),
                 tq_heap := mm_insert (tm_when timer) timer (tq_heap q)\<rparr>)))"

fun add_timers :: "(nat \<Rightarrow> int) \<Rightarrow> 'cb Timer list \<Rightarrow> 'cb TimerQueue \<Rightarrow> 'cb TimerQueue res" where
  "add_timers clk [] q = Inr q"
| "add_timers clk (t # ts) q = rbind (addTimerInLoop clk t q) (add_timers clk ts)"

definition runTcb :: "(nat \<Rightarrow> int) \<Rightarrow> ('cb \<Rightarrow> int \<Rightarrow> 'cb Timer list) \<Rightarrow> 'cb Timer \<Rightarrow> 'cb TimerQueue \<Rightarrow> 'cb TimerQueue res" where
  "runTcb clk body timer q =
     add_timers clk (body (tm_tcb timer) (clk (tq_ticks q))) (q\<lparr>tq_ran := tq_ran q @ [tm_tcb timer]\<rparr>)"

fun reset_timers :: "(nat \<Rightarrow> int) \<Rightarrow> ('cb \<Rightarrow> int \<Rightarrow> 'cb Timer list) \<Rightarrow> (Timestamp \<times> 'cb Timer) list \<Rightarrow>
    'cb TimerQueue \<Rightarrow> 'cb TimerQueue res" where
  "reset_timers clk body [] q = Inr q"
| "reset_timers clk body ((k, timer) # es) q =
     rbind (runTcb clk body timer q) (\<lambda>q.
       if tm_repeated timer then
         (let (now, q) = read_clock clk q in
          rbind (updateWhen (Timestamp now) timer) (\<lambda>timer.
          rbind (addTimerInLoop clk timer q) (reset_timers clk body es)))
       else reset_timers clk body es q)"

definition timerQueueCallBack ::
  "(nat \<Rightarrow> int) \<Rightarrow> ('cb \<Rightarrow> int \<Rightarrow> 'cb Timer list) \<Rightarrow> 'cb TimerQueue \<Rightarrow> 'cb TimerQueue res" where
  "timerQueueCallBack clk body q =
     (let (clock, q) = read_clock clk q;
          q = q\<lparr>tq_timerfd := timerfd_read clock (tq_timerfd q)\<rparr>;
          (now, q) = read_clock clk q;
          expvec = mm_before (Timestamp now) (tq_heap q);
          q = q\<lparr>tq_heap := mm_from (Timestamp now) (tq_heap q)\<rparr>
      in reset_timers clk body expvec q)"

section \<open>The timer calls of the loop\<close>

definition runAt :: "(nat \<Rightarrow> int) \<Rightarrow> Timestamp \<Rightarrow> 'cb \<Rightarrow> 'cb TimerQueue \<Rightarrow> 'cb TimerQueue res" where
  "runAt clk t tcb q = addTimerInLoop clk (Timer_new t 0 tcb) q"

definition runAfter :: "(nat \<Rightarrow> int) \<Rightarrow> rat \<Rightarrow> 'cb \<Rightarrow> 'cb TimerQueue \<Rightarrow> 'cb TimerQueue res" where
  "runAfter clk delta tcb q =
     (let (now, q) = read_clock clk q in
      rbind (addTime (Timestamp now) delta) (\<lambda>t. addTimerInLoop clk (Timer_new t 0 tcb) q))"

definition runEvery :: "(nat \<Rightarrow> int) \<Rightarrow> rat \<Rightarrow> 'cb \<Rightarrow> 'cb TimerQueue \<Rightarrow> 'cb TimerQueue res" where
  "runEvery clk interval tcb q =
     (let (now, q) = read_clock clk q in
      rbind (addTime (Timestamp now) interval) (\<lambda>t. addTimerInLoop clk (Timer_new t interval tcb) q))"

section \<open>Facts\<close>

text \<open>The heap is in order and each timer is filed under its own time.\<close>

definition tq_inv :: "'cb TimerQueue \<Rightarrow> bool" where
  "tq_inv q \<longleftrightarrow> mm_sorted (tq_heap q) \<and> (\<forall>(k, timer) \<in> set (tq_heap q). tm_when timer = k)"

lemma addTimerInLoop_ok:
  assumes "addTimerInLoop clk timer q = Inr q'"
  shows "tq_heap q' = mm_insert (tm_when timer) timer (tq_heap q)" "tq_ran q' = tq_ran q"
  using assms by (auto simp: addTimerInLoop_def read_clock_def Let_def rbind_Inr_iff)

lemma addTimerInLoop_inv [inv_intros]: "addTimerInLoop clk timer q = Inr q' \<Longrightarrow> tq_inv q \<Longrightarrow> tq_inv q'"
  using addTimerInLoop_ok(1) by (fastforce simp: tq_inv_def)

lemma addTimerInLoop_in: "addTimerInLoop clk timer q = Inr q' \<Longrightarrow> set (tq_heap q') = insert (tm_when timer, timer) (set (tq_heap q))"
  by (simp add: addTimerInLoop_ok(1))

lemma addTimerInLoop_ticks: "addTimerInLoop clk timer q = Inr q' \<Longrightarrow> tq_ticks q' = tq_ticks q + 2"
  by (auto simp: addTimerInLoop_def read_clock_def Let_def rbind_Inr_iff)

lemma add_timers_ok:
  "add_timers clk ts q = Inr q' \<Longrightarrow> tq_ran q' = tq_ran q \<and> (tq_inv q \<longrightarrow> tq_inv q') \<and> tq_ticks q \<le> tq_ticks q'
     \<and> set (tq_heap q') = set (tq_heap q) \<union> {(tm_when t, t) |t. t \<in> set ts}"
proof (induction ts arbitrary: q)
  case (Cons t ts)
  then obtain q1 where q1: "addTimerInLoop clk t q = Inr q1" "add_timers clk ts q1 = Inr q'"
    by (auto simp: rbind_Inr_iff)
  from Cons.IH [OF q1(2)] addTimerInLoop_ok [OF q1(1)] addTimerInLoop_inv [OF q1(1)] addTimerInLoop_ticks [OF q1(1)]
  show ?case by auto
qed simp

text \<open>What the descriptor is set to for a time \<open>us\<close> microseconds from now: a past time leaves it
  alone, the present disarms it, a future time is the deadline.\<close>

lemma timerfd_settime_us:
  "timerfd_settime clock (us sdiv kMicroSecondsPerSecond) (us smod kMicroSecondsPerSecond * 1000) fd =
     (if us < 0 then fd else if us = 0 then Disarmed else Armed (clock + us))"
proof (cases "us < 0")
  case True
  obtain a b where ab: "a = - us div 1000000" "b = - us mod 1000000" by blast
  then have m: "- us = a * 1000000 + b" "0 \<le> b" "0 \<le> a" using True by (simp_all add: pos_imp_zdiv_nonneg_iff)
  then have pos: "0 < a \<or> 0 < b" using True by arith
  have "us sdiv 1000000 = - a" "us smod 1000000 = - b"
    using True by (simp_all add: signed_divide_int_def signed_modulo_int_def ab)
  then show ?thesis using pos True by (auto simp: timerfd_settime_def kMicroSecondsPerSecond_def)
next
  case False
  obtain a b where ab: "a = us div 1000000" "b = us mod 1000000" by blast
  then have m: "us = a * 1000000 + b" "0 \<le> b" "b < 1000000" "0 \<le> a" using False by (simp_all add: pos_imp_zdiv_nonneg_iff)
  have "us sdiv 1000000 = a" "us smod 1000000 = b"
    using False by (auto simp: signed_divide_int_def signed_modulo_int_def ab sgn_if)
  then show ?thesis using m False by (auto simp: timerfd_settime_def kMicroSecondsPerSecond_def)
qed

lemma addTimerInLoop_timerfd:
  assumes "addTimerInLoop clk timer q = Inr q'"
  shows "tq_timerfd q' =
    (let us = microSecondsSinceEpoch (tm_when timer) - clk (tq_ticks q) in
     if us < 0 then tq_timerfd q else if us = 0 then Disarmed else Armed (clk (tq_ticks q + 1) + us))"
    "tq_ticks q' = tq_ticks q + 2"
  using assms by (auto simp: addTimerInLoop_def read_clock_def Let_def rbind_Inr_iff int64_def timerfd_settime_us split: if_splits)

text \<open>
  What is filed again: a repeated timer, its interval after the clock as it is read behind its callback.
\<close>

definition filed_again :: "(nat \<Rightarrow> int) \<Rightarrow> 'cb Timer \<Rightarrow> 'cb TimerQueue \<Rightarrow> nat \<Rightarrow> 'cb TimerQueue \<Rightarrow> bool" where
  "filed_again clk t q n q' \<longleftrightarrow> tq_ticks q \<le> n \<and> n < tq_ticks q'
     \<and> (\<exists>w. addTime (Timestamp (clk n)) (tm_interval t) = Inr w \<and> (w, t\<lparr>tm_when := w\<rparr>) \<in> set (tq_heap q'))"

lemma filed_again_later:
  "filed_again clk t q1 n q2 \<Longrightarrow> tq_ticks q \<le> tq_ticks q1 \<Longrightarrow> tq_ticks q2 \<le> tq_ticks q'
     \<Longrightarrow> set (tq_heap q2) \<subseteq> set (tq_heap q') \<Longrightarrow> filed_again clk t q n q'"
  unfolding filed_again_def by (meson le_trans less_le_trans subsetD)

lemma reset_timers_ok:
  "reset_timers clk body es q = Inr q' \<Longrightarrow> tq_ran q' = tq_ran q @ List.map (\<lambda>(k, t). tm_tcb t) es
     \<and> (tq_inv q \<longrightarrow> tq_inv q') \<and> set (tq_heap q) \<subseteq> set (tq_heap q') \<and> tq_ticks q \<le> tq_ticks q'
     \<and> (\<forall>(k, t) \<in> set es. tm_repeated t \<longrightarrow> (\<exists>n. filed_again clk t q n q'))"
proof (induction es arbitrary: q)
  case (Cons e es)
  obtain k t where e: "e = (k, t)" by (cases e)
  from Cons.prems e obtain q1 where q1: "runTcb clk body t q = Inr q1"
    and rest: "(if tm_repeated t then
         (let (now, q) = read_clock clk q1 in
          rbind (updateWhen (Timestamp now) t) (\<lambda>timer.
          rbind (addTimerInLoop clk timer q) (reset_timers clk body es)))
       else reset_timers clk body es q1) = Inr q'"
    by (auto simp: rbind_Inr_iff)
  have r1: "tq_ran q1 = tq_ran q @ [tm_tcb t]" "tq_inv q \<longrightarrow> tq_inv q1" "set (tq_heap q) \<subseteq> set (tq_heap q1)"
    "tq_ticks q \<le> tq_ticks q1"
    using add_timers_ok [OF q1 [unfolded runTcb_def]] by (auto simp: tq_inv_def)
  show ?case
  proof (cases "tm_repeated t")
    case False
    with rest have "reset_timers clk body es q1 = Inr q'" by simp
    note IH = Cons.IH [OF this]
    have "\<exists>n. filed_again clk u q n q'" if "(l, u) \<in> set es" "tm_repeated u" for l u
      using IH that filed_again_later [OF _ r1(4) order_refl subset_refl] by blast
    with IH r1 False show ?thesis by (auto simp: e)
  next
    case True
    with rest obtain w q2 where w: "addTime (Timestamp (clk (tq_ticks q1))) (tm_interval t) = Inr w"
      and q2: "addTimerInLoop clk (t\<lparr>tm_when := w\<rparr>) (q1\<lparr>tq_ticks := tq_ticks q1 + 1\<rparr>) = Inr q2"
      and q3: "reset_timers clk body es q2 = Inr q'"
      by (auto simp: read_clock_def Let_def rbind_Inr_iff updateWhen_def)
    have 2: "tq_ran q2 = tq_ran q1" "tq_inv q1 \<longrightarrow> tq_inv q2" "set (tq_heap q2) = insert (w, t\<lparr>tm_when := w\<rparr>) (set (tq_heap q1))"
      "tq_ticks q2 = tq_ticks q1 + 3"
      using addTimerInLoop_ok [OF q2] addTimerInLoop_inv [OF q2] addTimerInLoop_in [OF q2] addTimerInLoop_ticks [OF q2]
      by (auto simp: tq_inv_def)
    note IH = Cons.IH [OF q3]
    have "tq_ticks q \<le> tq_ticks q2" using r1(4) 2(4) by simp
    then have "\<exists>n. filed_again clk u q n q'" if "(l, u) \<in> set es" "tm_repeated u" for l u
      using IH that filed_again_later [OF _ _ order_refl subset_refl] by blast
    moreover have "filed_again clk t q (tq_ticks q1) q2" using w 2(3,4) r1(4) by (auto simp: filed_again_def)
    then have "filed_again clk t q (tq_ticks q1) q'"
      using filed_again_later [OF _ order_refl] IH by blast
    ultimately show ?thesis using IH 2 r1 by (auto simp: e)
  qed
qed simp

lemma tq_inv_from: "tq_inv q \<Longrightarrow> tq_inv (q\<lparr>tq_heap := mm_from k (tq_heap q)\<rparr>)"
  using mm_sorted_from [of "tq_heap q" k] by (auto simp: tq_inv_def mm_from_def dest: set_dropWhileD)

section \<open>Properties\<close>

text \<open>C29: a callback of the timer queue runs exactly the expired timers. When it returns, the
  callbacks it ran are those of the timers filed strictly before the present time, in the order of their
  times and, among equal times, of their insertion; the timers at or after that time are still filed; each
  repeated timer that ran is filed again, and its new time, under which it is filed, is its interval added
  to a reading of the clock taken after the expired timers were chosen; and the heap is still in
  order.\<close>

theorem timerQueueCallBack_runs_expired:
  assumes "tq_inv q" and "timerQueueCallBack clk body q = Inr q'"
  shows "tq_ran q' = tq_ran q @ List.map (\<lambda>(k, t). tm_tcb t)
           (filter (\<lambda>(k, t). k < Timestamp (clk (tq_ticks q + 1))) (tq_heap q))
    \<and> tq_inv q'
    \<and> (\<forall>(k, t) \<in> set (tq_heap q). Timestamp (clk (tq_ticks q + 1)) \<le> k \<longrightarrow> (k, t) \<in> set (tq_heap q'))
    \<and> (\<forall>(k, t) \<in> set (tq_heap q). k < Timestamp (clk (tq_ticks q + 1)) \<and> tm_repeated t
         \<longrightarrow> (\<exists>n w. tq_ticks q + 2 \<le> n \<and> n < tq_ticks q' \<and> addTime (Timestamp (clk n)) (tm_interval t) = Inr w
               \<and> (w, t\<lparr>tm_when := w\<rparr>) \<in> set (tq_heap q')))"
proof -
  let ?now = "Timestamp (clk (tq_ticks q + 1))"
  let ?q = "q\<lparr>tq_timerfd := timerfd_read (clk (tq_ticks q)) (tq_timerfd q), tq_ticks := tq_ticks q + 2, tq_heap := mm_from ?now (tq_heap q)\<rparr>"
  have s: "mm_sorted (tq_heap q)" using assms(1) by (simp add: tq_inv_def)
  have r: "reset_timers clk body (mm_before ?now (tq_heap q)) ?q = Inr q'"
    using assms(2) by (simp add: timerQueueCallBack_def read_clock_def Let_def)
  have i: "tq_inv ?q" using tq_inv_from [OF assms(1), of ?now] by (simp add: tq_inv_def)
  have old: "(k, t) \<in> set (mm_from ?now (tq_heap q))" if "(k, t) \<in> set (tq_heap q)" "?now \<le> k" for k t
    using that mm_before_from [of ?now "tq_heap q"] mm_before_less [of k t ?now "tq_heap q"]
    by (metis Un_iff linorder_not_less set_append)
  note ok = reset_timers_ok [OF r] and b = mm_before_filter [OF s, of ?now]
  have "\<exists>n w. tq_ticks q + 2 \<le> n \<and> n < tq_ticks q' \<and> addTime (Timestamp (clk n)) (tm_interval t) = Inr w
      \<and> (w, t\<lparr>tm_when := w\<rparr>) \<in> set (tq_heap q')"
    if "(k, t) \<in> set (tq_heap q)" "k < ?now" "tm_repeated t" for k t
  proof -
    have "(k, t) \<in> set (mm_before ?now (tq_heap q))" unfolding b using that by simp
    then obtain n where "filed_again clk t ?q n q'" using ok \<open>tm_repeated t\<close> by blast
    then show ?thesis by (auto simp: filed_again_def)
  qed
  then show ?thesis using ok i old b by (fastforce simp: split_beta)
qed

theorem timerQueueCallBack_runs_expired_witness:
  "\<exists>q'. timerQueueCallBack (\<lambda>n. 7) (\<lambda>cb t. []) (TimerQueue_new\<lparr>tq_heap :=
      [(Timestamp 5, Timer_new (Timestamp 5) 0 (1 :: nat)), (Timestamp 7, Timer_new (Timestamp 7) 0 2)]\<rparr>) = Inr q'
    \<and> tq_ran q' = [1]"
proof -
  let ?q = "TimerQueue_new\<lparr>tq_heap := [(Timestamp 5, Timer_new (Timestamp 5) 0 (1 :: nat)), (Timestamp 7, Timer_new (Timestamp 7) 0 2)]\<rparr>"
  have i: "tq_inv ?q" by (simp add: tq_inv_def mm_sorted_def Timer_new_def Timestamp_le_iff)
  have "\<exists>q'. timerQueueCallBack (\<lambda>n. 7) (\<lambda>cb t. []) ?q = Inr q'"
    by (simp add: timerQueueCallBack_def read_clock_def Let_def mm_before_def Timestamp_less_iff runTcb_def Timer_new_def)
  then obtain q' where q': "timerQueueCallBack (\<lambda>n. 7) (\<lambda>cb t. []) ?q = Inr q'" by blast
  from timerQueueCallBack_runs_expired [OF i q'] have "tq_ran q' = [1]"
    by (simp add: Timestamp_less_iff Timer_new_def TimerQueue_new_def)
  with q' show ?thesis by blast
qed

text \<open>C37: adding a timer can lose the timers already there. A timer for a later time is added to an
  empty queue, which sets the descriptor for it; then one for an earlier time, not repeated, is added, which
  sets the descriptor again, for the earlier one only; both times are in the future when they are added.
  When the descriptor is readable and the callback of the queue runs, after the earlier time and not after
  the later one, it runs the earlier timer, which adds none; then the later one is still filed and the
  descriptor is disarmed, so that nothing wakes the loop for it.\<close>

theorem later_timer_lost:
  assumes "tq_heap q0 = []" and "addTimerInLoop clk b q0 = Inr q" and "clk (tq_ticks q0) < microSecondsSinceEpoch (tm_when b)"
    and "addTimerInLoop clk a q = Inr q1" and "clk (tq_ticks q) < microSecondsSinceEpoch (tm_when a)"
    and "tm_when a < Timestamp (clk (tq_ticks q + 3))" and "Timestamp (clk (tq_ticks q + 3)) \<le> tm_when b"
    and "timerfd_readable (clk (tq_ticks q + 2)) (tq_timerfd q1)"
    and "\<not> tm_repeated a" and "\<And>t. body (tm_tcb a) t = []"
  shows "tq_timerfd q = Armed (clk (tq_ticks q0 + 1) + (microSecondsSinceEpoch (tm_when b) - clk (tq_ticks q0)))
    \<and> tq_timerfd q1 = Armed (clk (tq_ticks q + 1) + (microSecondsSinceEpoch (tm_when a) - clk (tq_ticks q)))
    \<and> (\<exists>q2. timerQueueCallBack clk body q1 = Inr q2 \<and> tq_ran q2 = tq_ran q0 @ [tm_tcb a]
        \<and> tq_heap q2 = [(tm_when b, b)] \<and> tq_timerfd q2 = Disarmed)"
proof -
  have lt: "tm_when a < tm_when b" using assms(6,7) by (rule less_le_trans)
  have h: "tq_heap q1 = [(tm_when a, a), (tm_when b, b)]"
    using addTimerInLoop_ok(1) [OF assms(2)] addTimerInLoop_ok(1) [OF assms(4)] lt by (simp add: assms(1))
  have k: "tq_ticks q1 = tq_ticks q + 2" and r: "tq_ran q1 = tq_ran q0"
    using addTimerInLoop_ticks [OF assms(4)] addTimerInLoop_ok(2) [OF assms(2)] addTimerInLoop_ok(2) [OF assms(4)] by simp_all
  have fd: "tq_timerfd q = Armed (clk (tq_ticks q0 + 1) + (microSecondsSinceEpoch (tm_when b) - clk (tq_ticks q0)))"
    "tq_timerfd q1 = Armed (clk (tq_ticks q + 1) + (microSecondsSinceEpoch (tm_when a) - clk (tq_ticks q)))"
    using addTimerInLoop_timerfd(1) [OF assms(2)] addTimerInLoop_timerfd(1) [OF assms(4)] assms(3,5) by (simp_all add: Let_def)
  have d: "timerfd_read (clk (tq_ticks q + 2)) (tq_timerfd q1) = Disarmed"
    using assms(8) by (auto simp: timerfd_readable_def timerfd_read_def split: TimerFd.splits)
  have s: "mm_before (Timestamp (clk (tq_ticks q + 3))) (tq_heap q1) = [(tm_when a, a)]"
    "mm_from (Timestamp (clk (tq_ticks q + 3))) (tq_heap q1) = [(tm_when b, b)]"
    using assms(6,7) by (simp_all add: mm_before_def mm_from_def h)
  then have "\<exists>q2. timerQueueCallBack clk body q1 = Inr q2 \<and> tq_ran q2 = tq_ran q0 @ [tm_tcb a]
        \<and> tq_heap q2 = [(tm_when b, b)] \<and> tq_timerfd q2 = Disarmed"
    using d assms(9,10) k r by (simp add: timerQueueCallBack_def read_clock_def Let_def runTcb_def numeral_3_eq_3)
  with fd show ?thesis by blast
qed

theorem later_timer_lost_witness:
  "\<exists>q q1 q2. addTimerInLoop (\<lambda>n. if n < 4 then 0 else 1500000) (Timer_new (Timestamp 2000000) 0 (2 :: nat)) TimerQueue_new = Inr q
    \<and> tq_timerfd q = Armed 2000000
    \<and> addTimerInLoop (\<lambda>n. if n < 4 then 0 else 1500000) (Timer_new (Timestamp 1000000) 0 10) q = Inr q1
    \<and> tq_timerfd q1 = Armed 1000000
    \<and> timerQueueCallBack (\<lambda>n. if n < 4 then 0 else 1500000) (\<lambda>cb t. []) q1 = Inr q2
    \<and> tq_ran q2 = [10] \<and> tq_timerfd q2 = Disarmed \<and> tq_heap q2 \<noteq> []"
proof -
  let ?clk = "\<lambda>n :: nat. if n < 4 then 0 else 1500000 :: int"
  let ?a = "Timer_new (Timestamp 1000000) 0 (10 :: nat)" and ?b = "Timer_new (Timestamp 2000000) 0 (2 :: nat)"
  have ab: "tm_when ?a = Timestamp 1000000" "tm_when ?b = Timestamp 2000000" "\<not> tm_repeated ?a" "tm_tcb ?a = 10"
    by (simp_all add: Timer_new_def)
  have q0: "tq_ticks (TimerQueue_new :: nat TimerQueue) = 0" "tq_heap (TimerQueue_new :: nat TimerQueue) = []"
    "tq_ran (TimerQueue_new :: nat TimerQueue) = []"
    by (simp_all add: TimerQueue_new_def)
  have add: "\<exists>p'. addTimerInLoop ?clk t p = Inr p'" if "t = ?a \<or> t = ?b" "tq_ticks p < 4" for t and p :: "nat TimerQueue"
    using that by (auto simp: addTimerInLoop_def read_clock_def Let_def int64_def in_int64_def Timer_new_def)
  obtain q where q: "addTimerInLoop ?clk ?b TimerQueue_new = Inr q" using add [of ?b TimerQueue_new] q0(1) by auto
  have k: "tq_ticks q = 2" using addTimerInLoop_ticks [OF q] q0(1) by simp
  obtain q1 where q1: "addTimerInLoop ?clk ?a q = Inr q1" using add [of ?a q] k by auto
  have "tq_timerfd q1 = Armed 1000000" using addTimerInLoop_timerfd(1) [OF q1] by (simp add: Let_def ab k)
  then have r: "timerfd_readable (?clk (tq_ticks q + 2)) (tq_timerfd q1)" by (simp add: timerfd_readable_def k)
  from later_timer_lost [OF q0(2) q _ q1 _ _ _ r ab(3), of "\<lambda>cb t. []"] show ?thesis
    using q q1 by (auto simp: ab k q0 Timestamp_less_iff Timestamp_le_iff)
qed

end
