(* ===== verification/EventLoops.thy ===== *)
theory EventLoops
  imports StepSystems "HOL-Library.Sublist"
begin

text \<open>
  \<open>EventLoop\<close> (winterfell/net/wf_event_loop.h, wf_event_loop.cc) as a step relation: the loop's own
  thread, which polls, handles channels, swaps the pending functors out and runs them, and any number
  of other threads, which queue functors, quit and wake the loop, interleaved at every point where the
  code can be interrupted. The calls to the poller are in the theory of the poller; here \<open>poll\<close>
  returns with the wakeup channel active exactly if the event counter is positive.
\<close>

section \<open>State\<close>

text \<open>What a functor does to the loop, in order; \<open>body\<close> gives it for each functor.\<close>

datatype 'f act = ActQueue 'f | ActQuit

datatype 'f phase =
    NotLooping | CheckQuit | AtPoll | HandleChannels bool | BeforeSwap | RunFunctors "'f act list"

text \<open>
  \<open>el_waking\<close> counts the other threads that are between their change of the state and their write to
  the event descriptor; \<open>el_queued\<close> and \<open>el_ran\<close> record all functors ever queued and started.
  \<open>el_outside\<close> records the pending functors that the loop's own thread has queued while it was not in
  \<open>loop()\<close> and for which no wakeup was written. \<open>el_quit\<close> is the member \<open>quit_\<close>, which \<open>loop()\<close> resets
  when it is entered: inside \<open>loop()\<close> it says that quit was asked since then.
\<close>

record 'f EventLoop =
  el_looping :: bool
  el_quit :: bool
  el_calling :: bool
  el_pending :: "'f list"
  el_functors :: "'f list"
  el_eventfd :: nat
  el_waking :: nat
  el_phase :: "'f phase"
  el_queued :: "'f list"
  el_ran :: "'f list"
  el_outside :: "'f list"

text \<open>A loop that is constructed; \<open>calling\<close> and \<open>quit\<close> are not initialised by the constructor.\<close>

definition EventLoop_new :: "bool \<Rightarrow> bool \<Rightarrow> 'f EventLoop" where
  "EventLoop_new quit calling =
     \<lparr>el_looping = False, el_quit = quit, el_calling = calling, el_pending = [], el_functors = [], el_eventfd = 0,
      el_waking = 0, el_phase = NotLooping, el_queued = [], el_ran = [], el_outside = []\<rparr>"

section \<open>Operations\<close>

definition el_loop_enter :: "'f EventLoop \<Rightarrow> 'f EventLoop res" where
  "el_loop_enter s =
     rassert (\<not> el_looping s) (Inr (s\<lparr>el_looping := True, el_quit := False, el_phase := CheckQuit\<rparr>))"

text \<open>The counter of the event descriptor: a write that would pass the maximum fails and is ignored.\<close>

definition max_eventfd :: nat where
  "max_eventfd = 2 ^ 64 - 2"

definition el_wakeup :: "'f EventLoop \<Rightarrow> 'f EventLoop" where
  "el_wakeup s = s\<lparr>el_eventfd := (if el_eventfd s + 1 \<le> max_eventfd then el_eventfd s + 1 else el_eventfd s)\<rparr>"

definition el_handleRead :: "'f EventLoop \<Rightarrow> 'f EventLoop" where
  "el_handleRead s = s\<lparr>el_eventfd := 0\<rparr>"

definition push_functor :: "'f \<Rightarrow> 'f EventLoop \<Rightarrow> 'f EventLoop" where
  "push_functor f s = s\<lparr>el_pending := el_pending s @ [f], el_queued := el_queued s @ [f]\<rparr>"

definition must_wake :: "bool \<Rightarrow> 'f EventLoop \<Rightarrow> bool" where
  "must_wake in_loop s \<longleftrightarrow> \<not> in_loop \<or> el_calling s"

text \<open>\<open>queueInLoop\<close>: called by the loop's thread it is one step; called by another, the wakeup follows.\<close>

definition queueInLoop :: "bool \<Rightarrow> 'f \<Rightarrow> 'f EventLoop \<Rightarrow> 'f EventLoop" where
  "queueInLoop in_loop f s =
     (let s = push_functor f s in
      if must_wake in_loop s then (if in_loop then el_wakeup s else s\<lparr>el_waking := el_waking s + 1\<rparr>) else s)"

definition el_setQuit :: "bool \<Rightarrow> 'f EventLoop \<Rightarrow> 'f EventLoop" where
  "el_setQuit in_loop s =
     (let s = s\<lparr>el_quit := True\<rparr> in if in_loop then s else s\<lparr>el_waking := el_waking s + 1\<rparr>)"

fun do_act :: "'f act \<Rightarrow> 'f EventLoop \<Rightarrow> 'f EventLoop" where
  "do_act (ActQueue f) s = queueInLoop True f s"
| "do_act ActQuit s = el_setQuit True s"

text \<open>
  The same calls by the loop's own thread while it is not in \<open>loop()\<close>: before it, or after it has
  returned. \<open>queueInLoop\<close> then writes no wakeup, unless \<open>callingPendingFunctors_\<close> was never
  initialised and happens to be true.
\<close>

fun act_outside :: "'f act \<Rightarrow> 'f EventLoop \<Rightarrow> 'f EventLoop" where
  "act_outside (ActQueue f) s =
     (queueInLoop True f s)\<lparr>el_outside := el_outside s @ (if must_wake True s then [] else [f])\<rparr>"
| "act_outside ActQuit s = el_setQuit True s"

definition swap_functors :: "'f EventLoop \<Rightarrow> 'f EventLoop" where
  "swap_functors s = s\<lparr>el_functors := el_pending s, el_pending := [], el_outside := [], el_phase := RunFunctors []\<rparr>"

text \<open>\<open>runInLoop\<close>: in the loop's thread the functor runs at once, otherwise it is queued.\<close>

definition runInLoop :: "('f \<Rightarrow> 'f act list) \<Rightarrow> bool \<Rightarrow> 'f \<Rightarrow> 'f EventLoop \<Rightarrow> 'f EventLoop" where
  "runInLoop body in_loop f s = (if in_loop then fold do_act (body f) s else queueInLoop False f s)"

text \<open>
  The constructor and the destructor keep at most one loop per thread, in the thread-local
  \<open>t_loopInThisThread\<close>; a second loop aborts through \<open>LOG_FATAL\<close>.
\<close>

definition construct_loop :: "nat \<Rightarrow> bool \<Rightarrow> bool \<Rightarrow> nat option \<Rightarrow> ('f EventLoop \<times> nat option) res" where
  "construct_loop this quit calling t_loopInThisThread =
     (case t_loopInThisThread of
        Some l \<Rightarrow> Inl Aborted
      | None \<Rightarrow> Inr (EventLoop_new quit calling, Some this))"

definition destroy_loop :: "'f EventLoop \<Rightarrow> nat option \<Rightarrow> nat option res" where
  "destroy_loop s t_loopInThisThread = rassert (\<not> el_looping s) (Inr None)"

section \<open>Steps\<close>

inductive loop_step :: "('f \<Rightarrow> 'f act list) \<Rightarrow> 'f EventLoop \<Rightarrow> 'f EventLoop \<Rightarrow> bool" for body where
  outside: "el_phase s = NotLooping \<Longrightarrow> loop_step body s (act_outside a s)"
| enter: "el_phase s = NotLooping \<Longrightarrow> el_loop_enter s = Inr s' \<Longrightarrow> loop_step body s s'"
| go: "el_phase s = CheckQuit \<Longrightarrow> \<not> el_quit s \<Longrightarrow> loop_step body s (s\<lparr>el_phase := AtPoll\<rparr>)"
| stop: "el_phase s = CheckQuit \<Longrightarrow> el_quit s \<Longrightarrow> loop_step body s (s\<lparr>el_looping := False, el_phase := NotLooping\<rparr>)"
| poll: "el_phase s = AtPoll \<Longrightarrow> loop_step body s (s\<lparr>el_phase := HandleChannels (el_eventfd s > 0)\<rparr>)"
| read: "el_phase s = HandleChannels True \<Longrightarrow> loop_step body s ((el_handleRead s)\<lparr>el_phase := HandleChannels False\<rparr>)"
| callback: "el_phase s = HandleChannels w \<Longrightarrow> loop_step body s (do_act a s)"
| handled: "el_phase s = HandleChannels False \<Longrightarrow> loop_step body s (s\<lparr>el_calling := True, el_phase := BeforeSwap\<rparr>)"
| swap: "el_phase s = BeforeSwap \<Longrightarrow> loop_step body s (swap_functors s)"
| run: "el_phase s = RunFunctors [] \<Longrightarrow> el_functors s = f # fs \<Longrightarrow>
    loop_step body s (s\<lparr>el_functors := fs, el_ran := el_ran s @ [f], el_phase := RunFunctors (body f)\<rparr>)"
| act: "el_phase s = RunFunctors (a # as) \<Longrightarrow> loop_step body s ((do_act a s)\<lparr>el_phase := RunFunctors as\<rparr>)"
| ran_all: "el_phase s = RunFunctors [] \<Longrightarrow> el_functors s = [] \<Longrightarrow>
    loop_step body s (s\<lparr>el_calling := False, el_phase := CheckQuit\<rparr>)"
| other_queue: "loop_step body s (queueInLoop False f s)"
| other_quit: "loop_step body s (el_setQuit False s)"
| other_wake: "el_waking s > 0 \<Longrightarrow> loop_step body s (el_wakeup (s\<lparr>el_waking := el_waking s - 1\<rparr>))"

inductive_cases loop_step_elim: "loop_step body s t"

text \<open>The steps of the loop's own thread.\<close>

inductive own_step :: "('f \<Rightarrow> 'f act list) \<Rightarrow> 'f EventLoop \<Rightarrow> 'f EventLoop \<Rightarrow> bool" for body where
  "loop_step body s t \<Longrightarrow> el_waking t = el_waking s \<Longrightarrow> el_phase s \<noteq> NotLooping \<Longrightarrow> own_step body s t"

section \<open>The invariant\<close>

definition signalled :: "'f EventLoop \<Rightarrow> bool" where
  "signalled s \<longleftrightarrow> el_eventfd s > 0 \<or> el_waking s > 0"

fun needs_signal :: "'f phase \<Rightarrow> bool" where
  "needs_signal (HandleChannels w) = False"
| "needs_signal BeforeSwap = False"
| "needs_signal _ = True"

definition loop_inv :: "'f EventLoop \<Rightarrow> bool" where
  "loop_inv s \<longleftrightarrow>
     (needs_signal (el_phase s) \<and> el_pending s \<noteq> el_outside s \<longrightarrow> signalled s)
     \<and> (el_phase s = AtPoll \<and> el_quit s \<longrightarrow> signalled s)
     \<and> (\<forall>as. el_phase s = BeforeSwap \<or> el_phase s = RunFunctors as \<longrightarrow> el_calling s)
     \<and> subseq (el_outside s) (el_pending s)
     \<and> ((\<forall>as. el_phase s \<noteq> RunFunctors as) \<longrightarrow> el_functors s = [])
     \<and> (el_looping s \<longleftrightarrow> el_phase s \<noteq> NotLooping)
     \<and> el_queued s = el_ran s @ el_functors s @ el_pending s"

definition loop_init :: "'f EventLoop \<Rightarrow> bool" where
  "loop_init s \<longleftrightarrow> (\<exists>q c. s = EventLoop_new q c)"

lemma max_eventfd_pos: "0 < max_eventfd"
  by (simp add: max_eventfd_def)

lemma wakeup_signals [simp]: "signalled (el_wakeup s)"
  using max_eventfd_pos by (auto simp: el_wakeup_def signalled_def)

lemma wakeup_fields [simp]:
  "el_looping (el_wakeup s) = el_looping s" "el_quit (el_wakeup s) = el_quit s" "el_calling (el_wakeup s) = el_calling s"
  "el_pending (el_wakeup s) = el_pending s" "el_functors (el_wakeup s) = el_functors s" "el_waking (el_wakeup s) = el_waking s"
  "el_phase (el_wakeup s) = el_phase s" "el_queued (el_wakeup s) = el_queued s" "el_ran (el_wakeup s) = el_ran s"
  "el_outside (el_wakeup s) = el_outside s"
  by (simp_all add: el_wakeup_def)

lemma queue_fields [simp]:
  "el_looping (queueInLoop b f s) = el_looping s" "el_quit (queueInLoop b f s) = el_quit s"
  "el_calling (queueInLoop b f s) = el_calling s" "el_pending (queueInLoop b f s) = el_pending s @ [f]"
  "el_functors (queueInLoop b f s) = el_functors s" "el_phase (queueInLoop b f s) = el_phase s"
  "el_queued (queueInLoop b f s) = el_queued s @ [f]" "el_ran (queueInLoop b f s) = el_ran s"
  "el_outside (queueInLoop b f s) = el_outside s"
  by (simp_all add: queueInLoop_def push_functor_def Let_def)

lemma queue_signalled:
  "signalled s \<or> \<not> b \<or> el_calling s \<Longrightarrow> signalled (queueInLoop b f s)"
  by (auto simp: queueInLoop_def push_functor_def Let_def must_wake_def signalled_def el_wakeup_def max_eventfd_def)

lemma quit_fields [simp]:
  "el_looping (el_setQuit b s) = el_looping s" "el_quit (el_setQuit b s)"
  "el_calling (el_setQuit b s) = el_calling s" "el_pending (el_setQuit b s) = el_pending s"
  "el_functors (el_setQuit b s) = el_functors s" "el_phase (el_setQuit b s) = el_phase s"
  "el_queued (el_setQuit b s) = el_queued s" "el_ran (el_setQuit b s) = el_ran s" "el_eventfd (el_setQuit b s) = el_eventfd s"
  "el_outside (el_setQuit b s) = el_outside s"
  by (simp_all add: el_setQuit_def Let_def)

lemma quit_signalled: "signalled s \<or> \<not> b \<Longrightarrow> signalled (el_setQuit b s)"
  by (auto simp: el_setQuit_def Let_def signalled_def)

lemma signalled_updates [simp]:
  "signalled (el_phase_update g1 s) = signalled s" "signalled (el_calling_update g2 s) = signalled s"
  "signalled (el_looping_update g2 s) = signalled s" "signalled (el_quit_update g2 s) = signalled s"
  "signalled (el_functors_update g3 s) = signalled s" "signalled (el_ran_update g3 s) = signalled s"
  "signalled (el_outside_update g3 s) = signalled s"
  by (simp_all add: signalled_def)

lemma loop_inv_init: "loop_init s \<Longrightarrow> loop_inv s"
  by (auto simp: loop_init_def loop_inv_def EventLoop_new_def)

lemma loop_inv_outside:
  assumes "el_phase s = NotLooping" "loop_inv s" shows "loop_inv (act_outside a s)"
proof (cases a)
  case (ActQueue f)
  have "signalled (queueInLoop True f s)" if "must_wake True s \<or> el_pending s \<noteq> el_outside s"
    using that assms by (intro queue_signalled) (auto simp: loop_inv_def must_wake_def)
  then show ?thesis using assms ActQueue
    by (auto simp: loop_inv_def intro: subseq_append_iff [THEN iffD2])
qed (use assms in \<open>auto simp: loop_inv_def intro: quit_signalled\<close>)

lemma loop_inv_step: "loop_step body s t \<Longrightarrow> loop_inv s \<Longrightarrow> loop_inv t"
proof (induction rule: loop_step.induct)
  case (outside s a)
  then show ?case by (rule loop_inv_outside)
next
  case (callback s w a)
  then show ?case by (cases a) (simp_all add: loop_inv_def list_emb_prefix)
next
  case (act s a as)
  then show ?case by (cases a) (simp_all add: loop_inv_def list_emb_prefix queue_signalled quit_signalled)
qed (auto simp: loop_inv_def list_emb_prefix el_loop_enter_def rassert_def swap_functors_def el_handleRead_def
    queue_signalled quit_signalled split: if_splits)

text \<open>What the program relies on: a first-in first-out queue of functors, each run once.\<close>

inductive fifo_step :: "'f list \<times> 'f list \<Rightarrow> 'f list \<times> 'f list \<Rightarrow> bool" where
  fifo_put: "fifo_step (done, waiting) (done, waiting @ [f])"
| fifo_run: "fifo_step (done, f # waiting) (done @ [f], waiting)"

definition fifo_of :: "'f EventLoop \<Rightarrow> 'f list \<times> 'f list" where
  "fifo_of s = (el_ran s, el_functors s @ el_pending s)"

lemma fifo_of_do_act: "fifo_of (do_act a s) = fifo_of s \<or> fifo_step (fifo_of s) (fifo_of (do_act a s))"
  using fifo_put [of "el_ran s" "el_functors s @ el_pending s"] by (cases a) (auto simp: fifo_of_def)

lemma fifo_of_outside: "fifo_of (act_outside a s) = fifo_of s \<or> fifo_step (fifo_of s) (fifo_of (act_outside a s))"
  using fifo_of_do_act [of a s] by (cases a) (simp_all add: fifo_of_def)

lemma fifo_of_phase [simp]: "fifo_of (el_phase_update g s) = fifo_of s" "fifo_of (el_calling_update h s) = fifo_of s"
  "fifo_of (el_looping_update h s) = fifo_of s" "fifo_of (el_quit_update h s) = fifo_of s"
  "fifo_of (el_handleRead s) = fifo_of s" "fifo_of (el_wakeup s) = fifo_of s" "fifo_of (el_waking_update k s) = fifo_of s"
  by (simp_all add: fifo_of_def el_handleRead_def)

lemma loop_sim_step:
  "loop_step body s t \<Longrightarrow> loop_inv s \<Longrightarrow> fifo_of t = fifo_of s \<or> fifo_step (fifo_of s) (fifo_of t)"
proof (induction rule: loop_step.induct)
  case (outside s a)
  show ?case by (rule fifo_of_outside)
next
  case (callback s w a)
  show ?case by (rule fifo_of_do_act)
next
  case (act s a as)
  show ?case using fifo_of_do_act [of a s] by simp
next
  case (run s f fs)
  then show ?case using fifo_run [of "el_ran s" f "fs @ el_pending s"] by (simp add: fifo_of_def)
next
  case (other_queue s f)
  show ?case using fifo_of_do_act [of "ActQueue f" s] by (simp add: fifo_of_def)
qed (auto simp: fifo_of_def el_loop_enter_def rassert_def swap_functors_def el_setQuit_def Let_def el_handleRead_def
    loop_inv_def split: if_splits)

interpretation el: simulated_system loop_init "loop_step body" loop_inv fifo_of fifo_step for body
  by unfold_locales (auto intro: loop_inv_init loop_inv_step dest: loop_sim_step)

section \<open>One iteration\<close>

lemma own_stepI:
  "loop_step body s t \<Longrightarrow> el_waking t = el_waking s \<Longrightarrow> el_phase s \<noteq> NotLooping \<Longrightarrow> (own_step body)\<^sup>*\<^sup>* s t"
  by (intro r_into_rtranclp own_step.intros)

lemma do_act_fields [simp]:
  "el_functors (do_act a s) = el_functors s" "el_ran (do_act a s) = el_ran s" "el_waking (do_act a s) = el_waking s"
  by (cases a; simp add: queueInLoop_def push_functor_def el_setQuit_def Let_def)+

lemma do_act_pending: "\<exists>ps. el_pending (do_act a s) = el_pending s @ ps"
  by (cases a) auto

lemma acts_run:
  "el_phase s = RunFunctors as \<Longrightarrow>
     \<exists>t. (own_step body)\<^sup>*\<^sup>* s t \<and> el_phase t = RunFunctors [] \<and> el_functors t = el_functors s \<and> el_ran t = el_ran s
       \<and> el_waking t = el_waking s"
proof (induction as arbitrary: s)
  case Nil
  then show ?case by blast
next
  case (Cons a as)
  let ?s = "(do_act a s)\<lparr>el_phase := RunFunctors as\<rparr>"
  have "(own_step body)\<^sup>*\<^sup>* s ?s"
    using Cons.prems by (intro own_stepI loop_step.act) simp_all
  moreover obtain t where "(own_step body)\<^sup>*\<^sup>* ?s t" "el_phase t = RunFunctors []" "el_functors t = el_functors ?s"
    "el_ran t = el_ran ?s" "el_waking t = el_waking ?s"
    using Cons.IH [of ?s] by auto
  ultimately show ?case by (intro exI [of _ t]) (auto intro: rtranclp_trans)
qed

lemma functors_run:
  "el_phase s = RunFunctors [] \<Longrightarrow> el_functors s = fs \<Longrightarrow>
     \<exists>t. (own_step body)\<^sup>*\<^sup>* s t \<and> el_phase t = CheckQuit \<and> el_ran t = el_ran s @ fs \<and> el_waking t = el_waking s"
proof (induction fs arbitrary: s)
  case Nil
  then have "(own_step body)\<^sup>*\<^sup>* s (s\<lparr>el_calling := False, el_phase := CheckQuit\<rparr>)"
    by (intro own_stepI loop_step.ran_all) simp_all
  then show ?case by (intro exI conjI) (assumption, simp_all)
next
  case (Cons f fs)
  let ?s = "s\<lparr>el_functors := fs, el_ran := el_ran s @ [f], el_phase := RunFunctors (body f)\<rparr>"
  have "(own_step body)\<^sup>*\<^sup>* s ?s"
    using Cons.prems by (intro own_stepI loop_step.run) simp_all
  moreover obtain u where u: "(own_step body)\<^sup>*\<^sup>* ?s u" "el_phase u = RunFunctors []" "el_functors u = fs"
    "el_ran u = el_ran s @ [f]" "el_waking u = el_waking s"
    using acts_run [of ?s "body f" body] by auto
  moreover obtain t where "(own_step body)\<^sup>*\<^sup>* u t" "el_phase t = CheckQuit" "el_ran t = el_ran u @ fs" "el_waking t = el_waking u"
    using Cons.IH [OF u(2,3)] by blast
  ultimately show ?case by (intro exI [of _ t]) (auto intro: rtranclp_trans)
qed

lemma iteration_runs:
  assumes "el_phase s = AtPoll"
  shows "\<exists>t. (own_step body)\<^sup>*\<^sup>* s t \<and> el_phase t = CheckQuit \<and> el_ran t = el_ran s @ el_pending s"
proof -
  let ?h = "(if el_eventfd s > 0 then el_handleRead s else s)\<lparr>el_phase := HandleChannels False\<rparr>"
  have 1: "(own_step body)\<^sup>*\<^sup>* s (s\<lparr>el_phase := HandleChannels (el_eventfd s > 0)\<rparr>)"
    using assms by (intro own_stepI loop_step.poll) simp_all
  have 2: "(own_step body)\<^sup>*\<^sup>* (s\<lparr>el_phase := HandleChannels (el_eventfd s > 0)\<rparr>) ?h"
  proof (cases "el_eventfd s > 0")
    case True
    have "loop_step body (s\<lparr>el_phase := HandleChannels True\<rparr>) ((el_handleRead (s\<lparr>el_phase := HandleChannels True\<rparr>))\<lparr>el_phase := HandleChannels False\<rparr>)"
      by (rule loop_step.read) simp
    then show ?thesis using True by (intro own_stepI) (simp_all add: el_handleRead_def)
  qed simp
  let ?c = "?h\<lparr>el_calling := True, el_phase := BeforeSwap\<rparr>"
  have 3: "(own_step body)\<^sup>*\<^sup>* ?h ?c" by (intro own_stepI loop_step.handled) simp_all
  have 4: "(own_step body)\<^sup>*\<^sup>* ?c (swap_functors ?c)"
    by (intro own_stepI loop_step.swap) (simp_all add: swap_functors_def)
  have c: "el_phase (swap_functors ?c) = RunFunctors []" "el_functors (swap_functors ?c) = el_pending s"
    "el_ran (swap_functors ?c) = el_ran s"
    by (simp_all add: swap_functors_def el_handleRead_def)
  obtain t where 5: "(own_step body)\<^sup>*\<^sup>* (swap_functors ?c) t" "el_phase t = CheckQuit"
    "el_ran t = el_ran (swap_functors ?c) @ el_pending s"
    using functors_run [OF c(1,2), of body] by blast
  have "(own_step body)\<^sup>*\<^sup>* s t" using 1 2 3 4 5(1) by (meson rtranclp_trans)
  then show ?thesis using 5(2,3) c(3) by auto
qed

section \<open>Properties\<close>

text \<open>A loop whose thread waits in \<open>poll\<close> when another thread queues functor 7 and wakes it.\<close>

definition waiting_loop :: "nat EventLoop" where
  "waiting_loop = el_wakeup ((queueInLoop False 7 ((EventLoop_new False False)\<lparr>el_looping := True, el_phase := AtPoll\<rparr>))\<lparr>el_waking := 0\<rparr>)"

lemma waiting_loop_reachable: "reachable loop_init (loop_step body) waiting_loop"
proof -
  let ?e = "(EventLoop_new False False)\<lparr>el_looping := True, el_quit := False, el_phase := CheckQuit\<rparr> :: nat EventLoop"
  let ?p = "?e\<lparr>el_phase := AtPoll\<rparr>"
  have "reachable loop_init (loop_step body) (EventLoop_new False False)"
    by (rule reach_init) (auto simp: loop_init_def)
  moreover have "loop_step body (EventLoop_new False False) ?e"
    by (rule loop_step.enter) (simp_all add: EventLoop_new_def el_loop_enter_def)
  moreover have "loop_step body ?e ?p" by (rule loop_step.go) (simp_all add: EventLoop_new_def)
  moreover have "loop_step body ?p (queueInLoop False 7 ?p)" by (rule loop_step.other_queue)
  moreover have "loop_step body (queueInLoop False 7 ?p) (el_wakeup ((queueInLoop False 7 ?p)\<lparr>el_waking := el_waking (queueInLoop False 7 ?p) - 1\<rparr>))"
    by (rule loop_step.other_wake) (simp add: queueInLoop_def must_wake_def Let_def)
  moreover have "el_wakeup ((queueInLoop False 7 ?p)\<lparr>el_waking := el_waking (queueInLoop False 7 ?p) - 1\<rparr>) = waiting_loop"
    by (simp add: waiting_loop_def EventLoop_new_def queueInLoop_def push_functor_def must_wake_def Let_def)
  ultimately show ?thesis by (metis reach_step)
qed

lemma waiting_loop_fields:
  "el_phase waiting_loop = AtPoll" "el_pending waiting_loop = [7]" "el_waking waiting_loop = 0" "el_ran waiting_loop = []"
  "el_outside waiting_loop = []"
  by (simp_all add: waiting_loop_def EventLoop_new_def)

text \<open>C6: no wakeup is lost. Whatever the interleaving of the loop with any number of threads that
  queue functors and quit, and whatever the loop's own thread queues before, inside and after loop(), the
  loop never waits in poll while quit was asked since it entered loop(), or while a functor is pending other
  than those its own thread queued outside loop(), unless the event descriptor is readable or a thread is
  about to write to it. The functors queued outside loop() by its own thread are the only exception: for
  these the code writes no wakeup, and the first poll of the loop may wait with them pending.\<close>

theorem no_lost_wakeup:
  assumes "reachable loop_init (loop_step body) s" and "el_phase s = AtPoll" and "el_pending s \<noteq> el_outside s \<or> el_quit s"
  shows "el_eventfd s > 0 \<or> el_waking s > 0"
  using el.inv_reachable [OF assms(1)] assms(2,3) by (auto simp: loop_inv_def signalled_def)

theorem no_lost_wakeup_witness: "el_eventfd waiting_loop > 0 \<or> el_waking waiting_loop > 0"
  by (rule no_lost_wakeup [OF waiting_loop_reachable [of "\<lambda>_. []"]]) (simp_all add: waiting_loop_fields)

text \<open>C16: functors run in the order they were queued, each exactly once. At every reachable state the
  functors ever queued are those started, then those swapped out, then those pending, in this order;
  and every run of the loop is a run of a plain first-in first-out queue.\<close>

theorem functors_fifo_once:
  assumes "loop_init s" and "(loop_step body)\<^sup>*\<^sup>* s t"
  shows "el_queued t = el_ran t @ el_functors t @ el_pending t \<and> fifo_step\<^sup>*\<^sup>* ([], []) (fifo_of t)"
proof -
  have i: "loop_inv s" "fifo_of s = ([], [])"
    using assms(1) loop_inv_init by (auto simp: loop_init_def fifo_of_def EventLoop_new_def)
  show ?thesis
    using el.inv_steps [OF assms(2) i(1)] el.sim_steps [OF assms(2) i(1)] i(2) by (simp add: loop_inv_def)
qed

theorem functors_fifo_once_witness:
  "el_queued waiting_loop = [7] \<and> fifo_step\<^sup>*\<^sup>* ([], []) (fifo_of waiting_loop)"
proof -
  obtain s where "loop_init s" "(loop_step (\<lambda>_. []))\<^sup>*\<^sup>* s waiting_loop"
    using reachable_from [OF waiting_loop_reachable] by blast
  from functors_fifo_once [OF this] show ?thesis
    by (simp add: waiting_loop_fields waiting_loop_def EventLoop_new_def)
qed

text \<open>C26: pending functors run in the next iteration. When a loop is about to wait in poll and no
  thread is still to write a wakeup, the event descriptor is readable, so that poll returns at once, if any
  functor is pending other than those its own thread queued outside loop(); and once poll returns (for the
  latter, at the latest when its timeout of ten seconds is over) the loop reaches the end of the iteration
  by its own steps alone with every pending functor run, in order.\<close>

theorem pending_functors_run:
  assumes "reachable loop_init (loop_step body) s" and "el_phase s = AtPoll" and "el_waking s = 0"
  shows "(el_pending s \<noteq> el_outside s \<longrightarrow> el_eventfd s > 0)
    \<and> (\<exists>t. (own_step body)\<^sup>*\<^sup>* s t \<and> el_phase t = CheckQuit \<and> el_ran t = el_ran s @ el_pending s)"
  using el.inv_reachable [OF assms(1)] assms(2,3) iteration_runs [OF assms(2), of body]
  by (auto simp: loop_inv_def signalled_def)

theorem pending_functors_run_witness:
  "el_eventfd waiting_loop > 0 \<and> (\<exists>t. (own_step (\<lambda>_. [ActQueue 8]))\<^sup>*\<^sup>* waiting_loop t \<and> el_phase t = CheckQuit \<and> el_ran t = [7])"
  using pending_functors_run [OF waiting_loop_reachable [of "\<lambda>_. [ActQueue 8]"]] by (simp add: waiting_loop_fields)

text \<open>
  The exception is real. If the loop's thread queues a functor and then calls \<open>loop\<close>, no wakeup is
  written: the loop waits in \<open>poll\<close> with the functor pending and nothing to wake it.
\<close>

theorem functor_before_loop_waits:
  "\<exists>t. (loop_step body)\<^sup>*\<^sup>* (EventLoop_new q False) t
     \<and> el_phase t = AtPoll \<and> el_pending t = [f] \<and> el_outside t = [f] \<and> el_eventfd t = 0 \<and> el_waking t = 0"
proof -
  let ?s = "act_outside (ActQueue f) (EventLoop_new q False)"
  let ?e = "?s\<lparr>el_looping := True, el_quit := False, el_phase := CheckQuit\<rparr>"
  have "loop_step body (EventLoop_new q False) ?s" by (rule loop_step.outside) (simp add: EventLoop_new_def)
  moreover have "loop_step body ?s ?e"
    by (rule loop_step.enter) (simp_all add: EventLoop_new_def el_loop_enter_def)
  moreover have "loop_step body ?e (?e\<lparr>el_phase := AtPoll\<rparr>)" by (rule loop_step.go) simp_all
  ultimately have "(loop_step body)\<^sup>*\<^sup>* (EventLoop_new q False) (?e\<lparr>el_phase := AtPoll\<rparr>)"
    by (meson converse_rtranclp_into_rtranclp r_into_rtranclp)
  then show ?thesis
    by (intro exI conjI) (assumption, simp_all add: EventLoop_new_def queueInLoop_def must_wake_def push_functor_def)
qed

text \<open>A quit that comes before \<open>loop\<close> is lost. If the loop's thread calls \<open>quit\<close> and then
  \<open>loop\<close>, the loop forgets it and waits in \<open>poll\<close> with nothing to wake it.\<close>

theorem quit_before_loop_lost:
  "\<exists>t. (loop_step body)\<^sup>*\<^sup>* (el_setQuit True (EventLoop_new q c)) t
     \<and> el_phase t = AtPoll \<and> \<not> el_quit t \<and> el_eventfd t = 0 \<and> el_waking t = 0"
proof -
  let ?s = "el_setQuit True (EventLoop_new q c) :: 'a EventLoop"
  let ?e = "?s\<lparr>el_looping := True, el_quit := False, el_phase := CheckQuit\<rparr>"
  have "loop_step body ?s ?e"
    by (rule loop_step.enter) (simp_all add: EventLoop_new_def el_loop_enter_def el_setQuit_def)
  moreover have "loop_step body ?e (?e\<lparr>el_phase := AtPoll\<rparr>)" by (rule loop_step.go) simp_all
  ultimately have "(loop_step body)\<^sup>*\<^sup>* ?s (?e\<lparr>el_phase := AtPoll\<rparr>)" by (meson converse_rtranclp_into_rtranclp r_into_rtranclp)
  then show ?thesis by (intro exI conjI) (assumption, simp_all add: el_setQuit_def EventLoop_new_def)
qed

end
