(* ===== verification/Reactors.thy ===== *)
theory Reactors
  imports PollPollers
begin

text \<open>
  The loop and its poller together (winterfell/net/wf_event_loop.h, wf_event_loop.cc,
  poller/wf_default_poller.h): the construction of an \<open>EventLoop\<close> with the channels of its timer queue and
  of its event descriptor, and one pass of \<open>loop\<close> over the channels \<open>poll\<close> reports. What a callback does is
  a parameter: it changes the state of the program and asks for interests of any of the channels. The
  functors that end a pass are in the theory of the event loop.
\<close>

section \<open>Construction\<close>

text \<open>The results of \<open>eventfd\<close> and \<open>timerfd_create\<close>; a \<open>LOG_FATAL\<close> aborts.\<close>

definition createEventFd :: "int \<Rightarrow> int res" where
  "createEventFd evtfd = (if evtfd < 0 then Inl Aborted else Inr evtfd)"

definition create_timefd :: "int \<Rightarrow> int res" where
  "create_timefd timefd = (if timefd < 0 then Inl Aborted else Inr timefd)"

text \<open>\<open>TimerQueue\<close>: the channel object is \<open>0\<close> in the heap.\<close>

definition construct_timer_queue :: "nat \<Rightarrow> int \<Rightarrow> 'cb \<Rightarrow> 'cb PollPoller \<Rightarrow> 'cb PollPoller res" where
  "construct_timer_queue this timefd timerQueueCallBack P =
     rbind (create_timefd timefd) (\<lambda>timerfd.
       channel_set True 0 EnableReading
         (store 0 ((Channel_new this timerfd)\<lparr>ch_readCallback := Some timerQueueCallBack\<rparr>) P))"

text \<open>\<open>EventLoop\<close>: the members in the order of the class, then the body; the wakeup channel is \<open>1\<close>. A thread
  has at most one loop.\<close>

definition construct_reactor ::
  "nat \<Rightarrow> nat option \<Rightarrow> int \<Rightarrow> int \<Rightarrow> 'cb \<Rightarrow> 'cb \<Rightarrow> ('cb PollPoller \<times> nat option) res" where
  "construct_reactor this t_loopInThisThread timefd evtfd timerQueueCallBack handleRead =
     rbind (construct_timer_queue this timefd timerQueueCallBack PollPoller_new) (\<lambda>P.
     rbind (createEventFd evtfd) (\<lambda>eventFd.
     let P = store 1 (Channel_new this eventFd) P in
     if t_loopInThisThread \<noteq> None then Inl Aborted
     else
       rbind (channel_set True 1 EnableReading
                (store 1 ((Channel_new this eventFd)\<lparr>ch_readCallback := Some handleRead\<rparr>) P)) (\<lambda>P.
       Inr (P, Some this))))"

section \<open>A pass over the channels\<close>

record ('cb, 'u) Reactor =
  re_poller :: "'cb PollPoller"
  re_user :: 'u

fun ask_each :: "(nat \<times> interest_op) list \<Rightarrow> 'cb PollPoller \<Rightarrow> 'cb PollPoller res" where
  "ask_each [] P = Inr P"
| "ask_each ((c, i) # asks) P = rbind (channel_set True c i P) (ask_each asks)"

type_synonym ('cb, 'u) callback_body = "'cb \<Rightarrow> event_kind \<Rightarrow> 'u \<Rightarrow> 'u \<times> (nat \<times> interest_op) list"

definition run_body :: "('cb, 'u) callback_body \<Rightarrow> 'cb \<Rightarrow> event_kind \<Rightarrow> ('cb, 'u) Reactor \<Rightarrow> ('cb, 'u) Reactor res" where
  "run_body body cb k s =
     (let (u, asks) = body cb k (re_user s)
      in rbind (ask_each asks (re_poller s)) (\<lambda>P. Inr \<lparr>re_poller = P, re_user = u\<rparr>))"

definition re_channel :: "nat \<Rightarrow> ('cb, 'u) Reactor \<Rightarrow> 'cb Channel option" where
  "re_channel c s = pp_heap (re_poller s) c"

fun handle_channels ::
  "('cb \<Rightarrow> event_kind \<Rightarrow> ('cb, 'u) Reactor \<Rightarrow> ('cb, 'u) Reactor res) \<Rightarrow> Timestamp \<Rightarrow> nat list \<Rightarrow> ('cb, 'u) Reactor
    \<Rightarrow> ('cb, 'u) Reactor res" where
  "handle_channels run t [] s = Inr s"
| "handle_channels run t (c # cs) s = rbind (handleEvent (re_channel c) run t s) (handle_channels run t cs)"

text \<open>The body of the \<open>while\<close> up to \<open>doPendingFunctors\<close>: \<open>poll\<close> returned \<open>numEvents\<close> at time \<open>t\<close> and left \<open>revs\<close>.\<close>

definition loop_pass ::
  "('cb, 'u) callback_body \<Rightarrow> int \<Rightarrow> 16 word list \<Rightarrow> Timestamp \<Rightarrow> ('cb, 'u) Reactor \<Rightarrow> ('cb, 'u) Reactor res" where
  "loop_pass body numEvents revs t s =
     rbind (poller_poll numEvents revs [] (re_poller s)) (\<lambda>(activeChannels, P).
       handle_channels (run_body body) t activeChannels (s\<lparr>re_poller := P\<rparr>))"

section \<open>Facts\<close>

text \<open>What a request of an interest keeps of every channel.\<close>

lemma channel_set_keeps:
  assumes "channel_set True c i P = Inr P'" "pp_heap P d = Some ch"
  shows "\<exists>ch'. pp_heap P' d = Some ch' \<and> ch_revents ch' = ch_revents ch \<and> (\<forall>k. callback_of k ch' = callback_of k ch)
    \<and> has_bits (ch_events ch') POLLIN = (has_bits (ch_events ch) POLLIN \<or> c = d \<and> i = EnableReading)"
proof -
  obtain ch0 where c: "pp_heap P c = Some ch0"
    using assms(1) by (auto simp: channel_set_def deref_def split: option.splits)
  obtain x where x: "x = set_interest i ch0" by blast
  have eq: "ch_revents x = ch_revents ch0" "\<And>k. callback_of k x = callback_of k ch0"
    "has_bits (ch_events x) POLLIN = (has_bits (ch_events ch0) POLLIN \<or> i = EnableReading)"
    unfolding x by (simp_all, cases i)
      (simp_all add: enableReading_def enableWriting_def disableWriting_def kNoneEvent_def has_bits_remove_disjoint)
  have "callback_of k (set_index n x) = callback_of k x" "ch_revents (set_index n x) = ch_revents x"
    "ch_events (set_index n x) = ch_events x" for k n
    by (cases k, simp_all add: set_index_def)
  moreover have "pp_heap P' = (pp_heap P)(c \<mapsto> x) \<or> (\<exists>n. pp_heap P' = (pp_heap P)(c \<mapsto> set_index n x))"
    using assms(1) c unfolding x
    by (auto simp: channel_set_def loop_updateChannel_def poller_updateChannel_def deref_def rassert_Inr_iff Let_def split: if_splits)
  ultimately show ?thesis using assms(2) c eq by (cases "c = d") auto
qed

lemma ask_each_keeps:
  "ask_each asks P = Inr P' \<Longrightarrow> pp_heap P d = Some ch \<Longrightarrow> has_bits (ch_events ch) POLLIN \<or> (d, EnableReading) \<notin> set asks \<Longrightarrow>
   \<exists>ch'. pp_heap P' d = Some ch' \<and> ch_revents ch' = ch_revents ch \<and> (\<forall>k. callback_of k ch' = callback_of k ch)
    \<and> has_bits (ch_events ch') POLLIN = has_bits (ch_events ch) POLLIN"
proof (induction asks P arbitrary: ch rule: ask_each.induct)
  case (2 c i asks P)
  then obtain P1 where P1: "channel_set True c i P = Inr P1" "ask_each asks P1 = Inr P'" by (auto simp: rbind_Inr_iff)
  obtain ch1 where ch1: "pp_heap P1 d = Some ch1" "ch_revents ch1 = ch_revents ch" "\<forall>k. callback_of k ch1 = callback_of k ch"
    "has_bits (ch_events ch1) POLLIN = has_bits (ch_events ch) POLLIN"
    using channel_set_keeps [OF P1(1) "2.prems"(2)] "2.prems"(3) by auto
  from "2.IH" [OF P1(2) ch1(1)] "2.prems"(3) ch1 show ?case by auto
qed auto

text \<open>A new channel on a free descriptor is enabled.\<close>

lemma enable_new:
  assumes "owned os P" "pp_heap P c = None" "pp_watched P fd = None" "0 \<le> fd"
  shows "\<exists>P'. channel_set True c EnableReading (store c ((Channel_new this fd)\<lparr>ch_readCallback := Some cb\<rparr>) P) = Inr P'
    \<and> owned (os @ [c]) P' \<and> pp_watched P' = (pp_watched P)(fd \<mapsto> short kReadEvent)
    \<and> pp_heap P' = (pp_heap P)(c \<mapsto> (Channel_new this fd)\<lparr>ch_readCallback := Some cb, ch_events := kReadEvent,
      ch_index := int (length os)\<rparr>)"
proof -
  let ?ch = "(Channel_new this fd)\<lparr>ch_readCallback := Some cb\<rparr>"
  let ?new = "?ch\<lparr>ch_events := kReadEvent\<rparr>"
  have n: "c \<notin> set os" using owned_in(6) [OF assms(1), of c] assms(2) by blast
  have o: "owned os (store c ?new P)" using assms(1) n by (rule owned_store)
  have free: "pp_channels P fd = None" using assms(3) owned_watched_iff [OF assms(1)] by simp
  have "channel_set True c EnableReading (store c ?ch P) = poller_updateChannel True c (store c ?new P)"
    using channel_set_eq [of "store c ?ch P" c ?ch EnableReading] by (simp add: Channel_new_def store_def)
  then show ?thesis
    using update_new [OF o, of c ?new] free assms(4) by (auto simp: Channel_new_def set_index_def)
qed

text \<open>Whether a channel asks for \<open>POLLIN\<close> is settled: it does already, or no callback will ask for it.\<close>

definition settled :: "('cb, 'u) callback_body \<Rightarrow> nat \<Rightarrow> 'cb Channel \<Rightarrow> bool" where
  "settled body c ch \<longleftrightarrow>
     has_bits (ch_events ch) POLLIN \<or> (\<forall>cb k u. (c, EnableReading) \<notin> set (snd (body cb k u)))"

lemma run_body_keeps:
  assumes "settled body c ch" "looks_like (re_channel c) ch s" "run_body body cb k s = Inr s'"
  shows "looks_like (re_channel c) ch s'"
proof -
  obtain ch1 where ch1: "pp_heap (re_poller s) c = Some ch1" "ch_revents ch1 = ch_revents ch" "\<forall>k. callback_of k ch1 = callback_of k ch"
    "has_bits (ch_events ch1) POLLIN = has_bits (ch_events ch) POLLIN"
    using assms(2) by (auto simp: looks_like_def re_channel_def)
  obtain u asks where b: "body cb k (re_user s) = (u, asks)" by (cases "body cb k (re_user s)")
  then have "has_bits (ch_events ch1) POLLIN \<or> (c, EnableReading) \<notin> set asks"
    using assms(1) ch1(4) by (metis settled_def snd_conv)
  moreover obtain P' where "ask_each asks (re_poller s) = Inr P'" "s' = \<lparr>re_poller = P', re_user = u\<rparr>"
    using assms(3) b by (auto simp: run_body_def rbind_Inr_iff)
  ultimately show ?thesis using ask_each_keeps [OF _ ch1(1), of asks P'] ch1
    by (auto simp: looks_like_def re_channel_def)
qed

lemma handle_channels_calls:
  assumes "\<And>c. c \<in> set cs \<Longrightarrow> settled body c (f c) \<and> looks_like (re_channel c) (f c) s"
  shows "handle_channels (run_body body) t cs s = run_calls (run_body body) (concat (List.map (\<lambda>c. due_calls t (f c)) cs)) s"
  using assms
proof (induction cs arbitrary: s)
  case (Cons c cs)
  have c: "settled body c (f c)" "looks_like (re_channel c) (f c) s" using Cons.prems by simp_all
  have "handleEvent (re_channel c) (run_body body) t s = run_calls (run_body body) (due_calls t (f c)) s"
    by (rule handleEvent_order [OF c(2)]) (rule run_body_keeps [OF c(1)])
  moreover have "handle_channels (run_body body) t cs s' = run_calls (run_body body) (concat (List.map (\<lambda>c. due_calls t (f c)) cs)) s'"
    if "run_calls (run_body body) (due_calls t (f c)) s = Inr s'" for s'
  proof (rule Cons.IH)
    fix d assume d: "d \<in> set cs"
    then have k: "settled body d (f d)" "looks_like (re_channel d) (f d) s" using Cons.prems by simp_all
    have "looks_like (re_channel d) (f d) s'"
      by (rule run_calls_keep [where P = "looks_like (re_channel d) (f d)", OF _ k(2) that]) (rule run_body_keeps [OF k(1)])
    with k show "settled body d (f d) \<and> looks_like (re_channel d) (f d) s'" by simp
  qed
  ultimately show ?case by (simp add: run_calls_append cong: rbind_cong_inv)
qed simp

lemma store_store [simp]: "store c x (store c y P) = store c x P"
  by (simp add: store_def)

lemma empty_poller: "owned [] PollPoller_new" "pp_heap PollPoller_new = Map.empty" "pp_watched PollPoller_new = Map.empty"
  by (simp_all add: owned_def PollPoller_new_def pp_watched_def fun_eq_iff)

lemma new_loop:
  assumes "0 \<le> timefd" "0 \<le> evtfd" "timefd \<noteq> evtfd"
  shows "\<exists>P. construct_reactor this None timefd evtfd tcb rcb = Inr (P, Some this) \<and> owned [0, 1] P
    \<and> pp_watched P = [timefd \<mapsto> short kReadEvent, evtfd \<mapsto> short kReadEvent]
    \<and> pp_heap P = [0 \<mapsto> (Channel_new this timefd)\<lparr>ch_readCallback := Some tcb, ch_events := kReadEvent, ch_index := 0\<rparr>,
        1 \<mapsto> (Channel_new this evtfd)\<lparr>ch_readCallback := Some rcb, ch_events := kReadEvent, ch_index := 1\<rparr>]"
proof -
  obtain P where P: "construct_timer_queue this timefd tcb PollPoller_new = Inr P" "owned [0] P"
    "pp_watched P = [timefd \<mapsto> short kReadEvent]"
    "pp_heap P = [0 \<mapsto> (Channel_new this timefd)\<lparr>ch_readCallback := Some tcb, ch_events := kReadEvent, ch_index := 0\<rparr>]"
    using enable_new [OF empty_poller(1) _ _ assms(1), where c = 0 and this = this and cb = tcb] assms(1)
    by (auto simp: construct_timer_queue_def create_timefd_def empty_poller)
  have "pp_heap P 1 = None" "pp_watched P evtfd = None" using P(3,4) assms(3) by simp_all
  from enable_new [OF P(2) this assms(2), where this = this and cb = rcb] obtain Q where
    "channel_set True 1 EnableReading (store 1 ((Channel_new this evtfd)\<lparr>ch_readCallback := Some rcb\<rparr>) P) = Inr Q"
    "owned [0, 1] Q" "pp_watched Q = (pp_watched P)(evtfd \<mapsto> short kReadEvent)"
    "pp_heap Q = (pp_heap P)(1 \<mapsto> (Channel_new this evtfd)\<lparr>ch_readCallback := Some rcb, ch_events := kReadEvent, ch_index := 1\<rparr>)"
    by auto
  with P assms(2) show ?thesis
    by (intro exI [of _ Q]) (simp add: construct_reactor_def createEventFd_def Let_def)
qed

lemma new_loop_refused:
  assumes "0 \<le> timefd" "0 \<le> evtfd \<Longrightarrow> t_loop \<noteq> None"
  shows "construct_reactor this t_loop timefd evtfd tcb rcb = Inl Aborted"
proof -
  from enable_new [OF empty_poller(1) _ _ assms(1), where c = 0 and this = this and cb = tcb] assms show ?thesis
    by (auto simp: empty_poller construct_reactor_def construct_timer_queue_def create_timefd_def createEventFd_def Let_def)
qed

section \<open>Properties\<close>

text \<open>The calls that are due for a channel on which \<open>poll\<close> left \<open>r\<close>.\<close>

definition due_of :: "Timestamp \<Rightarrow> 'cb PollPoller \<Rightarrow> nat \<times> 16 word \<Rightarrow> ('cb \<times> event_kind) list" where
  "due_of t P = (\<lambda>(c, r). if 0 < sint r then due_calls t (set_revents (scast r) (the (pp_heap P c))) else [])"

text \<open>C15: A pass of the loop runs exactly the callbacks that are due. When \<open>poll\<close> leaves \<open>revs\<close> in the array
  of a consistent poller and counts the positive ones, the pass is the run, one after the other, of the
  callbacks due on the reported channels, in the order of the array and on each channel in the order
  close, error, read, write, whatever the callbacks do to the program's state and to the interests of
  the channels, their own and others, up to the first that faults. (No callback enables reading on a
  channel that did not read.)\<close>

theorem loop_pass_runs_due:
  assumes "owned os (re_poller s)" and "length revs = length os" and "n = int (length (reported (zip os revs)))"
    and "\<forall>c \<in> set os. settled body c (the (pp_heap (re_poller s) c))"
  shows "\<exists>P'. owned os P' \<and> loop_pass body n revs t s
    = run_calls (run_body body) (concat (List.map (due_of t (re_poller s)) (zip os revs))) (s\<lparr>re_poller := P'\<rparr>)"
proof -
  let ?P = "re_poller s"
  obtain P' where P': "poller_poll n revs [] ?P = Inr (reported (zip os revs), P')" "owned os P'"
    and heap: "\<And>i. i < length os \<Longrightarrow> pp_heap P' (os ! i) = Some (if 0 < sint (revs ! i)
          then set_revents (scast (revs ! i)) (the (pp_heap ?P (os ! i))) else the (pp_heap ?P (os ! i)))"
    using poller_poll_reports [OF assms(1-3)] by blast
  let ?f = "\<lambda>c. the (pp_heap P' c)" let ?s = "s\<lparr>re_poller := P'\<rparr>"
  have "settled body c (?f c) \<and> looks_like (re_channel c) (?f c) ?s" if "c \<in> set (reported (zip os revs))" for c
  proof -
    have "c \<in> set os" using that by (auto simp: reported_def dest: set_zip_leftD)
    then obtain i where i: "i < length os" "c = os ! i" by (auto simp: in_set_conv_nth)
    then show ?thesis using heap [OF i(1)] assms(4)
      by (auto simp: settled_def looks_like_def re_channel_def set_revents_def)
  qed
  from handle_channels_calls [OF this]
  have "loop_pass body n revs t s
      = run_calls (run_body body) (concat (List.map (\<lambda>c. due_calls t (?f c)) (reported (zip os revs)))) ?s"
    by (simp add: loop_pass_def P'(1))
  moreover have "concat (List.map (\<lambda>c. due_calls t (?f c)) (reported crs)) = concat (List.map (due_of t ?P) crs)"
    if "set crs \<subseteq> set (zip os revs)" for crs
    using that
  proof (induction crs)
    case (Cons cr crs)
    obtain c r where cr: "cr = (c, r)" by (cases cr)
    with Cons.prems assms(2) obtain i where "i < length os" "c = os ! i" "r = revs ! i"
      by (auto simp: in_set_zip)
    with heap [of i] Cons cr show ?case by (auto simp: reported_def due_of_def)
  qed (simp add: reported_def)
  ultimately show ?thesis using P'(2) by auto
qed


text \<open>A new loop watches its two descriptors. The constructor registers the timer descriptor and the
  event descriptor, both for reading, with their callbacks, in a consistent poller that watches nothing
  else; in a thread that already has a loop it aborts, and so it does when the system refuses either
  descriptor.\<close>

theorem new_loop_watches:
  assumes "0 \<le> timefd \<Longrightarrow> 0 \<le> evtfd \<Longrightarrow> timefd \<noteq> evtfd"
  shows "case construct_reactor this t_loop timefd evtfd tcb rcb of
      Inl e \<Rightarrow> e = Aborted \<and> (timefd < 0 \<or> evtfd < 0 \<or> t_loop \<noteq> None)
    | Inr (P, t_loop') \<Rightarrow> 0 \<le> timefd \<and> 0 \<le> evtfd \<and> t_loop = None \<and> t_loop' = Some this \<and> owned [0, 1] P
       \<and> pp_watched P = [timefd \<mapsto> short kReadEvent, evtfd \<mapsto> short kReadEvent]
       \<and> map_option ch_readCallback (pp_heap P 0) = Some (Some tcb) \<and> map_option ch_readCallback (pp_heap P 1) = Some (Some rcb)"
proof (cases "0 \<le> timefd")
  case True
  show ?thesis
  proof (cases "0 \<le> evtfd \<and> t_loop = None")
    case ok: True
    from new_loop [OF True _ assms [OF True], where this = this and tcb = tcb and rcb = rcb] ok show ?thesis
      using True by auto
  qed (use new_loop_refused [OF True, of evtfd t_loop this tcb rcb] in auto)
qed (simp add: construct_reactor_def construct_timer_queue_def create_timefd_def)

theorem new_loop_watches_witness:
  "\<exists>P. construct_reactor 0 None 3 4 ''timer'' ''wakeup'' = Inr (P, Some 0) \<and> pp_watched P 4 = Some 3 \<and> pp_watched P 5 = None"
  using new_loop_watches [where timefd = 3 and evtfd = 4 and this = 0 and t_loop = None and tcb = "''timer''" and rcb = "''wakeup''"]
  by (auto simp: short_def event_masks split: sum.splits prod.splits)

text \<open>The two channels of a loop, in a program that logs its calls; the wakeup callback also asks for
  writability of the timer channel.\<close>

definition example_body :: "(char list, char list list) callback_body" where
  "example_body cb k u = (u @ [cb], if cb = ''wakeup'' then [(0, EnableWriting)] else [])"

theorem loop_pass_runs_due_witness:
  "\<exists>P s'. construct_reactor 0 None 3 4 ''timer'' ''wakeup'' = Inr (P, Some 0)
     \<and> loop_pass example_body 2 [1, 1] (Timestamp 9) \<lparr>re_poller = P, re_user = []\<rparr> = Inr s'
     \<and> re_user s' = [''timer'', ''wakeup'']"
proof -
  obtain P where P: "construct_reactor 0 None 3 4 ''timer'' ''wakeup'' = Inr (P, Some 0)" "owned [0, 1] P"
    "pp_heap P = [0 \<mapsto> (Channel_new 0 3)\<lparr>ch_readCallback := Some ''timer'', ch_events := kReadEvent, ch_index := 0\<rparr>,
        1 \<mapsto> (Channel_new 0 4)\<lparr>ch_readCallback := Some ''wakeup'', ch_events := kReadEvent, ch_index := 1\<rparr>]"
    using new_loop [of 3 4 0 "''timer''" "''wakeup''"] by auto
  let ?s = "\<lparr>re_poller = P, re_user = []\<rparr>"
  have r: "2 = int (length (reported (zip [0, 1] [1, 1])))" by (simp add: reported_def)
  have "\<forall>c \<in> set [0, 1]. settled example_body c (the (pp_heap (re_poller ?s) c))" by (simp add: settled_def P(3))
  with loop_pass_runs_due [of "[0, 1]" ?s "[1, 1]" 2 example_body "Timestamp 9"] P(2) r obtain Q where Q: "owned [0, 1] Q"
    "loop_pass example_body 2 [1, 1] (Timestamp 9) ?s = run_calls (run_body example_body)
      (concat (List.map (due_of (Timestamp 9) P) (zip [0, 1] [1, 1]))) \<lparr>re_poller = Q, re_user = []\<rparr>"
    by auto
  have "concat (List.map (due_of (Timestamp 9) P) (zip [0, 1] [1, 1])) = [(''timer'', ReadEvent (Timestamp 9)), (''wakeup'', ReadEvent (Timestamp 9))]"
    by (simp add: due_of_def P(3) due_calls_def due_call_def set_revents_def Channel_new_def has_bits_def event_masks)
  moreover have "has_bits (change_mask EnableWriting (mask_at Q 0)) kWriteEvent" by (simp add: has_bits_def event_masks)
  then have "change_mask EnableWriting (mask_at Q 0) \<noteq> 0" by (metis has_bits_0(1))
  then obtain Q' where "channel_set True 0 EnableWriting Q = Inr Q'"
    using channel_set_ok [of Q 0 "fd_at Q 0" EnableWriting] Q(1) pp_fd_of_owned [OF Q(1), of 0]
    by (auto simp: pp_inv_def simp del: change_mask.simps)
  ultimately show ?thesis using P(1) Q(2) by (simp add: run_body_def example_body_def Let_def)
qed

end
