(* ===== verification/Anys.thy ===== *)
theory Anys
  imports Prelude
begin

text \<open>
  \<open>Any\<close> (winterfell/util/wf_any.h), the context a connection carries. An \<open>Any\<close> is a pointer to a heap
  object or null; the heap keeps which objects are deleted, so that a second \<open>delete\<close> and a call
  through a dangling pointer are faults. \<open>get_data\<close> casts without a check: the model's objects are of
  one type, as long as the program asks for the type it stored.
\<close>

section \<open>Members\<close>

type_synonym 'a any_heap = "'a option list"
type_synonym any_ptr = "nat option"

definition any_deref :: "any_ptr \<Rightarrow> 'a any_heap \<Rightarrow> 'a res" where
  "any_deref p h =
     (case p of
        None \<Rightarrow> Inl NullDeref
      | Some a \<Rightarrow> (if a < length h then case h ! a of Some d \<Rightarrow> Inr d | None \<Rightarrow> Inl UseAfterFree else Inl UseAfterFree))"

definition any_default :: any_ptr where
  "any_default = None"

definition any_of_value :: "'a \<Rightarrow> 'a any_heap \<Rightarrow> any_ptr \<times> 'a any_heap" where
  "any_of_value t h = (Some (length h), h @ [Some t])"

definition any_clone :: "any_ptr \<Rightarrow> 'a any_heap \<Rightarrow> (any_ptr \<times> 'a any_heap) res" where
  "any_clone p h = rbind (any_deref p h) (\<lambda>d. Inr (any_of_value d h))"

definition any_delete :: "any_ptr \<Rightarrow> 'a any_heap \<Rightarrow> 'a any_heap res" where
  "any_delete p h =
     (case p of
        None \<Rightarrow> Inr h
      | Some a \<Rightarrow> rbind (any_deref p h) (\<lambda>d. Inr (h[a := None])))"

definition any_copy :: "any_ptr \<Rightarrow> 'a any_heap \<Rightarrow> (any_ptr \<times> 'a any_heap) res" where
  "any_copy rhs h = any_clone rhs h"

definition any_get :: "any_ptr \<Rightarrow> 'a any_heap \<Rightarrow> 'a res" where
  "any_get p h = any_deref p h"

section \<open>Statements\<close>

text \<open>
  Variables of type \<open>Any\<close>, null at first. The assignments: from another variable, from a moved
  variable, from a temporary made of a value or of nothing (which moves), and from a temporary copy;
  \<open>Destroy\<close> is the destructor.
\<close>

record 'a any_state =
  an_heap :: "'a any_heap"
  an_vars :: "nat \<Rightarrow> any_ptr"

datatype 'a any_stmt =
    AssignCopy nat nat | AssignMove nat nat | AssignValue nat 'a | AssignEmpty nat | AssignCopied nat nat | Destroy nat

definition any_assign :: "nat \<Rightarrow> nat \<Rightarrow> 'a any_state \<Rightarrow> 'a any_state res" where
  "any_assign v u s =
     rbind (any_delete (an_vars s v) (an_heap s)) (\<lambda>h.
     rbind (any_clone (an_vars s u) h) (\<lambda>(p, h). Inr (s\<lparr>an_heap := h, an_vars := (an_vars s)(v := p)\<rparr>)))"

text \<open>A temporary is the source of a move: it ends as null, and its destructor does nothing.\<close>

definition any_move_from :: "nat \<Rightarrow> any_ptr \<Rightarrow> 'a any_state \<Rightarrow> 'a any_state res" where
  "any_move_from v p s =
     rbind (any_delete (an_vars s v) (an_heap s)) (\<lambda>h. Inr (s\<lparr>an_heap := h, an_vars := (an_vars s)(v := p)\<rparr>))"

definition any_move_assign :: "nat \<Rightarrow> nat \<Rightarrow> 'a any_state \<Rightarrow> 'a any_state res" where
  "any_move_assign v u s =
     rbind (any_delete (an_vars s v) (an_heap s)) (\<lambda>h.
     Inr (s\<lparr>an_heap := h, an_vars := (an_vars s)(v := an_vars s u, u := None)\<rparr>))"

definition any_destroy :: "nat \<Rightarrow> 'a any_state \<Rightarrow> 'a any_state res" where
  "any_destroy v s =
     rbind (any_delete (an_vars s v) (an_heap s)) (\<lambda>h. Inr (s\<lparr>an_heap := h, an_vars := (an_vars s)(v := None)\<rparr>))"

fun any_exec :: "'a any_stmt \<Rightarrow> 'a any_state \<Rightarrow> 'a any_state res" where
  "any_exec (AssignCopy v u) s = any_assign v u s"
| "any_exec (AssignMove v u) s = any_move_assign v u s"
| "any_exec (AssignValue v t) s =
     (let (p, h) = any_of_value t (an_heap s) in any_move_from v p (s\<lparr>an_heap := h\<rparr>))"
| "any_exec (AssignEmpty v) s = any_move_from v any_default s"
| "any_exec (AssignCopied v u) s =
     rbind (any_copy (an_vars s u) (an_heap s)) (\<lambda>(p, h). any_move_from v p (s\<lparr>an_heap := h\<rparr>))"
| "any_exec (Destroy v) s = any_destroy v s"

section \<open>What it promises\<close>

text \<open>Each variable holds a value of its own, or nothing.\<close>

fun any_spec :: "'a any_stmt \<Rightarrow> (nat \<Rightarrow> 'a option) \<Rightarrow> (nat \<Rightarrow> 'a option) res" where
  "any_spec (AssignCopy v u) A =
     (if A u = None then Inl NullDeref else if v = u then Inl UseAfterFree else Inr (A(v := A u)))"
| "any_spec (AssignMove v u) A = Inr (A(v := A u, u := None))"
| "any_spec (AssignValue v t) A = Inr (A(v := Some t))"
| "any_spec (AssignEmpty v) A = Inr (A(v := None))"
| "any_spec (AssignCopied v u) A = (if A u = None then Inl NullDeref else Inr (A(v := A u)))"
| "any_spec (Destroy v) A = Inr (A(v := None))"

definition any_abs :: "'a any_state \<Rightarrow> nat \<Rightarrow> 'a option" where
  "any_abs s v = (case an_vars s v of None \<Rightarrow> None | Some a \<Rightarrow> an_heap s ! a)"

text \<open>Every object that is not deleted has exactly one owner, and every pointer is good.\<close>

definition any_inv :: "'a any_state \<Rightarrow> bool" where
  "any_inv s \<longleftrightarrow>
     (\<forall>v a. an_vars s v = Some a \<longrightarrow> a < length (an_heap s) \<and> an_heap s ! a \<noteq> None)
     \<and> (\<forall>v u a. an_vars s v = Some a \<longrightarrow> an_vars s u = Some a \<longrightarrow> v = u)
     \<and> (\<forall>a < length (an_heap s). an_heap s ! a \<noteq> None \<longrightarrow> (\<exists>v. an_vars s v = Some a))"

definition any_init :: "'a any_state" where
  "any_init = \<lparr>an_heap = [], an_vars = \<lambda>v. None\<rparr>"

section \<open>Facts\<close>

lemma any_inv_init: "any_inv any_init"
  by (simp add: any_inv_def any_init_def)

text \<open>A heap in which only \<open>p\<close> is not yet owned.\<close>

definition any_pending :: "any_ptr \<Rightarrow> 'a any_state \<Rightarrow> bool" where
  "any_pending p s \<longleftrightarrow>
     (\<forall>v a. an_vars s v = Some a \<longrightarrow> a < length (an_heap s) \<and> an_heap s ! a \<noteq> None \<and> p \<noteq> Some a)
     \<and> (\<forall>v u a. an_vars s v = Some a \<longrightarrow> an_vars s u = Some a \<longrightarrow> v = u)
     \<and> (\<forall>a. p = Some a \<longrightarrow> a < length (an_heap s) \<and> an_heap s ! a \<noteq> None)
     \<and> (\<forall>a < length (an_heap s). an_heap s ! a \<noteq> None \<longrightarrow> p = Some a \<or> (\<exists>v. an_vars s v = Some a))"

lemma any_pending_None: "any_pending None s = any_inv s"
  by (auto simp: any_pending_def any_inv_def)

lemma any_pendingD:
  assumes "any_pending p s"
  shows "an_vars s v = Some a \<Longrightarrow> a < length (an_heap s)" "an_vars s v = Some a \<Longrightarrow> \<exists>d. an_heap s ! a = Some d"
    "an_vars s v = Some a \<Longrightarrow> p \<noteq> Some a" "an_vars s v = Some a \<Longrightarrow> an_vars s u = Some a \<Longrightarrow> v = u"
    "p = Some a \<Longrightarrow> a < length (an_heap s)" "p = Some a \<Longrightarrow> \<exists>d. an_heap s ! a = Some d"
    "a < length (an_heap s) \<Longrightarrow> an_heap s ! a = Some d \<Longrightarrow> p \<noteq> Some a \<Longrightarrow> \<exists>v. an_vars s v = Some a"
  using assms unfolding any_pending_def by blast+

lemma any_pendingI:
  assumes "\<And>v a. an_vars s v = Some a \<Longrightarrow> a < length (an_heap s) \<and> (\<exists>d. an_heap s ! a = Some d) \<and> p \<noteq> Some a"
    and "\<And>v u a. an_vars s v = Some a \<Longrightarrow> an_vars s u = Some a \<Longrightarrow> v = u"
    and "\<And>a. p = Some a \<Longrightarrow> a < length (an_heap s) \<and> (\<exists>d. an_heap s ! a = Some d)"
    and "\<And>a d. a < length (an_heap s) \<Longrightarrow> an_heap s ! a = Some d \<Longrightarrow> p = Some a \<or> (\<exists>v. an_vars s v = Some a)"
  shows "any_pending p s"
  using assms unfolding any_pending_def by blast

lemma any_abs_None:
  assumes "any_inv s" shows "any_abs s u = None \<longleftrightarrow> an_vars s u = None"
proof (cases "an_vars s u")
  case (Some a)
  then show ?thesis using any_pendingD(2) [OF assms [folded any_pending_None] Some] by (auto simp: any_abs_def)
qed (simp add: any_abs_def)

lemma any_invI:
  assumes "\<And>v a. an_vars s v = Some a \<Longrightarrow> a < length (an_heap s) \<and> (\<exists>d. an_heap s ! a = Some d)"
    and "\<And>v u a. an_vars s v = Some a \<Longrightarrow> an_vars s u = Some a \<Longrightarrow> v = u"
    and "\<And>a d. a < length (an_heap s) \<Longrightarrow> an_heap s ! a = Some d \<Longrightarrow> \<exists>v. an_vars s v = Some a"
  shows "any_inv s"
  using assms unfolding any_inv_def by blast

lemma any_delete_var:
  assumes "any_pending p s"
  shows "any_delete (an_vars s v) (an_heap s) =
    Inr (case an_vars s v of None \<Rightarrow> an_heap s | Some a \<Rightarrow> (an_heap s)[a := None])"
proof (cases "an_vars s v")
  case (Some a)
  then obtain d where "a < length (an_heap s)" "an_heap s ! a = Some d" using any_pendingD(1,2) [OF assms Some] by blast
  then show ?thesis using Some by (simp add: any_delete_def any_deref_def)
qed (simp add: any_delete_def)

text \<open>The target loses its object and takes the pending one.\<close>

lemma any_move_from_ok:
  assumes i: "any_pending p s"
  shows "\<exists>s'. any_move_from v p s = Inr s' \<and> any_inv s'
    \<and> any_abs s' = (any_abs s)(v := case p of None \<Rightarrow> None | Some a \<Rightarrow> an_heap s ! a)"
proof -
  define h where "h = (case an_vars s v of None \<Rightarrow> an_heap s | Some a \<Rightarrow> (an_heap s)[a := None])"
  let ?s = "s\<lparr>an_heap := h, an_vars := (an_vars s)(v := p)\<rparr>"
  have len: "length h = length (an_heap s)" by (simp add: h_def split: option.split)
  have nth: "h ! a = (if an_vars s v = Some a then None else an_heap s ! a)" if "a < length (an_heap s)" for a
    using that by (auto simp: h_def nth_list_update split: option.split)
  have "any_move_from v p s = Inr ?s" using any_delete_var [OF i, of v] by (simp add: any_move_from_def h_def)
  moreover have "any_inv ?s"
  proof (rule any_invI)
    show "a < length (an_heap ?s) \<and> (\<exists>d. an_heap ?s ! a = Some d)" if "an_vars ?s u = Some a" for u a
    proof (cases "u = v")
      case True
      then have p: "p = Some a" using that by simp
      then show ?thesis using any_pendingD(5,6) [OF i p] any_pendingD(3) [OF i, of v a] len nth [of a] by auto
    next
      case False
      then have u: "an_vars s u = Some a" using that by simp
      then have "an_vars s v \<noteq> Some a" using any_pendingD(4) [OF i u, of v] False by blast
      then show ?thesis using any_pendingD(1,2) [OF i u] len nth [of a] by simp
    qed
    show "x = y" if "an_vars ?s x = Some a" "an_vars ?s y = Some a" for x y a
      using that any_pendingD(3,4) [OF i] by (auto split: if_splits)
    show "\<exists>u. an_vars ?s u = Some a" if a: "a < length (an_heap ?s)" "an_heap ?s ! a = Some d" for a d
    proof (cases "p = Some a")
      case False
      have h: "an_heap s ! a = Some d" "an_vars s v \<noteq> Some a" using a nth [of a] len by (auto split: if_splits)
      then obtain u where "an_vars s u = Some a" using any_pendingD(7) [OF i _ h(1) False] a(1) len by auto
      then show ?thesis using h(2) by (intro exI [of _ u]) auto
    qed auto
  qed
  moreover have "any_abs ?s u = ((any_abs s)(v := case p of None \<Rightarrow> None | Some a \<Rightarrow> an_heap s ! a)) u" for u
  proof (cases "u = v")
    case True
    then show ?thesis using any_pendingD(3,5) [OF i] nth by (auto simp: any_abs_def split: option.split)
  next
    case False
    then show ?thesis using any_pendingD(1,4) [OF i] nth by (auto simp: any_abs_def split: option.split)
  qed
  ultimately show ?thesis by blast
qed

lemma any_clone_ok:
  assumes i: "any_inv s"
  shows "any_clone (an_vars s u) (an_heap s) =
    (case any_abs s u of None \<Rightarrow> Inl NullDeref | Some d \<Rightarrow> Inr (Some (length (an_heap s)), an_heap s @ [Some d]))"
proof (cases "an_vars s u")
  case (Some a)
  have "any_pending None s" using i by (simp add: any_pending_None)
  then obtain d where "a < length (an_heap s)" "an_heap s ! a = Some d" using any_pendingD(1,2) Some by blast
  then show ?thesis using Some by (simp add: any_clone_def any_deref_def any_of_value_def any_abs_def)
qed (simp add: any_clone_def any_deref_def any_abs_def)

lemma any_pending_new:
  assumes i: "any_inv s" shows "any_pending (Some (length (an_heap s))) (s\<lparr>an_heap := an_heap s @ [Some d]\<rparr>)"
proof -
  note p = any_pendingD [OF i [folded any_pending_None]]
  let ?s = "s\<lparr>an_heap := an_heap s @ [Some d]\<rparr>"
  show ?thesis
  proof (rule any_pendingI)
    show "Some (length (an_heap s)) = Some a \<or> (\<exists>v. an_vars ?s v = Some a)"
      if a: "a < length (an_heap ?s)" "an_heap ?s ! a = Some e" for a e
    proof (cases "a = length (an_heap s)")
      case False
      then have l: "a < length (an_heap s)" using a(1) by simp
      then show ?thesis using a(2) p(7) [OF l, of e] by (simp add: nth_append)
    qed simp
    show "a < length (an_heap ?s) \<and> (\<exists>d. an_heap ?s ! a = Some d) \<and> Some (length (an_heap s)) \<noteq> Some a"
      if "an_vars ?s v = Some a" for v a
      using p(1,2) [of v a] that by (simp add: nth_append)
    show "v = u" if "an_vars ?s v = Some a" "an_vars ?s u = Some a" for v u a
      using p(4) that by simp
  qed simp
qed

lemma any_abs_new:
  assumes "any_inv s" shows "any_abs (s\<lparr>an_heap := an_heap s @ [Some d]\<rparr>) = any_abs s"
proof
  show "any_abs (s\<lparr>an_heap := an_heap s @ [Some d]\<rparr>) u = any_abs s u" for u
    using any_pendingD(1) [OF assms [folded any_pending_None], of u] by (auto simp: any_abs_def nth_append split: option.split)
qed

lemma any_assign_eq:
  assumes i: "any_inv s" and d: "any_abs s u = Some d" and n: "v \<noteq> u"
  shows "any_assign v u s = any_move_from v (Some (length (an_heap s))) (s\<lparr>an_heap := an_heap s @ [Some d]\<rparr>)"
proof -
  have P: "any_pending None s" using i by (simp add: any_pending_None)
  note p = any_pendingD [OF P]
  obtain a where a: "an_vars s u = Some a" "an_heap s ! a = Some d" using d by (auto simp: any_abs_def split: option.splits)
  have al: "a < length (an_heap s)" by (rule p(1) [OF a(1)])
  show ?thesis
  proof (cases "an_vars s v")
    case None
    then show ?thesis using a al
      by (simp add: any_assign_def any_move_from_def any_delete_def any_clone_def any_deref_def any_of_value_def)
  next
    case (Some b)
    have b: "b < length (an_heap s)" by (rule p(1) [OF Some])
    have ba: "b \<noteq> a" using p(4) [OF Some, of u] a(1) n by blast
    obtain e where e: "an_heap s ! b = Some e" using p(2) [OF Some] by blast
    show ?thesis using a al b ba e Some
      by (simp add: any_assign_def any_move_from_def any_delete_def any_clone_def any_deref_def any_of_value_def nth_append
          list_update_append1)
  qed
qed

lemma any_pending_moved:
  assumes i: "any_inv s" shows "any_pending (an_vars s u) (s\<lparr>an_vars := (an_vars s)(u := None)\<rparr>)"
proof -
  note p = any_pendingD [OF i [folded any_pending_None]]
  let ?s = "s\<lparr>an_vars := (an_vars s)(u := None)\<rparr>"
  show ?thesis
  proof (rule any_pendingI)
    show "a < length (an_heap ?s) \<and> (\<exists>d. an_heap ?s ! a = Some d) \<and> an_vars s u \<noteq> Some a" if "an_vars ?s v = Some a" for v a
      using that p(1,2) [of v a] p(4) [of v a u] by (auto split: if_splits)
    show "v = w" if "an_vars ?s v = Some a" "an_vars ?s w = Some a" for v w a
      using that p(4) [of v a w] by (auto split: if_splits)
    show "a < length (an_heap ?s) \<and> (\<exists>d. an_heap ?s ! a = Some d)" if "an_vars s u = Some a" for a
      using that p(1,2) [of u a] by simp
    show "an_vars s u = Some a \<or> (\<exists>v. an_vars ?s v = Some a)" if "a < length (an_heap ?s)" "an_heap ?s ! a = Some d" for a d
    proof -
      have "\<exists>v. an_vars s v = Some a" using p(7) [of a d] that by simp
      then obtain v where v: "an_vars s v = Some a" by blast
      show ?thesis using v by (cases "v = u") (auto intro!: exI [of _ v])
    qed
  qed
qed

section \<open>Properties\<close>

lemma any_assign_refines:
  assumes i: "any_inv s"
  shows "case any_exec (AssignCopy v u) s of
      Inl e \<Rightarrow> any_spec (AssignCopy v u) (any_abs s) = Inl e
    | Inr s' \<Rightarrow> any_inv s' \<and> any_spec (AssignCopy v u) (any_abs s) = Inr (any_abs s')"
proof (cases "any_abs s u")
  case None
  then have "an_vars s u = None" using any_abs_None [OF i] by simp
  then show ?thesis using None any_delete_var [OF any_pending_None [THEN iffD2, OF i], of v] by (simp add: any_assign_def any_clone_def any_deref_def)
next
  case (Some d)
  show ?thesis
  proof (cases "v = u")
    case True
    obtain a where a: "an_vars s u = Some a" using Some any_abs_None [OF i, of u] by auto
    then show ?thesis using True Some any_delete_var [OF any_pending_None [THEN iffD2, OF i], of v] any_pendingD(1) [OF any_pending_None [THEN iffD2, OF i] a]
      by (simp add: any_assign_def any_clone_def any_deref_def)
  next
    case False
    then show ?thesis using Some any_assign_eq [OF i Some False] any_move_from_ok [OF any_pending_new [OF i, of d], of v]
        any_abs_new [OF i, of d] by auto
  qed
qed

lemma any_move_assign_refines:
  assumes i: "any_inv s"
  shows "case any_exec (AssignMove v u) s of
      Inl e \<Rightarrow> any_spec (AssignMove v u) (any_abs s) = Inl e
    | Inr s' \<Rightarrow> any_inv s' \<and> any_spec (AssignMove v u) (any_abs s) = Inr (any_abs s')"
proof (cases "u = v")
  case True
  then show ?thesis using any_move_from_ok [of None s v] i
    by (auto simp: any_pending_None any_move_assign_def any_move_from_def rbind_def split: sum.splits)
next
  case False
  let ?s = "s\<lparr>an_vars := (an_vars s)(u := None)\<rparr>"
  have "any_move_assign v u s = any_move_from v (an_vars s u) ?s"
    using False by (simp add: any_move_assign_def any_move_from_def fun_upd_twist)
  moreover have "(any_abs ?s)(v := x) = (any_abs s)(v := x, u := None)" for x
    using False by (simp add: fun_eq_iff any_abs_def split: option.split)
  ultimately show ?thesis using any_move_from_ok [OF any_pending_moved [OF i, of u], of v]
    by (auto simp: any_abs_def [of s u] cong: option.case_cong)
qed

text \<open>C17: A variable of type \<open>Any\<close> is a value. Whatever statement runs, every object stays owned by
  exactly one variable (nothing leaks, nothing is deleted twice), the variables hold what assignments of
  plain values would give, and the only faults are a copy of an empty \<open>Any\<close>, which dereferences null,
  and the assignment of a variable that holds a value to itself, which clones what it has just
  deleted.\<close>

theorem any_refines_values:
  assumes i: "any_inv s"
  shows "case any_exec st s of
      Inl e \<Rightarrow> any_spec st (any_abs s) = Inl e
    | Inr s' \<Rightarrow> any_inv s' \<and> any_spec st (any_abs s) = Inr (any_abs s')"
proof (cases st)
  case (AssignCopy v u)
  then show ?thesis using any_assign_refines [OF i] by blast
next
  case (AssignMove v u)
  then show ?thesis using any_move_assign_refines [OF i] by blast
next
  case (AssignValue v t)
  then show ?thesis using any_move_from_ok [OF any_pending_new [OF i, of t], of v] any_abs_new [OF i, of t]
    by (auto simp: any_of_value_def)
next
  case (AssignEmpty v)
  then show ?thesis using any_move_from_ok [of None s v] i by (auto simp: any_pending_None any_default_def)
next
  case (AssignCopied v u)
  show ?thesis
  proof (cases "any_abs s u")
    case None
    then show ?thesis using AssignCopied any_clone_ok [OF i, of u] by (simp add: any_copy_def)
  next
    case (Some d)
    then show ?thesis using AssignCopied any_clone_ok [OF i, of u] any_move_from_ok [OF any_pending_new [OF i, of d], of v]
        any_abs_new [OF i, of d] by (auto simp: any_copy_def)
  qed
next
  case (Destroy v)
  then show ?thesis using any_move_from_ok [of None s v] i by (auto simp: any_pending_None any_destroy_def any_move_from_def)
qed

theorem any_refines_values_witness:
  "\<exists>s'. any_exec (AssignCopy 1 2) \<lparr>an_heap = [Some (7 :: nat)], an_vars = (\<lambda>v. None)(2 := Some 0)\<rparr> = Inr s'
     \<and> any_inv s' \<and> any_abs s' 1 = Some 7 \<and> any_abs s' 2 = Some 7"
proof -
  let ?s = "\<lparr>an_heap = [Some (7 :: nat)], an_vars = (\<lambda>v. None)(2 := Some 0)\<rparr>"
  have i: "any_inv ?s" by (rule any_invI) (auto split: if_splits)
  have a: "any_abs ?s 2 = Some 7" by (simp add: any_abs_def)
  obtain s' where "any_exec (AssignCopy 1 2) ?s = Inr s'" "any_inv s'" and q: "any_abs s' = (any_abs ?s)(1 := Some 7)"
    using any_refines_values [OF i, of "AssignCopy 1 2"] a
    by (cases "any_exec (AssignCopy 1 2) ?s") auto
  then show ?thesis using a by (intro exI [of _ s']) (simp add: q)
qed

end
