(* ===== verification/Syncs.thy ===== *)
theory Syncs
  imports StepSystems
begin

text \<open>
  \<open>MutexLock\<close>, \<open>MutexLockGuard\<close> (winterfell/base/wf_mutex.h), \<open>Conditon\<close> (wf_condition.h) and \<open>Thread\<close>
  (wf_thread.h, wf_thread.cc). The pthread mutex is the owner it has; its operations and those on a
  condition variable follow POSIX. Every access to shared memory is a step of its own, interleaved with
  those of the other threads.
\<close>

section \<open>The mutex\<close>

text \<open>\<open>mx_owner\<close> is the thread that holds the pthread mutex, \<open>mx_holder\<close> the source's \<open>holder_\<close>.\<close>

record MutexLock =
  mx_owner :: "int option"
  mx_holder :: int

definition MutexLock_new :: "int \<Rightarrow> MutexLock" where
  "MutexLock_new self = \<lparr>mx_owner = None, mx_holder = self\<rparr>"

text \<open>\<open>lock\<close> and \<open>unlock\<close>, each its two statements; the second of \<open>lock\<close> waits for the mutex.\<close>

definition lock_note :: "int \<Rightarrow> MutexLock \<Rightarrow> MutexLock" where
  "lock_note self m = m\<lparr>mx_holder := self\<rparr>"

definition lock_take :: "int \<Rightarrow> MutexLock \<Rightarrow> MutexLock option" where
  "lock_take self m = (if mx_owner m = None then Some (m\<lparr>mx_owner := Some self\<rparr>) else None)"

definition unlock_clear :: "MutexLock \<Rightarrow> MutexLock" where
  "unlock_clear m = m\<lparr>mx_holder := 0\<rparr>"

definition unlock_give :: "MutexLock \<Rightarrow> MutexLock" where
  "unlock_give m = m\<lparr>mx_owner := None\<rparr>"

definition isLockeddByThisThread :: "int \<Rightarrow> MutexLock \<Rightarrow> bool" where
  "isLockeddByThisThread self m \<longleftrightarrow> mx_holder m = self"

definition assertIsLockeddByThisThread :: "int \<Rightarrow> MutexLock \<Rightarrow> unit res" where
  "assertIsLockeddByThisThread self m = rassert (isLockeddByThisThread self m) (Inr ())"

section \<open>Threads that use it\<close>

text \<open>Where a thread is: outside, about to wait for the mutex, in the critical section, about to give the
  mutex back, waiting on the condition.\<close>

datatype mutex_pc = Outside | Entering | Inside | Leaving | OnCondition

record mutex_state =
  mu_lock :: MutexLock
  mu_pc :: "int \<Rightarrow> mutex_pc"

definition cond_wait_release :: "MutexLock \<Rightarrow> MutexLock" where
  "cond_wait_release m = m\<lparr>mx_owner := None\<rparr>"

inductive mutex_step :: "mutex_state \<Rightarrow> mutex_state \<Rightarrow> bool" where
  step_note: "mu_pc s t = Outside \<Longrightarrow>
    mutex_step s (s\<lparr>mu_lock := lock_note t (mu_lock s), mu_pc := (mu_pc s)(t := Entering)\<rparr>)"
| step_take: "mu_pc s t = Entering \<Longrightarrow> lock_take t (mu_lock s) = Some m \<Longrightarrow>
    mutex_step s (s\<lparr>mu_lock := m, mu_pc := (mu_pc s)(t := Inside)\<rparr>)"
| step_clear: "mu_pc s t = Inside \<Longrightarrow>
    mutex_step s (s\<lparr>mu_lock := unlock_clear (mu_lock s), mu_pc := (mu_pc s)(t := Leaving)\<rparr>)"
| step_give: "mu_pc s t = Leaving \<Longrightarrow>
    mutex_step s (s\<lparr>mu_lock := unlock_give (mu_lock s), mu_pc := (mu_pc s)(t := Outside)\<rparr>)"
| step_wait: "mu_pc s t = Inside \<Longrightarrow>
    mutex_step s (s\<lparr>mu_lock := cond_wait_release (mu_lock s), mu_pc := (mu_pc s)(t := OnCondition)\<rparr>)"
| step_woken: "mu_pc s t = OnCondition \<Longrightarrow> lock_take t (mu_lock s) = Some m \<Longrightarrow>
    mutex_step s (s\<lparr>mu_lock := m, mu_pc := (mu_pc s)(t := Inside)\<rparr>)"

definition mutex_init :: "int \<Rightarrow> mutex_state \<Rightarrow> bool" where
  "mutex_init creator s \<longleftrightarrow> s = \<lparr>mu_lock = MutexLock_new creator, mu_pc = \<lambda>t. Outside\<rparr>"

definition in_section :: "mutex_pc \<Rightarrow> bool" where
  "in_section p \<longleftrightarrow> p = Inside \<or> p = Leaving"

definition mutex_inv :: "mutex_state \<Rightarrow> bool" where
  "mutex_inv s \<longleftrightarrow> (\<forall>t. in_section (mu_pc s t) \<longleftrightarrow> mx_owner (mu_lock s) = Some t)"

lemmas lock_defs = lock_note_def lock_take_def unlock_clear_def unlock_give_def cond_wait_release_def

lemma mutex_inv_step: "mutex_inv s \<Longrightarrow> mutex_step s s' \<Longrightarrow> mutex_inv s'"
proof -
  assume i: "mutex_inv s" and "mutex_step s s'"
  then have o: "mx_owner (mu_lock s) = Some t \<longleftrightarrow> in_section (mu_pc s t)" for t by (simp add: mutex_inv_def)
  from \<open>mutex_step s s'\<close> show "mutex_inv s'"
  proof cases
    case (step_note t)
    then show ?thesis using o by (auto simp: mutex_inv_def lock_defs in_section_def)
  next
    case (step_take t m)
    then show ?thesis using o by (auto simp: mutex_inv_def lock_defs in_section_def split: if_splits)
  next
    case (step_clear t)
    then show ?thesis using o by (auto simp: mutex_inv_def lock_defs in_section_def)
  next
    case (step_give t)
    then have "mx_owner (mu_lock s) = Some t" using o by (simp add: in_section_def)
    then have u: "in_section (mu_pc s u) \<Longrightarrow> u = t" for u using o [of u] by simp
    show ?thesis using step_give u by (auto simp: mutex_inv_def lock_defs in_section_def)
  next
    case (step_wait t)
    then have "mx_owner (mu_lock s) = Some t" using o by (simp add: in_section_def)
    then have u: "in_section (mu_pc s u) \<Longrightarrow> u = t" for u using o [of u] by simp
    show ?thesis using step_wait u by (auto simp: mutex_inv_def lock_defs in_section_def)
  next
    case (step_woken t m)
    then show ?thesis using o by (auto simp: mutex_inv_def lock_defs in_section_def split: if_splits)
  qed
qed

lemma mutex_inv_init: "mutex_init creator s \<Longrightarrow> mutex_inv s"
  by (simp add: mutex_init_def mutex_inv_def MutexLock_new_def in_section_def)

interpretation mx: invariant_system "mutex_init creator" mutex_step mutex_inv for creator
  by unfold_locales (fact mutex_inv_init, fact mutex_inv_step)

section \<open>Threads\<close>

text \<open>\<open>th_reclaimed\<close> counts the joins and detaches of the pthread.\<close>

record Thread =
  th_started :: bool
  th_joined :: bool
  th_tid :: int
  th_name :: "char list"
  th_reclaimed :: nat

definition Thread_new :: "char list \<Rightarrow> Thread" where
  "Thread_new name = \<lparr>th_started = False, th_joined = False, th_tid = 0, th_name = name, th_reclaimed = 0\<rparr>"

text \<open>\<open>create\<close> is what \<open>pthread_create\<close> returns.\<close>

definition th_start :: "int \<Rightarrow> Thread \<Rightarrow> Thread res" where
  "th_start create t =
     rassert (\<not> th_started t)
       (if create \<noteq> 0 then Inl Aborted else Inr (t\<lparr>th_started := True\<rparr>))"

definition th_join :: "Thread \<Rightarrow> Thread res" where
  "th_join t =
     rassert (th_started t) (rassert (\<not> th_joined t)
       (Inr (t\<lparr>th_joined := True, th_reclaimed := th_reclaimed t + 1\<rparr>)))"

definition th_runInThread :: "int \<Rightarrow> Thread \<Rightarrow> Thread" where
  "th_runInThread tid t = t\<lparr>th_tid := tid\<rparr>"

definition th_destroy :: "Thread \<Rightarrow> Thread" where
  "th_destroy t = (if th_started t \<and> \<not> th_joined t then t\<lparr>th_reclaimed := th_reclaimed t + 1\<rparr> else t)"

datatype thread_op = ThStart int | ThJoin | ThRuns int

fun thread_exec :: "thread_op list \<Rightarrow> Thread \<Rightarrow> Thread res" where
  "thread_exec [] t = Inr t"
| "thread_exec (ThStart create # ops) t = rbind (th_start create t) (thread_exec ops)"
| "thread_exec (ThJoin # ops) t = rbind (th_join t) (thread_exec ops)"
| "thread_exec (ThRuns tid # ops) t = thread_exec ops (th_runInThread tid t)"

text \<open>The calls of the owner, without what the new thread does.\<close>

definition owner_ops :: "thread_op list \<Rightarrow> thread_op list" where
  "owner_ops ops = filter (\<lambda>op. case op of ThRuns tid \<Rightarrow> False | _ \<Rightarrow> True) ops"

lemma thread_exec_after_join:
  "th_started t \<Longrightarrow> th_joined t \<Longrightarrow> th_reclaimed t = 1 \<Longrightarrow>
     (\<exists>t'. thread_exec ops t = Inr t') = (owner_ops ops = [])
     \<and> (\<forall>t'. thread_exec ops t = Inr t' \<longrightarrow> th_reclaimed (th_destroy t') = 1)"
  by (induction ops t rule: thread_exec.induct)
    (auto simp: owner_ops_def th_start_def th_join_def th_runInThread_def th_destroy_def)

lemma thread_exec_after_start:
  "th_started t \<Longrightarrow> \<not> th_joined t \<Longrightarrow> th_reclaimed t = 0 \<Longrightarrow>
     (\<exists>t'. thread_exec ops t = Inr t') = (owner_ops ops = [] \<or> owner_ops ops = [ThJoin])
     \<and> (\<forall>t'. thread_exec ops t = Inr t' \<longrightarrow> th_reclaimed (th_destroy t') = 1)"
proof (induction ops arbitrary: t)
  case (Cons op ops)
  show ?case
  proof (cases op)
    case ThJoin
    then show ?thesis using Cons.prems thread_exec_after_join [of "t\<lparr>th_joined := True, th_reclaimed := 1\<rparr>" ops]
      by (simp add: owner_ops_def th_join_def)
  next
    case (ThRuns tid)
    then show ?thesis using Cons.prems Cons.IH [of "th_runInThread tid t"] by (simp add: owner_ops_def th_runInThread_def)
  qed (use Cons.prems in \<open>simp add: owner_ops_def th_start_def\<close>)
qed (simp add: owner_ops_def th_destroy_def)

lemma thread_exec_fresh:
  "\<not> th_started t \<Longrightarrow> \<not> th_joined t \<Longrightarrow> th_reclaimed t = 0 \<Longrightarrow> \<forall>create. ThStart create \<in> set ops \<longrightarrow> create = 0 \<Longrightarrow>
     (\<exists>t'. thread_exec ops t = Inr t') = (owner_ops ops \<in> {[], [ThStart 0], [ThStart 0, ThJoin]})
     \<and> (\<forall>t'. thread_exec ops t = Inr t' \<longrightarrow> th_reclaimed (th_destroy t') = (if th_started t' then 1 else 0))"
proof (induction ops arbitrary: t)
  case (Cons op ops)
  show ?case
  proof (cases op)
    case (ThStart create)
    then have c: "create = 0" using Cons.prems(4) by simp
    have 1: "(\<exists>t'. thread_exec ops (t\<lparr>th_started := True\<rparr>) = Inr t') = (owner_ops ops = [] \<or> owner_ops ops = [ThJoin])"
      "\<forall>t'. thread_exec ops (t\<lparr>th_started := True\<rparr>) = Inr t' \<longrightarrow> th_reclaimed (th_destroy t') = 1"
      using thread_exec_after_start [of "t\<lparr>th_started := True\<rparr>" ops] Cons.prems by auto
    have s: "th_started t'" if "thread_exec ops u = Inr t'" "th_started u" for t' u
      using that by (induction ops u rule: thread_exec.induct)
        (auto simp: rbind_Inr_iff rassert_Inr_iff th_start_def th_join_def th_runInThread_def split: if_splits)
    show ?thesis using 1 s [of "t\<lparr>th_started := True\<rparr>"] ThStart c Cons.prems by (auto simp: owner_ops_def th_start_def)
  next
    case ThJoin
    then show ?thesis using Cons.prems by (simp add: owner_ops_def th_join_def)
  next
    case (ThRuns tid)
    then show ?thesis using Cons.prems Cons.IH [of "th_runInThread tid t"] by (simp add: owner_ops_def th_runInThread_def)
  qed
qed (simp add: owner_ops_def th_destroy_def)

section \<open>Properties\<close>

text \<open>The lock excludes: in every interleaving of the threads' steps, waits on the condition included,
  at most one thread is between \<open>lock\<close> and \<open>unlock\<close>, namely the owner of the pthread mutex.\<close>

theorem mutex_excludes:
  assumes "reachable (mutex_init creator) mutex_step s" and "in_section (mu_pc s t)"
  shows "mx_owner (mu_lock s) = Some t \<and> (\<forall>u. in_section (mu_pc s u) \<longrightarrow> u = t)"
proof -
  have "mutex_inv s" by (rule mx.inv_reachable [OF assms(1)])
  then show ?thesis using assms(2) by (simp add: mutex_inv_def)
qed

text \<open>\<open>isLockeddByThisThread\<close> cannot be trusted. \<open>holder_\<close> is written before the mutex is taken, so
  another thread that only waits makes it wrong for the owner, whose \<open>assertIsLockeddByThisThread\<close>
  then fails, and right for the one that waits.\<close>

theorem mutex_holder_wrong:
  assumes "t \<noteq> u"
  shows "\<exists>s. reachable (mutex_init creator) mutex_step s \<and> mu_pc s t = Inside \<and> mu_pc s u = Entering
    \<and> assertIsLockeddByThisThread t (mu_lock s) = Inl AssertFailed \<and> isLockeddByThisThread u (mu_lock s)"
proof -
  let ?s0 = "\<lparr>mu_lock = MutexLock_new creator, mu_pc = \<lambda>t. Outside\<rparr>"
  let ?s1 = "?s0\<lparr>mu_lock := lock_note t (mu_lock ?s0), mu_pc := (mu_pc ?s0)(t := Entering)\<rparr>"
  let ?m = "(mu_lock ?s1)\<lparr>mx_owner := Some t\<rparr>"
  let ?s2 = "?s1\<lparr>mu_lock := ?m, mu_pc := (mu_pc ?s1)(t := Inside)\<rparr>"
  let ?s3 = "?s2\<lparr>mu_lock := lock_note u (mu_lock ?s2), mu_pc := (mu_pc ?s2)(u := Entering)\<rparr>"
  have "reachable (mutex_init creator) mutex_step ?s0" by (rule reach_init) (simp add: mutex_init_def)
  moreover have "mutex_step ?s0 ?s1" by (rule step_note) simp
  moreover have "mutex_step ?s1 ?s2" by (rule step_take) (simp_all add: lock_take_def lock_note_def MutexLock_new_def)
  moreover have "mutex_step ?s2 ?s3" by (rule step_note) (use assms in simp)
  ultimately have "reachable (mutex_init creator) mutex_step ?s3" using reach_step by meson
  then show ?thesis
    using assms by (intro exI [of _ ?s3]) (simp add: assertIsLockeddByThisThread_def isLockeddByThisThread_def lock_note_def)
qed

theorem mutex_holder_wrong_witness:
  "\<exists>s. reachable (mutex_init 9) mutex_step s \<and> assertIsLockeddByThisThread 1 (mu_lock s) = Inl AssertFailed \<and> mu_pc s 1 = Inside"
  using mutex_holder_wrong [of 1 2 9] by auto

theorem mutex_excludes_witness:
  "\<exists>s. reachable (mutex_init 1) mutex_step s \<and> mu_pc s 1 = Inside \<and> mx_owner (mu_lock s) = Some 1"
proof -
  let ?s0 = "\<lparr>mu_lock = MutexLock_new 1, mu_pc = \<lambda>t. Outside\<rparr>"
  let ?s1 = "?s0\<lparr>mu_lock := lock_note 1 (mu_lock ?s0), mu_pc := (mu_pc ?s0)(1 := Entering)\<rparr>"
  let ?s2 = "?s1\<lparr>mu_lock := (mu_lock ?s1)\<lparr>mx_owner := Some 1\<rparr>, mu_pc := (mu_pc ?s1)(1 := Inside)\<rparr>"
  have "reachable (mutex_init 1) mutex_step ?s0" by (rule reach_init) (simp add: mutex_init_def)
  moreover have "mutex_step ?s0 ?s1" by (rule step_note) simp
  moreover have "mutex_step ?s1 ?s2" by (rule step_take) (simp_all add: lock_take_def lock_note_def MutexLock_new_def)
  ultimately have r: "reachable (mutex_init 1) mutex_step ?s2" using reach_step by meson
  from mutex_excludes [OF r, of 1] r show ?thesis by (intro exI [of _ ?s2]) (simp add: in_section_def)
qed

text \<open>A thread object is used exactly as its assertions demand: the owner's calls succeed if and only
  if they are nothing, one \<open>start\<close>, or one \<open>start\<close> and then one \<open>join\<close>, whenever the new thread runs;
  and with the destructor the pthread of a started thread is joined or detached exactly once.\<close>

theorem thread_protocol:
  assumes "\<forall>create. ThStart create \<in> set ops \<longrightarrow> create = 0"
  shows "(\<exists>t. thread_exec ops (Thread_new name) = Inr t) = (owner_ops ops \<in> {[], [ThStart 0], [ThStart 0, ThJoin]})
    \<and> (\<forall>t. thread_exec ops (Thread_new name) = Inr t \<longrightarrow> th_reclaimed (th_destroy t) = (if th_started t then 1 else 0))"
  using thread_exec_fresh [of "Thread_new name" ops] assms by (simp add: Thread_new_def)

theorem thread_protocol_witness:
  "\<exists>t. thread_exec [ThStart 0, ThRuns 7, ThJoin] (Thread_new ''worker'') = Inr t \<and> th_reclaimed (th_destroy t) = 1"
  using thread_protocol [of "[ThStart 0, ThRuns 7, ThJoin]" "''worker''"]
  by (auto simp: owner_ops_def rbind_Inr_iff rassert_Inr_iff th_start_def th_join_def th_runInThread_def th_destroy_def split: if_splits)

end
