(* ===== verification/CounterThreads.thy ===== *)
theory CounterThreads
  imports Syncs
begin

text \<open>
  The first part of base/tests/wf_synchronization_test.cc, a program that uses the mutex: two threads take
  the lock a million times each, one to add 1 to \<open>g_count\<close>, the other to take 1 off it, and \<open>main\<close> asserts
  that the sum is 0 when both have been joined. The additions are a read and a write of the shared
  variable, interleaved with the steps of the other thread.
\<close>

section \<open>The two threads\<close>

text \<open>What a thread has done of the addition in its critical section.\<close>

datatype addition = ToRead | Loaded int | Stored

text \<open>\<open>ct_left\<close> are the additions a thread still has to make.\<close>

record counter_state =
  ct_mx :: mutex_state
  g_count :: int
  ct_left :: "int \<Rightarrow> nat"
  ct_add :: "int \<Rightarrow> addition"

definition thread_add :: int where "thread_add = 1"
definition thread_sub :: int where "thread_sub = 2"

text \<open>What the statement in the loop of each thread assigns.\<close>

definition next_count :: "int \<Rightarrow> int \<Rightarrow> int res" where
  "next_count t v = int32 (if t = thread_add then v + 1 else v - 1)"

definition counter_init :: "int \<Rightarrow> nat \<Rightarrow> counter_state" where
  "counter_init creator n =
     \<lparr>ct_mx = \<lparr>mu_lock = MutexLock_new creator, mu_pc = (\<lambda>t. Outside)\<rparr>, g_count = 0, ct_left = (\<lambda>t. n), ct_add = (\<lambda>t. ToRead)\<rparr>"

text \<open>Thread \<open>t\<close> goes on to \<open>p\<close>, leaving the mutex as \<open>m\<close>.\<close>

definition goes :: "int \<Rightarrow> MutexLock \<Rightarrow> mutex_pc \<Rightarrow> counter_state \<Rightarrow> counter_state" where
  "goes t m p s = s\<lparr>ct_mx := (ct_mx s)\<lparr>mu_lock := m, mu_pc := (mu_pc (ct_mx s))(t := p)\<rparr>\<rparr>"

abbreviation pc :: "counter_state \<Rightarrow> int \<Rightarrow> mutex_pc" where "pc s \<equiv> mu_pc (ct_mx s)"
abbreviation mutex :: "counter_state \<Rightarrow> MutexLock" where "mutex s \<equiv> mu_lock (ct_mx s)"

inductive counter_step :: "counter_state \<Rightarrow> counter_state \<Rightarrow> bool" where
  counter_note: "t \<in> {thread_add, thread_sub} \<Longrightarrow> pc s t = Outside \<Longrightarrow> 0 < ct_left s t
    \<Longrightarrow> counter_step s (goes t (lock_note t (mutex s)) Entering s)"
| counter_take: "pc s t = Entering \<Longrightarrow> lock_take t (mutex s) = Some m \<Longrightarrow> counter_step s (goes t m Inside s)"
| counter_read: "pc s t = Inside \<Longrightarrow> ct_add s t = ToRead
    \<Longrightarrow> counter_step s (s\<lparr>ct_add := (ct_add s)(t := Loaded (g_count s))\<rparr>)"
| counter_write: "pc s t = Inside \<Longrightarrow> ct_add s t = Loaded v \<Longrightarrow> next_count t v = Inr v'
    \<Longrightarrow> counter_step s (s\<lparr>g_count := v', ct_add := (ct_add s)(t := Stored), ct_left := (ct_left s)(t := ct_left s t - 1)\<rparr>)"
| counter_clear: "pc s t = Inside \<Longrightarrow> ct_add s t = Stored \<Longrightarrow> counter_step s (goes t (unlock_clear (mutex s)) Leaving s)"
| counter_give: "pc s t = Leaving
    \<Longrightarrow> counter_step s (goes t (unlock_give (mutex s)) Outside (s\<lparr>ct_add := (ct_add s)(t := ToRead)\<rparr>))"

text \<open>\<open>main\<close> joins both threads and asserts.\<close>

definition both_done :: "counter_state \<Rightarrow> bool" where
  "both_done s \<longleftrightarrow> (\<forall>t \<in> {thread_add, thread_sub}. pc s t = Outside \<and> ct_left s t = 0)"

definition counter_assert :: "counter_state \<Rightarrow> unit res" where
  "counter_assert s = rassert (g_count s = 0) (Inr ())"

section \<open>The invariant\<close>

text \<open>Where a thread is in its loop.\<close>

definition thread_ok :: "nat \<Rightarrow> counter_state \<Rightarrow> int \<Rightarrow> bool" where
  "thread_ok n s t \<longleftrightarrow> ct_left s t \<le> n
     \<and> (case pc s t of
          Outside \<Rightarrow> ct_add s t = ToRead
        | Entering \<Rightarrow> ct_add s t = ToRead \<and> 0 < ct_left s t
        | Inside \<Rightarrow> (case ct_add s t of ToRead \<Rightarrow> 0 < ct_left s t | Loaded v \<Rightarrow> v = g_count s \<and> 0 < ct_left s t | Stored \<Rightarrow> ct_left s t < n)
        | Leaving \<Rightarrow> ct_add s t = Stored \<and> ct_left s t < n
        | OnCondition \<Rightarrow> False)"

definition counter_inv :: "nat \<Rightarrow> counter_state \<Rightarrow> bool" where
  "counter_inv n s \<longleftrightarrow> mutex_inv (ct_mx s) \<and> (\<forall>t. thread_ok n s t) \<and> (\<forall>t. t \<notin> {thread_add, thread_sub} \<longrightarrow> pc s t = Outside)
     \<and> g_count s = int (ct_left s thread_sub) - int (ct_left s thread_add)"

lemma counter_mutex: "counter_step s s' \<Longrightarrow> ct_mx s' = ct_mx s \<or> mutex_step (ct_mx s) (ct_mx s')"
  by (induction rule: counter_step.induct) (auto simp: goes_def intro: mutex_step.intros)

lemma counter_inv_init: "counter_inv n (counter_init creator n)"
  using mutex_inv_init [of creator "ct_mx (counter_init creator n)"]
  by (simp add: counter_inv_def counter_init_def mutex_init_def thread_ok_def)

lemma threads_differ [simp]: "thread_add \<noteq> thread_sub" "thread_sub \<noteq> thread_add"
  by (simp_all add: thread_add_def thread_sub_def)

text \<open>The addition of the thread that is in the critical section does not overflow.\<close>

lemma next_count_ok:
  assumes "counter_inv n s" "n < 2 ^ 31" "pc s t = Inside" "ct_add s t = Loaded v"
  shows "next_count t v = Inr (if t = thread_add then v + 1 else v - 1)"
proof -
  have "thread_ok n s thread_add" "thread_ok n s thread_sub" "thread_ok n s t" using assms(1) by (auto simp: counter_inv_def)
  then have "ct_left s thread_add \<le> n" "ct_left s thread_sub \<le> n" "0 < ct_left s t" "v = g_count s"
    using assms(3,4) by (auto simp: thread_ok_def)
  moreover have "t = thread_add \<or> t = thread_sub" using assms(1,3) by (auto simp: counter_inv_def)
  moreover have "g_count s = int (ct_left s thread_sub) - int (ct_left s thread_add)" using assms(1) by (simp add: counter_inv_def)
  ultimately show ?thesis using assms(2) by (auto simp: next_count_def int32_def in_int32_def)
qed

lemma one_inside: "mutex_inv m \<Longrightarrow> in_section (mu_pc m t) \<Longrightarrow> in_section (mu_pc m u) \<Longrightarrow> u = t"
  by (auto simp: mutex_inv_def)

lemma goes_fields [simp]:
  "pc (goes t m p s) = (pc s)(t := p)" "mutex (goes t m p s) = m" "ct_add (goes t m p s) = ct_add s" "ct_left (goes t m p s) = ct_left s"
  "g_count (goes t m p s) = g_count s"
  by (simp_all add: goes_def)

lemma thread_ok_other:
  "pc s' u = pc s u \<Longrightarrow> ct_add s' u = ct_add s u \<Longrightarrow> ct_left s' u = ct_left s u \<Longrightarrow> g_count s' = g_count s \<or> \<not> in_section (pc s u)
     \<Longrightarrow> thread_ok n s' u = thread_ok n s u"
  by (auto simp: thread_ok_def in_section_def split: mutex_pc.splits addition.splits)

lemma counter_inv_step:
  assumes i: "counter_inv n s" and n: "n < 2 ^ 31" and step: "counter_step s s'"
  shows "counter_inv n s'"
proof -
  have m: "mutex_inv (ct_mx s)" and ok: "thread_ok n s t" and th: "t \<notin> {thread_add, thread_sub} \<Longrightarrow> pc s t = Outside" for t
    using i by (auto simp: counter_inv_def)
  have g: "g_count s = int (ct_left s thread_sub) - int (ct_left s thread_add)" using i by (simp add: counter_inv_def)
  have "mutex_inv (ct_mx s')" using counter_mutex [OF step] m mutex_inv_step by auto
  moreover have "(\<forall>t. thread_ok n s' t) \<and> (\<forall>t. t \<notin> {thread_add, thread_sub} \<longrightarrow> pc s' t = Outside)
     \<and> g_count s' = int (ct_left s' thread_sub) - int (ct_left s' thread_add)"
    using step
  proof cases
    case (counter_note t)
    have "thread_ok n s' t" using ok [of t] counter_note by (simp add: thread_ok_def)
    moreover have "thread_ok n s' u" if "u \<noteq> t" for u
      using thread_ok_other [of s' u s n] ok [of u] that counter_note(1) by simp
    ultimately have "thread_ok n s' u" for u by (cases "u = t") simp_all
    then show ?thesis using th g counter_note(1,2) by auto
  next
    case (counter_take t m')
    have "t \<in> {thread_add, thread_sub}" using th [of t] counter_take(2) by force
    have "thread_ok n s' t" using ok [of t] counter_take by (simp add: thread_ok_def)
    moreover have "thread_ok n s' u" if "u \<noteq> t" for u
      using thread_ok_other [of s' u s n] ok [of u] that counter_take(1) by simp
    ultimately have "thread_ok n s' u" for u by (cases "u = t") simp_all
    then show ?thesis using th g \<open>t \<in> {thread_add, thread_sub}\<close> counter_take(1) by auto
  next
    case (counter_read t)
    have "t \<in> {thread_add, thread_sub}" using th [of t] counter_read(2) by force
    have "thread_ok n s' t" using ok [of t] counter_read by (simp add: thread_ok_def)
    moreover have "thread_ok n s' u" if "u \<noteq> t" for u
      using thread_ok_other [of s' u s n] ok [of u] that counter_read(1) by simp
    ultimately have "thread_ok n s' u" for u by (cases "u = t") simp_all
    then show ?thesis using th g \<open>t \<in> {thread_add, thread_sub}\<close> counter_read(1) by auto
  next
    case (counter_write t v v')
    have v: "v = g_count s" "0 < ct_left s t" "ct_left s t \<le> n" using ok [of t] counter_write by (auto simp: thread_ok_def)
    have t: "t = thread_add \<or> t = thread_sub" using th [of t] counter_write(2) by force
    have v': "v' = (if t = thread_add then v + 1 else v - 1)"
      using next_count_ok [OF i n counter_write(2,3)] counter_write(4) by simp
    have "thread_ok n s' t" using v counter_write by (auto simp: thread_ok_def)
    moreover have "thread_ok n s' u" if "u \<noteq> t" for u
    proof -
      have "\<not> in_section (pc s u)" using one_inside [OF m, of t u] counter_write(2) that by (auto simp: in_section_def)
      then show ?thesis using thread_ok_other [of s' u s n] ok [of u] that counter_write(1) by simp
    qed
    moreover have "g_count s' = int (ct_left s' thread_sub) - int (ct_left s' thread_add)"
      using t v v' g threads_differ by (auto simp: counter_write(1) of_nat_diff)
    moreover have "pc s' u = pc s u" for u using counter_write(1) by simp
    ultimately show ?thesis using th by (metis (full_types))
  next
    case (counter_clear t)
    have "t \<in> {thread_add, thread_sub}" using th [of t] counter_clear(2) by force
    have "thread_ok n s' t" using ok [of t] counter_clear by (simp add: thread_ok_def)
    moreover have "thread_ok n s' u" if "u \<noteq> t" for u
      using thread_ok_other [of s' u s n] ok [of u] that counter_clear(1) by simp
    ultimately have "thread_ok n s' u" for u by (cases "u = t") simp_all
    then show ?thesis using th g \<open>t \<in> {thread_add, thread_sub}\<close> counter_clear(1) by auto
  next
    case (counter_give t)
    have "t \<in> {thread_add, thread_sub}" using th [of t] counter_give(2) by force
    have "thread_ok n s' t" using ok [of t] counter_give by (simp add: thread_ok_def)
    moreover have "thread_ok n s' u" if "u \<noteq> t" for u
      using thread_ok_other [of s' u s n] ok [of u] that counter_give(1) by simp
    ultimately have "thread_ok n s' u" for u by (cases "u = t") simp_all
    then show ?thesis using th g \<open>t \<in> {thread_add, thread_sub}\<close> counter_give(1) by auto
  qed
  ultimately show ?thesis by (simp add: counter_inv_def)
qed

section \<open>No deadlock, and an end\<close>

text \<open>The steps that are left of a thread.\<close>

definition steps_left :: "counter_state \<Rightarrow> int \<Rightarrow> nat" where
  "steps_left s t =
     (case pc s t of
        Outside \<Rightarrow> 6 * ct_left s t
      | Entering \<Rightarrow> 6 * ct_left s t - 1
      | Inside \<Rightarrow> (case ct_add s t of ToRead \<Rightarrow> 6 * ct_left s t - 2 | Loaded v \<Rightarrow> 6 * ct_left s t - 3 | Stored \<Rightarrow> 6 * ct_left s t + 2)
      | Leaving \<Rightarrow> 6 * ct_left s t + 1
      | OnCondition \<Rightarrow> 0)"

definition all_left :: "counter_state \<Rightarrow> nat" where
  "all_left s = steps_left s thread_add + steps_left s thread_sub"

lemma steps_left_other:
  "pc s' u = pc s u \<Longrightarrow> ct_add s' u = ct_add s u \<Longrightarrow> ct_left s' u = ct_left s u \<Longrightarrow> steps_left s' u = steps_left s u"
  by (simp add: steps_left_def split: mutex_pc.splits addition.splits)

lemma steps_left_step:
  assumes i: "counter_inv n s" and step: "counter_step s s'"
  shows "Suc (all_left s') = all_left s"
proof -
  have ok: "thread_ok n s t" and th: "t \<notin> {thread_add, thread_sub} \<Longrightarrow> pc s t = Outside" for t
    using i by (auto simp: counter_inv_def)
  have "\<exists>t. t \<in> {thread_add, thread_sub} \<and> Suc (steps_left s' t) = steps_left s t \<and> (\<forall>u. u \<noteq> t \<longrightarrow> steps_left s' u = steps_left s u)"
    using step
  proof cases
    case (counter_note t)
    then have "t \<in> {thread_add, thread_sub}" by simp
    moreover have "Suc (steps_left s' t) = steps_left s t"
      using ok [of t] counter_note by (auto simp: steps_left_def thread_ok_def)
    moreover have "steps_left s' u = steps_left s u" if "u \<noteq> t" for u
      using that counter_note(1) by (intro steps_left_other) simp_all
    ultimately show ?thesis by blast
  next
    case (counter_take t m)
    then have "t \<in> {thread_add, thread_sub}" using th [of t] by force
    moreover have "Suc (steps_left s' t) = steps_left s t"
      using ok [of t] counter_take by (auto simp: steps_left_def thread_ok_def)
    moreover have "steps_left s' u = steps_left s u" if "u \<noteq> t" for u
      using that counter_take(1) by (intro steps_left_other) simp_all
    ultimately show ?thesis by blast
  next
    case (counter_read t)
    then have "t \<in> {thread_add, thread_sub}" using th [of t] by force
    moreover have "Suc (steps_left s' t) = steps_left s t"
      using ok [of t] counter_read by (auto simp: steps_left_def thread_ok_def)
    moreover have "steps_left s' u = steps_left s u" if "u \<noteq> t" for u
      using that counter_read(1) by (intro steps_left_other) simp_all
    ultimately show ?thesis by blast
  next
    case (counter_write t v v')
    then have "t \<in> {thread_add, thread_sub}" using th [of t] by force
    moreover have "Suc (steps_left s' t) = steps_left s t"
      using ok [of t] counter_write by (auto simp: steps_left_def thread_ok_def)
    moreover have "steps_left s' u = steps_left s u" if "u \<noteq> t" for u
      using that counter_write(1) by (intro steps_left_other) simp_all
    ultimately show ?thesis by blast
  next
    case (counter_clear t)
    then have "t \<in> {thread_add, thread_sub}" using th [of t] by force
    moreover have "Suc (steps_left s' t) = steps_left s t"
      using ok [of t] counter_clear by (auto simp: steps_left_def thread_ok_def)
    moreover have "steps_left s' u = steps_left s u" if "u \<noteq> t" for u
      using that counter_clear(1) by (intro steps_left_other) simp_all
    ultimately show ?thesis by blast
  next
    case (counter_give t)
    then have "t \<in> {thread_add, thread_sub}" using th [of t] by force
    moreover have "Suc (steps_left s' t) = steps_left s t"
      using ok [of t] counter_give by (auto simp: steps_left_def thread_ok_def)
    moreover have "steps_left s' u = steps_left s u" if "u \<noteq> t" for u
      using that counter_give(1) by (intro steps_left_other) simp_all
    ultimately show ?thesis by blast
  qed
  then show ?thesis using threads_differ by (auto simp: all_left_def)
qed

lemma some_step:
  assumes i: "counter_inv n s" and n: "n < 2 ^ 31" and "\<not> both_done s"
  shows "\<exists>s'. counter_step s s'"
proof -
  have m: "mutex_inv (ct_mx s)" and ok: "thread_ok n s t" for t using i by (auto simp: counter_inv_def)
  show ?thesis
  proof (cases "mx_owner (mutex s)")
    case (Some t)
    then have "in_section (pc s t)" using m by (simp add: mutex_inv_def)
    then consider "pc s t = Leaving" | "pc s t = Inside" by (auto simp: in_section_def)
    then show ?thesis
    proof cases
      case 1
      then show ?thesis using counter_give by blast
    next
      case 2
      then show ?thesis
        using next_count_ok [OF i n 2] counter_read [OF 2] counter_write [OF 2] counter_clear [OF 2] by (cases "ct_add s t") blast+
    qed
  next
    case None
    then have o: "\<not> in_section (pc s t)" for t using m by (simp add: mutex_inv_def)
    obtain t where t: "t \<in> {thread_add, thread_sub}" "pc s t \<noteq> Outside \<or> 0 < ct_left s t" using assms(3) by (auto simp: both_done_def)
    show ?thesis
    proof (cases "pc s t")
      case Outside
      then show ?thesis using t counter_note by blast
    next
      case Entering
      then show ?thesis using None counter_take [of s t] by (auto simp: lock_take_def)
    next
      case OnCondition
      then show ?thesis using ok [of t] by (simp add: thread_ok_def)
    qed (use o [of t] in \<open>simp_all add: in_section_def\<close>)
  qed
qed

lemma counter_run:
  assumes n: "n < 2 ^ 31" and run: "(counter_step ^^ k) (counter_init creator n) s"
  shows "counter_inv n s \<and> k + all_left s = 12 * n"
  using run
proof (induction k arbitrary: s)
  case 0
  then show ?case using counter_inv_init by (auto simp: all_left_def steps_left_def counter_init_def)
next
  case (Suc k)
  then obtain d where d: "(counter_step ^^ k) (counter_init creator n) d" "counter_step d s" by auto
  then show ?case using Suc.IH [OF d(1)] counter_inv_step [OF _ n d(2)] steps_left_step [OF _ d(2)] by fastforce
qed

section \<open>Properties\<close>

text \<open>C31: The test of the mutex passes in every interleaving. The additions of both threads never overflow
  and no schedule deadlocks: every run takes at most twelve steps for each iteration of the loops, a run
  that cannot go on has taken exactly that many, and then both threads are through, the mutex is free,
  the count is 0 and the assertion of \<open>main\<close> holds.\<close>

theorem counter_test_passes:
  assumes "n < 2 ^ 31" and "(counter_step ^^ k) (counter_init creator n) s"
  shows "k \<le> 12 * n
    \<and> ((\<nexists>s'. counter_step s s') \<longrightarrow> k = 12 * n \<and> both_done s \<and> mx_owner (mutex s) = None \<and> counter_assert s = Inr ())"
proof (intro conjI impI)
  have i: "counter_inv n s" and k: "k + all_left s = 12 * n" using counter_run [OF assms] by auto
  then show "k \<le> 12 * n" by simp
  assume "\<nexists>s'. counter_step s s'"
  then show d: "both_done s" using some_step [OF i assms(1)] by blast
  then show "k = 12 * n" using k by (simp add: both_done_def all_left_def steps_left_def)
  show "mx_owner (mutex s) = None"
  proof (rule ccontr)
    assume "mx_owner (mutex s) \<noteq> None"
    then obtain t where "in_section (pc s t)" using i by (auto simp: counter_inv_def mutex_inv_def)
    then show False using i d by (cases "t \<in> {thread_add, thread_sub}") (auto simp: counter_inv_def both_done_def in_section_def)
  qed
  show "counter_assert s = Inr ()" using i d by (simp add: counter_assert_def counter_inv_def both_done_def)
qed

lemma runs_end:
  "counter_inv n s \<Longrightarrow> n < 2 ^ 31 \<Longrightarrow> \<exists>k s'. (counter_step ^^ k) s s' \<and> (\<nexists>s''. counter_step s' s'')"
proof (induction "all_left s" arbitrary: s rule: less_induct)
  case less
  show ?case
  proof (cases "\<exists>d. counter_step s d")
    case True
    then obtain d where d: "counter_step s d" by blast
    have "all_left d < all_left s" using steps_left_step [OF less.prems(1) d] by simp
    from less.hyps [OF this counter_inv_step [OF less.prems d] less.prems(2)]
    obtain k s' where "(counter_step ^^ k) d s'" "\<nexists>s''. counter_step s' s''" by blast
    then show ?thesis using relpowp_Suc_I2 [where P = counter_step, OF d] by blast
  next
    case False
    then show ?thesis by (intro exI [of _ 0] exI [of _ s]) simp
  qed
qed

text \<open>The million iterations of the test.\<close>

theorem counter_test_passes_witness:
  "\<exists>s. (counter_step ^^ 12000000) (counter_init 0 1000000) s \<and> both_done s \<and> counter_assert s = Inr ()"
proof -
  obtain k s where s: "(counter_step ^^ k) (counter_init 0 1000000) s" "\<nexists>s'. counter_step s s'"
    using runs_end [OF counter_inv_init [of 1000000 0]] by auto
  from counter_test_passes [OF _ s(1)] s show ?thesis by auto
qed

end
