(* ===== verification/Resources.thy ===== *)
theory Resources
  imports Syncs
begin

text \<open>
  The second part of base/tests/wf_synchronization_test.cc: producers add to a count of resources under the
  mutex and notify the condition, a consumer waits on it for a count that is not 0, and takes 1 off the
  count after its guard has given the mutex up. Every access to the shared count is a step of its own.
  The threads never end; a run is a schedule, the list of the threads that take the next step.
\<close>

section \<open>The three threads\<close>

text \<open>What a thread does next. A thread waits on the condition until it is signalled, or for no reason.\<close>

datatype place = AtLock | AtTake | AtTest | Waiting bool | AtLoad | AtStore int | AtNotify | AtUnlock | AtGive

text \<open>\<open>produced\<close> and \<open>consumed\<close> count the additions and subtractions that have been made.\<close>

record resource_state =
  rc_lock :: MutexLock
  resouce_count :: int
  rc_place :: "int \<Rightarrow> place"
  produced :: nat
  consumed :: nat

text \<open>The threads that \<open>main\<close> starts.\<close>

definition consumer :: int where "consumer = 1"
definition producers :: "int list" where "producers = [2, 3]"

definition rc_init :: "int \<Rightarrow> resource_state" where
  "rc_init creator = \<lparr>rc_lock = MutexLock_new creator, resouce_count = 0, rc_place = (\<lambda>t. AtLock), produced = 0, consumed = 0\<rparr>"

definition at :: "int \<Rightarrow> place \<Rightarrow> resource_state \<Rightarrow> resource_state" where
  "at t p s = s\<lparr>rc_place := (rc_place s)(t := p)\<rparr>"

text \<open>The steps that take the mutex, in \<open>lock\<close> and at the end of \<open>wait\<close>; a thread that does not get it stays.\<close>

definition take_then :: "int \<Rightarrow> place \<Rightarrow> resource_state \<Rightarrow> resource_state" where
  "take_then t p s = (case lock_take t (rc_lock s) of None \<Rightarrow> s | Some m \<Rightarrow> at t p (s\<lparr>rc_lock := m\<rparr>))"

text \<open>A signal wakes a thread that waits; only the consumer does.\<close>

definition cond_signal :: "resource_state \<Rightarrow> resource_state" where
  "cond_signal s = (case rc_place s consumer of Waiting b \<Rightarrow> at consumer (Waiting True) s | _ \<Rightarrow> s)"

text \<open>One turn of the loop of the consumer. The subtraction comes after the block of the guard.\<close>

fun cosumer :: "place \<Rightarrow> resource_state \<Rightarrow> resource_state res" where
  "cosumer AtLock s = Inr (at consumer AtTake (s\<lparr>rc_lock := lock_note consumer (rc_lock s)\<rparr>))"
| "cosumer AtTake s = Inr (take_then consumer AtTest s)"
| "cosumer AtTest s = Inr (if resouce_count s = 0 then at consumer (Waiting False) (s\<lparr>rc_lock := cond_wait_release (rc_lock s)\<rparr>)
     else at consumer AtUnlock s)"
| "cosumer (Waiting signalled) s = Inr (take_then consumer AtTest s)"
| "cosumer AtUnlock s = Inr (at consumer AtGive (s\<lparr>rc_lock := unlock_clear (rc_lock s)\<rparr>))"
| "cosumer AtGive s = Inr (at consumer AtLoad (s\<lparr>rc_lock := unlock_give (rc_lock s)\<rparr>))"
| "cosumer AtLoad s = Inr (at consumer (AtStore (resouce_count s)) s)"
| "cosumer (AtStore v) s = rbind (int32 (v - 1)) (\<lambda>v'. Inr (at consumer AtLock (s\<lparr>resouce_count := v', consumed := Suc (consumed s)\<rparr>)))"
| "cosumer AtNotify s = Inr s"

text \<open>One turn of the loop of a producer.\<close>

fun producer :: "int \<Rightarrow> place \<Rightarrow> resource_state \<Rightarrow> resource_state res" where
  "producer t AtLock s = Inr (at t AtTake (s\<lparr>rc_lock := lock_note t (rc_lock s)\<rparr>))"
| "producer t AtTake s = Inr (take_then t AtLoad s)"
| "producer t AtLoad s = Inr (at t (AtStore (resouce_count s)) s)"
| "producer t (AtStore v) s = rbind (int32 (v + 1)) (\<lambda>v'. Inr (at t AtNotify (s\<lparr>resouce_count := v', produced := Suc (produced s)\<rparr>)))"
| "producer t AtNotify s = Inr (at t AtUnlock (cond_signal s))"
| "producer t AtUnlock s = Inr (at t AtGive (s\<lparr>rc_lock := unlock_clear (rc_lock s)\<rparr>))"
| "producer t AtGive s = Inr (at t AtLock (s\<lparr>rc_lock := unlock_give (rc_lock s)\<rparr>))"
| "producer t AtTest s = Inr s"
| "producer t (Waiting signalled) s = Inr s"

definition rc_move :: "int \<Rightarrow> resource_state \<Rightarrow> resource_state res" where
  "rc_move t s = (if t = consumer then cosumer (rc_place s t) s else if t \<in> set producers then producer t (rc_place s t) s else Inr s)"

fun rc_run :: "int list \<Rightarrow> resource_state \<Rightarrow> resource_state res" where
  "rc_run [] s = Inr s"
| "rc_run (t # ts) s = rbind (rc_move t s) (rc_run ts)"

lemma rc_run_append: "rc_run (ts @ us) s = rbind (rc_run ts s) (rc_run us)"
proof (induction ts arbitrary: s)
  case (Cons t ts)
  then show ?case by (cases "rc_move t s") simp_all
qed simp

section \<open>The mutex\<close>

text \<open>Where a thread is, as the mutex sees it.\<close>

definition mutex_place :: "int \<Rightarrow> place \<Rightarrow> mutex_pc" where
  "mutex_place t p =
     (case p of
        AtLock \<Rightarrow> Outside
      | AtTake \<Rightarrow> Entering
      | Waiting b \<Rightarrow> OnCondition
      | AtGive \<Rightarrow> Leaving
      | AtLoad \<Rightarrow> if t = consumer then Outside else Inside
      | AtStore v \<Rightarrow> if t = consumer then Outside else Inside
      | _ \<Rightarrow> Inside)"

definition rc_mutex :: "resource_state \<Rightarrow> mutex_state" where
  "rc_mutex s = \<lparr>mu_lock = rc_lock s, mu_pc = (\<lambda>t. mutex_place t (rc_place s t))\<rparr>"

lemma rc_mutex_fields [simp]: "mu_lock (rc_mutex s) = rc_lock s" "mu_pc (rc_mutex s) t = mutex_place t (rc_place s t)"
  by (simp_all add: rc_mutex_def)

lemma at_fields [simp]:
  "rc_place (at t p s) = (rc_place s)(t := p)" "rc_lock (at t p s) = rc_lock s" "resouce_count (at t p s) = resouce_count s"
  "produced (at t p s) = produced s" "consumed (at t p s) = consumed s"
  by (simp_all add: at_def)

lemma threads_apart [simp]: "consumer \<notin> set producers" "t \<in> set producers \<Longrightarrow> t \<noteq> consumer"
  by (auto simp: consumer_def producers_def)

section \<open>The invariant\<close>

text \<open>What a thread knows of the count where it is.\<close>

definition place_ok :: "int \<Rightarrow> resource_state \<Rightarrow> bool" where
  "place_ok t s \<longleftrightarrow>
     (case rc_place s t of
        AtLock \<Rightarrow> True
      | AtTake \<Rightarrow> True
      | AtTest \<Rightarrow> t = consumer
      | Waiting signalled \<Rightarrow> t = consumer \<and> (signalled \<or> resouce_count s = 0 \<or> (\<exists>p \<in> set producers. rc_place s p = AtNotify))
      | AtLoad \<Rightarrow> t = consumer \<longrightarrow> 1 \<le> resouce_count s
      | AtStore v \<Rightarrow> v \<le> int (produced s) \<and> (if t = consumer then 1 \<le> v else 0 \<le> v)
      | AtNotify \<Rightarrow> t \<in> set producers
      | AtUnlock \<Rightarrow> t = consumer \<longrightarrow> 1 \<le> resouce_count s
      | AtGive \<Rightarrow> t = consumer \<longrightarrow> 1 \<le> resouce_count s)"

definition rc_inv :: "resource_state \<Rightarrow> bool" where
  "rc_inv s \<longleftrightarrow> mutex_inv (rc_mutex s) \<and> 0 \<le> resouce_count s \<and> resouce_count s \<le> int (produced s)
     \<and> (\<forall>t. place_ok t s) \<and> (\<forall>t. t \<noteq> consumer \<and> t \<notin> set producers \<longrightarrow> rc_place s t = AtLock)"

lemma rc_inv_init: "rc_inv (rc_init creator)"
  by (simp add: rc_inv_def rc_init_def place_ok_def rc_mutex_def mutex_inv_def mutex_place_def MutexLock_new_def in_section_def)

text \<open>Every move is a step of the mutex, or none.\<close>

lemma mutex_same: "rc_lock s' = rc_lock s \<Longrightarrow> (\<And>t. mutex_place t (rc_place s' t) = mutex_place t (rc_place s t)) \<Longrightarrow> rc_mutex s' = rc_mutex s"
  by (simp add: rc_mutex_def)

lemma mutex_moved:
  "rc_lock s' = m \<Longrightarrow> (\<And>u. rc_place s' u = ((rc_place s)(t := p)) u)
     \<Longrightarrow> rc_mutex s' = (rc_mutex s)\<lparr>mu_lock := m, mu_pc := (mu_pc (rc_mutex s))(t := mutex_place t p)\<rparr>"
  by (auto simp: rc_mutex_def)

lemma take_mutex:
  assumes "mutex_place t (rc_place s t) = Entering \<or> mutex_place t (rc_place s t) = OnCondition" "mutex_place t p = Inside"
  shows "rc_mutex (take_then t p s) = rc_mutex s \<or> mutex_step (rc_mutex s) (rc_mutex (take_then t p s))"
proof (cases "lock_take t (rc_lock s)")
  case (Some m)
  then have "rc_mutex (take_then t p s) = (rc_mutex s)\<lparr>mu_lock := m, mu_pc := (mu_pc (rc_mutex s))(t := Inside)\<rparr>"
    using assms(2) by (subst mutex_moved [where t = t and p = p]) (simp_all add: take_then_def)
  then show ?thesis using assms(1) Some step_take [of "rc_mutex s" t m] step_woken [of "rc_mutex s" t m] by auto
qed (simp add: take_then_def)

lemma cond_signal_fields [simp]:
  "rc_lock (cond_signal s) = rc_lock s" "resouce_count (cond_signal s) = resouce_count s" "produced (cond_signal s) = produced s"
  "consumed (cond_signal s) = consumed s" "t \<noteq> consumer \<Longrightarrow> rc_place (cond_signal s) t = rc_place s t"
  "rc_place (cond_signal s) consumer = (case rc_place s consumer of Waiting b \<Rightarrow> Waiting True | p \<Rightarrow> p)"
  by (auto simp: cond_signal_def split: place.splits)

lemma take_fields [simp]:
  "resouce_count (take_then t p s) = resouce_count s" "produced (take_then t p s) = produced s" "consumed (take_then t p s) = consumed s"
  "u \<noteq> t \<Longrightarrow> rc_place (take_then t p s) u = rc_place s u"
  "rc_place (take_then t p s) t \<in> {rc_place s t, p}"
  by (auto simp: take_then_def split: option.splits)

lemma cosumer_mutex:
  assumes "cosumer (rc_place s consumer) s = Inr s'"
  shows "rc_mutex s' = rc_mutex s \<or> mutex_step (rc_mutex s) (rc_mutex s')"
proof -
  note m = mutex_moved [where t = consumer and s = s and s' = s']
  note steps = step_note [of "rc_mutex s" consumer] step_clear [of "rc_mutex s" consumer] step_give [of "rc_mutex s" consumer]
    step_wait [of "rc_mutex s" consumer]
  show ?thesis
  proof (cases "rc_place s consumer")
    case AtLock
    then show ?thesis using assms steps(1) m [where p = AtTake] by (auto simp: mutex_place_def)
  next
    case AtTake
    then show ?thesis using assms take_mutex [of consumer s AtTest] by (auto simp: mutex_place_def)
  next
    case AtTest
    then show ?thesis using assms steps(4) m [where p = "Waiting False"] mutex_same [of s' s] by (auto simp: mutex_place_def split: if_splits)
  next
    case (Waiting b)
    then show ?thesis using assms take_mutex [of consumer s AtTest] by (auto simp: mutex_place_def)
  next
    case AtUnlock
    then show ?thesis using assms steps(2) m [where p = AtGive] by (auto simp: mutex_place_def)
  next
    case AtGive
    then show ?thesis using assms steps(3) m [where p = AtLoad] by (auto simp: mutex_place_def)
  next
    case AtLoad
    then show ?thesis using assms by (intro disjI1 mutex_same) (auto simp: rbind_Inr_iff mutex_place_def)
  next
    case (AtStore v)
    then show ?thesis using assms by (intro disjI1 mutex_same) (auto simp: rbind_Inr_iff mutex_place_def)
  next
    case AtNotify
    then show ?thesis using assms by simp
  qed
qed

lemma producer_mutex:
  assumes t: "t \<in> set producers" and "producer t (rc_place s t) s = Inr s'"
  shows "rc_mutex s' = rc_mutex s \<or> mutex_step (rc_mutex s) (rc_mutex s')"
proof -
  note m = mutex_moved [where t = t and s = s and s' = s']
  note steps = step_note [of "rc_mutex s" t] step_clear [of "rc_mutex s" t] step_give [of "rc_mutex s" t]
  note n = threads_apart(2) [OF t]
  show ?thesis
  proof (cases "rc_place s t")
    case AtLock
    then show ?thesis using assms steps(1) m [where p = AtTake] by (auto simp: mutex_place_def)
  next
    case AtTake
    then show ?thesis using assms n take_mutex [of t s AtLoad] by (auto simp: mutex_place_def)
  next
    case AtUnlock
    then show ?thesis using assms steps(2) m [where p = AtGive] by (auto simp: mutex_place_def)
  next
    case AtGive
    then show ?thesis using assms steps(3) m [where p = AtLock] by (auto simp: mutex_place_def)
  next
    case AtLoad
    then show ?thesis using assms n by (intro disjI1 mutex_same) (auto simp: rbind_Inr_iff mutex_place_def)
  next
    case (AtStore v)
    then show ?thesis using assms n by (intro disjI1 mutex_same) (auto simp: rbind_Inr_iff mutex_place_def)
  next
    case AtNotify
    have "mutex_place u (rc_place s' u) = mutex_place u (rc_place s u)" for u
    proof (cases "u = consumer")
      case True
      then show ?thesis using assms AtNotify n by (cases "rc_place s consumer") (auto simp: mutex_place_def)
    next
      case False
      then show ?thesis using assms AtNotify n by (auto simp: mutex_place_def)
    qed
    then show ?thesis using assms AtNotify mutex_same [of s' s] by auto
  qed (use assms in simp_all)
qed

lemma rc_move_mutex: "rc_move t s = Inr s' \<Longrightarrow> rc_mutex s' = rc_mutex s \<or> mutex_step (rc_mutex s) (rc_mutex s')"
  using cosumer_mutex [of s s'] producer_mutex [of t s s'] by (auto simp: rc_move_def split: if_splits)

text \<open>A thread in the critical section is alone there.\<close>

lemma alone:
  "rc_inv s \<Longrightarrow> in_section (mutex_place t (rc_place s t)) \<Longrightarrow> in_section (mutex_place u (rc_place s u)) \<Longrightarrow> u = t"
  by (auto simp: rc_inv_def mutex_inv_def)

text \<open>What a thread knows does not depend on the moves of a thread that leaves the count alone.\<close>

lemma place_ok_frame:
  "place_ok u s \<Longrightarrow> rc_place s' u = rc_place s u \<Longrightarrow> resouce_count s' = resouce_count s \<Longrightarrow> produced s' = produced s
     \<Longrightarrow> (\<And>p. p \<in> set producers \<Longrightarrow> rc_place s p = AtNotify \<Longrightarrow> rc_place s' p = AtNotify) \<Longrightarrow> place_ok u s'"
  by (auto simp: place_ok_def split: place.splits)

lemma place_ok_producer:
  "u \<noteq> consumer \<Longrightarrow> place_ok u s \<Longrightarrow> rc_place s' u = rc_place s u \<Longrightarrow> produced s \<le> produced s' \<Longrightarrow> place_ok u s'"
  by (auto simp: place_ok_def split: place.splits)

definition counts_ok :: "resource_state \<Rightarrow> bool" where
  "counts_ok s \<longleftrightarrow> 0 \<le> resouce_count s \<and> resouce_count s \<le> int (produced s) \<and> (\<forall>t. place_ok t s)
     \<and> (\<forall>t. t \<noteq> consumer \<and> t \<notin> set producers \<longrightarrow> rc_place s t = AtLock)"

lemma cosumer_counts:
  assumes i: "counts_ok s" and m: "cosumer (rc_place s consumer) s = Inr s'"
  shows "counts_ok s' \<and> produced s' = produced s"
proof -
  have others: "u \<noteq> consumer \<Longrightarrow> rc_place s' u = rc_place s u" for u
    using m by (cases "rc_place s consumer") (auto simp: rbind_Inr_iff split: if_splits)
  have p: "produced s' = produced s" using m by (cases "rc_place s consumer") (auto simp: rbind_Inr_iff split: if_splits)
  have ok: "place_ok consumer s" and c: "0 \<le> resouce_count s" "resouce_count s \<le> int (produced s)" using i by (simp_all add: counts_ok_def)
  have own: "0 \<le> resouce_count s' \<and> resouce_count s' \<le> int (produced s') \<and> place_ok consumer s'"
  proof (cases "rc_place s consumer")
    case AtTake
    then show ?thesis using m c ok take_fields(5) [of consumer AtTest s] by (auto simp: place_ok_def)
  next
    case AtTest
    then show ?thesis using m c by (auto simp: place_ok_def split: if_splits)
  next
    case (Waiting b)
    then show ?thesis using m c ok take_fields(5) [of consumer AtTest s] by (auto simp: place_ok_def)
  next
    case (AtStore v)
    then show ?thesis using m c ok by (auto simp: place_ok_def rbind_Inr_iff int32_def rassert_Inr_iff split: if_splits)
  qed (use m c ok in \<open>auto simp: place_ok_def\<close>)
  have "place_ok u s'" for u
    using own place_ok_producer [of u s s'] others p i by (cases "u = consumer") (auto simp: counts_ok_def)
  moreover have "rc_place s' t = AtLock" if "t \<noteq> consumer" "t \<notin> set producers" for t
    using that others i by (simp add: counts_ok_def)
  ultimately show ?thesis using own p by (simp add: counts_ok_def)
qed

lemma producer_counts:
  assumes t: "t \<in> set producers" and i: "counts_ok s" and m: "producer t (rc_place s t) s = Inr s'"
  shows "counts_ok s' \<and> produced s' \<le> Suc (produced s)"
proof -
  have n: "t \<noteq> consumer" "consumer \<noteq> t" using threads_apart(2) [OF t] by auto
  have others: "u \<noteq> consumer \<Longrightarrow> u \<noteq> t \<Longrightarrow> rc_place s' u = rc_place s u" for u
    using m by (cases "rc_place s t") (auto simp: rbind_Inr_iff)
  have p: "produced s \<le> produced s' \<and> produced s' \<le> Suc (produced s)"
    using m by (cases "rc_place s t") (auto simp: rbind_Inr_iff)
  have ok: "place_ok t s" "place_ok consumer s" and c: "0 \<le> resouce_count s" "resouce_count s \<le> int (produced s)"
    using i by (simp_all add: counts_ok_def)
  have frame: "place_ok consumer s'" if "rc_place s t \<noteq> AtNotify" "resouce_count s' = resouce_count s" "produced s' = produced s"
  proof (rule place_ok_frame [OF ok(2) _ that(2,3)])
    show "rc_place s' consumer = rc_place s consumer"
      using m n that(1) by (cases "rc_place s t") (auto simp: rbind_Inr_iff)
    show "rc_place s' p = AtNotify" if "p \<in> set producers" "rc_place s p = AtNotify" for p
      using that others [of p] \<open>rc_place s t \<noteq> AtNotify\<close> by (cases "p = t") auto
  qed
  have own: "0 \<le> resouce_count s' \<and> resouce_count s' \<le> int (produced s') \<and> place_ok t s' \<and> place_ok consumer s'"
  proof (cases "rc_place s t")
    case AtTake
    have "place_ok consumer s'" using m AtTake by (intro frame) auto
    then show ?thesis using m c n AtTake take_fields(5) [of t AtLoad s] by (auto simp: place_ok_def)
  next
    case (AtStore v)
    then have s': "s' = at t AtNotify (s\<lparr>resouce_count := v + 1, produced := Suc (produced s)\<rparr>)" "0 \<le> v" "v \<le> int (produced s)"
      using m n ok(1) by (auto simp: rbind_Inr_iff int32_def place_ok_def split: if_splits)
    then have "place_ok consumer s'" using ok(2) n t by (cases "rc_place s consumer") (auto simp: place_ok_def)
    then show ?thesis using s' t n by (simp add: place_ok_def)
  next
    case AtNotify
    then have "place_ok consumer s'" using m ok(2) n by (cases "rc_place s consumer") (auto simp: place_ok_def)
    then show ?thesis using m c n AtNotify by (auto simp: place_ok_def)
  next
    case AtTest
    then show ?thesis using ok n by (simp add: place_ok_def)
  next
    case (Waiting b)
    then show ?thesis using ok n by (simp add: place_ok_def)
  next
    case AtLock
    have "place_ok consumer s'" using m AtLock by (intro frame) auto
    then show ?thesis using m c n AtLock by (auto simp: place_ok_def)
  next
    case AtLoad
    have "place_ok consumer s'" using m AtLoad by (intro frame) auto
    then show ?thesis using m c n AtLoad by (auto simp: place_ok_def)
  next
    case AtUnlock
    have "place_ok consumer s'" using m AtUnlock by (intro frame) auto
    then show ?thesis using m c n AtUnlock by (auto simp: place_ok_def)
  next
    case AtGive
    have "place_ok consumer s'" using m AtGive by (intro frame) auto
    then show ?thesis using m c n AtGive by (auto simp: place_ok_def)
  qed
  have "place_ok u s'" for u
    using own place_ok_producer [of u s s'] others p i by (cases "u = consumer \<or> u = t") (auto simp: counts_ok_def)
  moreover have "rc_place s' u = AtLock" if "u \<noteq> consumer" "u \<notin> set producers" for u
    using that others [of u] t i by (auto simp: counts_ok_def)
  ultimately show ?thesis using own p by (simp add: counts_ok_def)
qed

lemma rc_inv_counts: "rc_inv s \<longleftrightarrow> mutex_inv (rc_mutex s) \<and> counts_ok s"
  by (auto simp: rc_inv_def counts_ok_def)

lemma rc_inv_move:
  assumes "rc_inv s" "rc_move t s = Inr s'"
  shows "rc_inv s' \<and> produced s' \<le> Suc (produced s)"
proof -
  have "mutex_inv (rc_mutex s')" using rc_move_mutex [OF assms(2)] assms(1) mutex_inv_step by (auto simp: rc_inv_def)
  moreover have "counts_ok s' \<and> produced s' \<le> Suc (produced s)"
    using assms cosumer_counts [of s s'] producer_counts [of t s s'] by (auto simp: rc_move_def rc_inv_counts split: if_splits)
  ultimately show ?thesis by (simp add: rc_inv_counts)
qed

text \<open>No move faults as long as the count is far from the end of its type.\<close>

lemma rc_move_ok:
  assumes i: "rc_inv s" and n: "int (produced s) < 2 ^ 31 - 1"
  shows "\<exists>s'. rc_move t s = Inr s'"
proof -
  have ok: "place_ok t s" using i by (simp add: rc_inv_def)
  show ?thesis
  proof (cases "rc_place s t")
    case (AtStore v)
    then show ?thesis using ok n by (auto simp: rc_move_def place_ok_def int32_def in_int32_def split: if_splits)
  qed (auto simp: rc_move_def)
qed

lemma rc_run_ok:
  "rc_inv s \<Longrightarrow> int (produced s) + int (length ts) < 2 ^ 31 \<Longrightarrow> \<exists>s'. rc_run ts s = Inr s' \<and> rc_inv s'"
proof (induction ts arbitrary: s)
  case (Cons t ts)
  then have n: "int (produced s) < 2 ^ 31 - 1" by simp
  obtain d where d: "rc_move t s = Inr d" using rc_move_ok [OF Cons.prems(1) n, of t] by blast
  have i: "rc_inv d" "produced d \<le> Suc (produced s)" using rc_inv_move [OF Cons.prems(1) d] by auto
  have "int (produced d) + int (length ts) < 2 ^ 31" using i(2) Cons.prems(2) by simp
  from Cons.IH [OF i(1) this] show ?case using d by simp
qed simp

section \<open>The race\<close>

text \<open>The state in which one resource is counted and the consumer is about to take it.\<close>

definition one_counted :: "nat \<Rightarrow> nat \<Rightarrow> resource_state" where
  "one_counted p c = \<lparr>rc_lock = \<lparr>mx_owner = None, mx_holder = 0\<rparr>, resouce_count = 1,
     rc_place = (\<lambda>t. AtLock)(consumer := AtLoad), produced = p, consumed = c\<rparr>"

text \<open>Schedules: a resource is produced and the consumer passes; the addition is overtaken by the subtraction,
  whose effect is lost; the subtraction is overtaken by the addition.\<close>

definition first_schedule :: "int list" where "first_schedule = replicate 7 2 @ replicate 5 1"
definition phantom_schedule :: "int list" where
  "phantom_schedule = replicate 3 2 @ replicate 2 1 @ replicate 4 2 @ replicate 12 1"
definition loss_schedule :: "int list" where
  "loss_schedule = [1] @ replicate 7 2 @ [1] @ replicate 7 2 @ replicate 5 1"

lemmas schedule_simps = one_counted_def rc_move_def at_def take_then_def cond_signal_def lock_defs consumer_def producers_def
  int32_def in_int32_def numeral_eq_Suc fun_eq_iff

lemma first_run: "rc_run first_schedule (rc_init creator) = Inr (one_counted 1 0)"
  by (simp add: schedule_simps first_schedule_def rc_init_def MutexLock_new_def)

lemma phantom_run: "rc_run phantom_schedule (one_counted p c) = Inr (one_counted (p + 1) (c + 2))"
  by (simp add: schedule_simps phantom_schedule_def)

lemma loss_run: "rc_run loss_schedule (one_counted p c) = Inr (one_counted (p + 2) (c + 1))"
  by (simp add: schedule_simps loss_schedule_def)

lemma phantom_runs: "\<exists>ts. rc_run ts (one_counted p c) = Inr (one_counted (p + n) (c + 2 * n))"
proof (induction n)
  case 0
  show ?case by (intro exI [of _ "[]"]) simp
next
  case (Suc n)
  then obtain ts where "rc_run ts (one_counted p c) = Inr (one_counted (p + n) (c + 2 * n))" by blast
  then show ?case using phantom_run [of "p + n" "c + 2 * n"]
    by (intro exI [of _ "ts @ phantom_schedule"]) (simp add: rc_run_append)
qed

lemma loss_runs: "\<exists>ts. rc_run ts (one_counted p c) = Inr (one_counted (p + 2 * n) (c + n))"
proof (induction n)
  case 0
  show ?case by (intro exI [of _ "[]"]) simp
next
  case (Suc n)
  then obtain ts where "rc_run ts (one_counted p c) = Inr (one_counted (p + 2 * n) (c + n))" by blast
  then show ?case using loss_run [of "p + 2 * n" "c + n"]
    by (intro exI [of _ "ts @ loss_schedule"]) (simp add: rc_run_append)
qed

section \<open>Properties\<close>

text \<open>C32: What the consumer may rely on, in every interleaving of the three threads with fewer than 2 ^ 31 steps.
  No addition or subtraction overflows, the count never is negative, at most one thread is in its critical
  section, the consumer takes a resource only when one is counted, and no wakeup is lost: when it waits
  unsignalled and the mutex is free, no resource is counted.\<close>

theorem consumer_waits_safely:
  assumes "int (length ts) < 2 ^ 31"
  shows "\<exists>s. rc_run ts (rc_init creator) = Inr s \<and> 0 \<le> resouce_count s
    \<and> (\<forall>t u. in_section (mutex_place t (rc_place s t)) \<and> in_section (mutex_place u (rc_place s u)) \<longrightarrow> t = u)
    \<and> (rc_place s consumer = AtLoad \<longrightarrow> 1 \<le> resouce_count s)
    \<and> (rc_place s consumer = Waiting False \<and> mx_owner (rc_lock s) = None \<longrightarrow> resouce_count s = 0)"
proof -
  obtain s where s: "rc_run ts (rc_init creator) = Inr s" "rc_inv s"
    using rc_run_ok [OF rc_inv_init, of creator ts] assms by (auto simp: rc_init_def)
  have ok: "place_ok consumer s" and m: "mutex_inv (rc_mutex s)" using s(2) by (simp_all add: rc_inv_def)
  have "resouce_count s = 0" if w: "rc_place s consumer = Waiting False" "mx_owner (rc_lock s) = None"
  proof (rule ccontr)
    assume "resouce_count s \<noteq> 0"
    then obtain p where "p \<in> set producers" "rc_place s p = AtNotify" using ok w(1) by (auto simp: place_ok_def)
    then have "mu_pc (rc_mutex s) p = Inside" by (simp add: mutex_place_def)
    then show False using m w(2) by (auto simp: mutex_inv_def in_section_def)
  qed
  moreover have "rc_place s consumer = AtLoad \<longrightarrow> 1 \<le> resouce_count s" using ok by (auto simp: place_ok_def)
  moreover have "0 \<le> resouce_count s" using s(2) by (simp add: rc_inv_def)
  moreover have "in_section (mutex_place t (rc_place s t)) \<and> in_section (mutex_place u (rc_place s u)) \<longrightarrow> t = u" for t u
    using alone [OF s(2), of u t] by blast
  ultimately show ?thesis using s(1) by (intro exI [of _ s]) simp
qed

text \<open>The consumer waits, and a producer wakes it.\<close>

theorem consumer_waits_safely_witness:
  "\<exists>s. rc_run (replicate 3 1 @ replicate 5 2) (rc_init 0) = Inr s \<and> rc_place s consumer = Waiting True \<and> resouce_count s = 1"
proof -
  have "int (length (replicate 3 (1 :: int) @ replicate 5 2)) < 2 ^ 31" by simp
  from consumer_waits_safely [OF this, of 0] obtain s where s: "rc_run (replicate 3 1 @ replicate 5 2) (rc_init 0) = Inr s" by blast
  then have "rc_place s consumer = Waiting True \<and> resouce_count s = 1"
    by (simp add: schedule_simps rc_init_def MutexLock_new_def) auto
  with s show ?thesis by blast
qed

text \<open>C36: The subtraction outside the mutex is a race, and its damage has no bound: for every number there is an
  interleaving after which one resource is counted, the consumer is about to take it, and the resources
  produced and consumed differ by that number. A positive difference is resources that are lost, a
  negative one consumption of what was never produced.\<close>

theorem count_says_nothing:
  "\<exists>ts s. rc_run ts (rc_init creator) = Inr s \<and> resouce_count s = 1 \<and> rc_place s consumer = AtLoad
     \<and> int (produced s) - int (consumed s) = d"
proof (cases "d \<le> 1")
  case True
  obtain ts where "rc_run ts (one_counted 1 0) = Inr (one_counted (1 + nat (1 - d)) (0 + 2 * nat (1 - d)))" using phantom_runs by blast
  then show ?thesis using True first_run [of creator]
    by (intro exI [of _ "first_schedule @ ts"] exI [of _ "one_counted (1 + nat (1 - d)) (0 + 2 * nat (1 - d))"])
      (simp add: rc_run_append, simp add: one_counted_def)
next
  case False
  obtain ts where "rc_run ts (one_counted 1 0) = Inr (one_counted (1 + 2 * nat (d - 1)) (0 + nat (d - 1)))" using loss_runs by blast
  then show ?thesis using False first_run [of creator]
    by (intro exI [of _ "first_schedule @ ts"] exI [of _ "one_counted (1 + 2 * nat (d - 1)) (0 + nat (d - 1))"])
      (simp add: rc_run_append, simp add: one_counted_def)
qed

end
