(* ===== verification/Greetings.thy ===== *)
theory Greetings
  imports Programs HttpConnections
begin

text \<open>
  The servers of net/tests/wf_tcp_server_test.cc and net/tests/wf_sub_loops_test.cc, which answer each message
  with a greeting and a line feed alone with the end of the connection; from \<open>main\<close> to the wire, over
  several loops.
\<close>

section \<open>The programs\<close>

definition hello :: "char list" where "hello = ''Hello word!!!''"

definition greeting_program :: "write_result \<Rightarrow> program" where
  "greeting_program w e c =
     (case e of
        OnMessage t \<Rightarrow> [UTakeAll, if contents (tc_input c) = [CHR 0x0A] then UShutdown else USend hello w]
      | OnConnection \<Rightarrow> []
      | OnWriteComplete \<Rightarrow> [])"

text \<open>The two \<open>main\<close>s up to \<open>loop()\<close>, with the results of their system calls.\<close>

definition sub_loops_main :: "bool \<Rightarrow> int \<Rightarrow> int \<Rightarrow> int \<Rightarrow> Logger \<Rightarrow> (Logger \<times> TcpServer) res" where
  "sub_loops_main started sockfd bind_ret listen_ret logger =
     (let logger = setLoggerLevel TRACE logger; listenEndpoint = Endpoint_ip ''192.168.158.12'' 9981 in
      rbind (TcpServer_new started 0 listenEndpoint ''tcp_server'' sockfd bind_ret) (\<lambda>s.
      let s = srv_setWriteCompleteCallback (srv_setMessageCallback (srv_setConnectionCallback s)) in
      rbind (srv_setThreadNum True 4 s) (\<lambda>s.
      rbind (srv_start listen_ret s) (\<lambda>s. Inr (logger, s)))))"

definition tcp_server_test_main :: "bool \<Rightarrow> int \<Rightarrow> int \<Rightarrow> int \<Rightarrow> TcpServer res" where
  "tcp_server_test_main started sockfd bind_ret listen_ret =
     (let listenEndpoint = Endpoint_ip ''localhost'' 9981 in
      rbind (TcpServer_new started 0 listenEndpoint ''tcp_server'' sockfd bind_ret) (\<lambda>s.
      rbind (srv_setThreadNum True 3 s) (\<lambda>s.
      srv_start listen_ret (srv_setWriteCompleteCallback (srv_setMessageCallback (srv_setConnectionCallback s))))))"

text \<open>One pass of the loop for a connection that is readable: the read, then the functors it queued.\<close>

definition greeting_pass :: "Timestamp \<times> char list \<times> nat \<Rightarrow> TcpConnection \<Rightarrow> TcpConnection res" where
  "greeting_pass = (\<lambda>(t, bytes, n) c.
     rbind (handleRead (greeting_program (Wrote n)) close_at_once (ReadvBytes bytes) t c) (\<lambda>c.
     run_functors (greeting_program (Wrote n)) (\<lambda>f. Wrote n) (tc_functors c) (c\<lparr>tc_functors := []\<rparr>)))"

fun greeting_passes :: "(Timestamp \<times> char list \<times> nat) list \<Rightarrow> TcpConnection \<Rightarrow> TcpConnection res" where
  "greeting_passes [] c = Inr c"
| "greeting_passes (r # rs) c = rbind (greeting_pass r c) (greeting_passes rs)"

text \<open>What the peer gets for its messages.\<close>

definition greetings :: "char list list \<Rightarrow> char list" where
  "greetings ms = concat (List.map (\<lambda>m. hello) (takeWhile (\<lambda>m. m \<noteq> [CHR 0x0A]) ms))"

section \<open>One pass\<close>

definition greeting_ready :: "TcpConnection \<Rightarrow> bool" where
  "greeting_ready c \<longleftrightarrow> quiet c \<and> Buffer_inv (tc_input c) \<and> contents (tc_input c) = [] \<and> tc_functors c = [] \<and> tc_hasWriteComplete c"

lemma greeting_one:
  assumes c: "greeting_ready c" and b: "bytes \<noteq> []" "13 \<le> n"
  shows "\<exists>d. greeting_pass (t, bytes, n) c = Inr d \<and> greeting_ready d \<and> tc_fin d = (tc_fin c \<or> bytes = [CHR 0x0A])
    \<and> tc_sent d = tc_sent c @ (if tc_fin c \<or> bytes = [CHR 0x0A] then [] else hello)"
proof -
  obtain inp where r: "readFd (ReadvBytes bytes) (tc_input c) = Inr (int (length bytes), None, inp)" "Buffer_inv inp" "contents inp = bytes"
    using readFd_ok [of "tc_input c" bytes] c by (auto simp: greeting_ready_def)
  have a: "retrieveAllAsString inp = Inr (bytes, retrieveAll inp)" using retrieveAllAsString_ok [OF r(2)] r(3) by simp
  have e: "Buffer_inv (retrieveAll inp)" "contents (retrieveAll inp) = []"
    using r(2) by (simp_all add: Buffer_inv_retrieveAll contents_retrieveAll)
  have q: "\<not> tc_isWriting c" "readableBytes (tc_output c) = 0" "tc_hasMessage c" "tc_state c = (if tc_fin c then kDisconnecting else kConnected)"
    "tc_functors c = []" "tc_hasWriteComplete c"
    using c by (simp_all add: greeting_ready_def quiet_def)
  let ?c = "c\<lparr>tc_input := retrieveAll inp\<rparr>"
  have h: "handleRead (greeting_program (Wrote n)) close_at_once (ReadvBytes bytes) t c
      = user_step (if bytes = [CHR 0x0A] then UShutdown else USend hello (Wrote n)) ?c"
  proof -
    have "user_steps [] = Inr" by (rule ext) simp
    then show ?thesis using r(1,3) a b(1) q(3) by (simp add: handleRead_eq call_user_def greeting_program_def Let_def)
  qed
  have l: "length hello = 13" by (simp add: hello_def)
  show ?thesis
  proof (cases "tc_fin c")
    case True
    then have "user_step (if bytes = [CHR 0x0A] then UShutdown else USend hello (Wrote n)) ?c = Inr ?c"
      using q(4) by (simp add: tc_shutdown_def tc_send_def)
    then show ?thesis using h c e True q(5) by (simp add: greeting_pass_def greeting_ready_def quiet_def)
  next
    case False
    show ?thesis
    proof (cases "bytes = [CHR 0x0A]")
      case True
      then show ?thesis using h c e False q
        by (simp add: greeting_pass_def greeting_ready_def quiet_def tc_shutdown_def shutdownInLoop_def Let_def)
    next
      case m: False
      let ?d = "?c\<lparr>tc_sent := tc_sent c @ hello, tc_accepted := tc_accepted c @ [hello]\<rparr>"
      have "user_step (USend hello (Wrote n)) ?c = Inr (tc_queue WriteComplete ?d)"
        using q False l b(2) by (simp add: tc_send_def sendInLoop_def sys_write_def min_def Let_def)
      moreover have "run_functors (greeting_program w) ws [WriteComplete] x = Inr x" for w ws x
        by (simp add: call_user_def greeting_program_def)
      ultimately have "greeting_pass (t, bytes, n) c = Inr ?d"
        using h m q(5) by (simp add: greeting_pass_def tc_queue_def)
      then show ?thesis using c e False m by (simp add: greeting_ready_def quiet_def)
    qed
  qed
qed

abbreviation messages :: "(Timestamp \<times> char list \<times> nat) list \<Rightarrow> char list list" where
  "messages reads \<equiv> List.map (\<lambda>(t, bytes, n). bytes) reads"

lemma greeting_rounds:
  "greeting_ready c \<Longrightarrow> \<forall>(t, bytes, n) \<in> set reads. bytes \<noteq> [] \<and> 13 \<le> n \<Longrightarrow>
     \<exists>d. greeting_passes reads c = Inr d \<and> greeting_ready d \<and> tc_fin d = (tc_fin c \<or> [CHR 0x0A] \<in> set (messages reads))
       \<and> tc_sent d = tc_sent c @ (if tc_fin c then [] else greetings (messages reads))"
proof (induction reads arbitrary: c)
  case Nil
  then show ?case by (simp add: greetings_def)
next
  case (Cons r reads)
  obtain t bytes n where r: "r = (t, bytes, n)" by (cases r)
  then obtain d where d: "greeting_pass r c = Inr d" "greeting_ready d" "tc_fin d = (tc_fin c \<or> bytes = [CHR 0x0A])"
    "tc_sent d = tc_sent c @ (if tc_fin c \<or> bytes = [CHR 0x0A] then [] else hello)"
    using greeting_one [OF Cons.prems(1), of bytes n t] Cons.prems(2) by auto
  obtain e where e: "greeting_passes reads d = Inr e" "greeting_ready e" "tc_fin e = (tc_fin d \<or> [CHR 0x0A] \<in> set (messages reads))"
    "tc_sent e = tc_sent d @ (if tc_fin d then [] else greetings (messages reads))"
    using Cons.IH [OF d(2)] Cons.prems(2) by (metis (no_types, lifting) list.set_intros(2))
  have "greetings (bytes # messages reads) = (if bytes = [CHR 0x0A] then [] else hello @ greetings (messages reads))"
    by (simp add: greetings_def)
  then show ?case using d e r by (intro exI [of _ e]) auto
qed

section \<open>The servers the programs make\<close>

lemma new_greeting_ready:
  "tc_functors (accepted_conn (True, True, True) loop fd) = [EnableReadInLoop, ConnectEstablished] \<and>
   (\<exists>c. run_functors (greeting_program w) (\<lambda>f. w) [EnableReadInLoop, ConnectEstablished]
        ((accepted_conn (True, True, True) loop fd)\<lparr>tc_functors := []\<rparr>) = Inr c
     \<and> greeting_ready c \<and> tc_sent c = [] \<and> \<not> tc_fin c)"
  using Buffer_inv_init readable_zero [OF Buffer_inv_init]
  by (simp add: accepted_conn_def tc_queue_def srv_set_callbacks_def TcpConnection_new_def enableReadInLoop_def tc_interest_def
      connectEstablished_def call_user_def greeting_program_def greeting_ready_def quiet_def tc_isWriting_def ch_isWriting_def
      Channel_new_def set_index_def enableReading_def queue_simps Let_def)

lemma ready_in_order: "sl_loops (fold sl_thread_ready ls sl) = sl_loops sl @ ls \<and> sl_numThreads (fold sl_thread_ready ls sl) = sl_numThreads sl
    \<and> sl_next (fold sl_thread_ready ls sl) = sl_next sl"
  by (induction ls arbitrary: sl) (simp_all add: sl_thread_ready_def)

lemma sub_loops_main_ok:
  assumes "0 \<le> sockfd" "0 \<le> bind_ret" "0 \<le> listen_ret"
  shows "\<exists>s. sub_loops_main started sockfd bind_ret listen_ret logger = Inr (logger\<lparr>lg_level := TRACE\<rparr>, s)
    \<and> srv_callbacks s = (True, True, True) \<and> ac_listening (srv_acceptor s) \<and> srv_ipPort s = getIpPort (Endpoint_ip ''192.168.158.12'' 9981)
    \<and> objs s = [] \<and> srv_nextConnId s = 1 \<and> srv_name s = ''tcp_server''
    \<and> sl_numThreads (srv_subLoops s) = 4 \<and> sl_next (srv_subLoops s) = 0 \<and> sl_loops (srv_subLoops s) = []"
  using assms
  by (simp add: sub_loops_main_def TcpServer_new_def Acceptor_new_def createNonblocking_def sockets_bind_def srv_setThreadNum_def
      sl_setThreadNum_def srv_start_def ac_listen_def sockets_listen_def sl_start_def srv_setMessageCallback_def
      srv_setConnectionCallback_def srv_setWriteCompleteCallback_def setLoggerLevel_def SubLoops_new_def Let_def)

text \<open>A name is no address: the other program listens on every interface.\<close>

lemma localhost_is_every_interface:
  assumes "0 \<le> sockfd" "0 \<le> bind_ret" "0 \<le> listen_ret"
  shows "\<exists>s. tcp_server_test_main started sockfd bind_ret listen_ret = Inr s \<and> srv_ipPort s = getIpPort (Endpoint_port 9981)
    \<and> ac_listening (srv_acceptor s) \<and> sl_numThreads (srv_subLoops s) = 3"
proof -
  have "Endpoint_ip ''localhost'' 9981 = Endpoint_port 9981"
    by (simp add: Endpoint_ip_def Endpoint_port_def inet_pton_def dotted_part_def is_digit_def INADDR_ANY_def bswap32_def byte_of_def
        zero_addr_def Let_def)
  then show ?thesis using assms
    by (simp add: tcp_server_test_main_def TcpServer_new_def Acceptor_new_def createNonblocking_def sockets_bind_def srv_setThreadNum_def
      sl_setThreadNum_def srv_start_def ac_listen_def sockets_listen_def sl_start_def srv_setMessageCallback_def
      srv_setConnectionCallback_def srv_setWriteCompleteCallback_def SubLoops_new_def Let_def)
qed

section \<open>Properties\<close>

text \<open>C13: The greeting server over four loops, from \<open>main\<close> to the wire. When the system
  gives it a socket and the calls on it succeed, it listens on the address it names. When its four loops are
  ready, every connection is accepted (fewer than 2^31 - 1 of them) and gets a name of its own, the next
  loop in turn, starting with the second. Once its functors have run, and as long as each read is not empty
  and the system takes at least 13 bytes at each write, so that it takes every greeting whole, each message
  read is answered by one greeting, up to the first line feed alone, which shuts the connection down;
  nothing is sent after that, and the program goes on reading.\<close>

theorem greeting_server_serves:
  assumes "0 \<le> sockfd" and "0 \<le> bind_ret" and "0 \<le> listen_ret" and "length loops = 4" and "int (length peers) < 2 ^ 31 - 1"
    and "\<forall>(t, bytes, n) \<in> set reads. bytes \<noteq> [] \<and> 13 \<le> n"
  shows "\<exists>s s'. sub_loops_main started sockfd bind_ret listen_ret logger = Inr (logger\<lparr>lg_level := TRACE\<rparr>, s)
    \<and> ac_listening (srv_acceptor s) \<and> srv_ipPort s = getIpPort (Endpoint_ip ''192.168.158.12'' 9981)
    \<and> accept_all peers (s\<lparr>srv_subLoops := fold sl_thread_ready loops (srv_subLoops s)\<rparr>) = Inr s' \<and> length (objs s') = length peers
    \<and> (\<forall>i < length peers. \<exists>c c1 c2. objs s' ! i = Live (srv_conn_name ''tcp_server'' (int i + 1)) c
        \<and> ch_loop (tc_channel c) = loops ! ((i + 1) mod 4) \<and> ch_fd (tc_channel c) = fst (peers ! i)
        \<and> run_functors (greeting_program w) (\<lambda>f. w) (tc_functors c) (c\<lparr>tc_functors := []\<rparr>) = Inr c1
        \<and> greeting_passes reads c1 = Inr c2 \<and> tc_sent c2 = greetings (messages reads)
        \<and> (tc_fin c2 \<longleftrightarrow> [CHR 0x0A] \<in> set (messages reads)))"
proof -
  obtain s where s: "sub_loops_main started sockfd bind_ret listen_ret logger = Inr (logger\<lparr>lg_level := TRACE\<rparr>, s)"
    "srv_callbacks s = (True, True, True)" "ac_listening (srv_acceptor s)" "srv_ipPort s = getIpPort (Endpoint_ip ''192.168.158.12'' 9981)"
    "objs s = []" "srv_nextConnId s = 1" "srv_name s = ''tcp_server''"
    "sl_numThreads (srv_subLoops s) = 4" "sl_next (srv_subLoops s) = 0" "sl_loops (srv_subLoops s) = []"
    using sub_loops_main_ok [OF assms(1-3)] by blast
  let ?s = "s\<lparr>srv_subLoops := fold sl_thread_ready loops (srv_subLoops s)\<rparr>"
  have ready: "loops_ready (srv_subLoops ?s)" using ready_in_order assms(4) s(8-10) by (simp add: loops_ready_def)
  obtain s' where s': "accept_all peers ?s = Inr s'" "length (objs s') = length peers"
    "i < length peers \<Longrightarrow> objs s' ! i = Live (srv_conn_name ''tcp_server'' (int i + 1))
       (accepted_conn (True, True, True) (loops ! nat ((int i + 1) mod 4)) (fst (peers ! i)))" for i
    using accept_all_conns [OF ready, of peers] assms(5) s(2,5-10) ready_in_order by (auto simp: algebra_simps)
  have "\<exists>c c1 c2. objs s' ! i = Live (srv_conn_name ''tcp_server'' (int i + 1)) c
        \<and> ch_loop (tc_channel c) = loops ! ((i + 1) mod 4) \<and> ch_fd (tc_channel c) = fst (peers ! i)
        \<and> run_functors (greeting_program w) (\<lambda>f. w) (tc_functors c) (c\<lparr>tc_functors := []\<rparr>) = Inr c1
        \<and> greeting_passes reads c1 = Inr c2 \<and> tc_sent c2 = greetings (messages reads)
        \<and> (tc_fin c2 \<longleftrightarrow> [CHR 0x0A] \<in> set (messages reads))" if i: "i < length peers" for i
  proof -
    have "nat ((int i + 1) mod 4) = (i + 1) mod 4" by (simp add: nat_mod_as_int add.commute)
    then have o: "objs s' ! i = Live (srv_conn_name ''tcp_server'' (int i + 1)) (accepted_conn (True, True, True) (loops ! ((i + 1) mod 4)) (fst (peers ! i)))"
      using s'(3) [OF i] by simp
    let ?c = "accepted_conn (True, True, True) (loops ! ((i + 1) mod 4)) (fst (peers ! i))"
    obtain c1 where c1: "run_functors (greeting_program w) (\<lambda>f. w) (tc_functors ?c) (?c\<lparr>tc_functors := []\<rparr>) = Inr c1"
      "greeting_ready c1" "tc_sent c1 = []" "\<not> tc_fin c1"
      using new_greeting_ready [of "loops ! ((i + 1) mod 4)" "fst (peers ! i)" w] by auto
    obtain c2 where c2: "greeting_passes reads c1 = Inr c2" "tc_fin c2 = (tc_fin c1 \<or> [CHR 0x0A] \<in> set (messages reads))"
      "tc_sent c2 = tc_sent c1 @ (if tc_fin c1 then [] else greetings (messages reads))"
      using greeting_rounds [OF c1(2) assms(6)] by blast
    have "tc_sent c2 = greetings (messages reads)" "tc_fin c2 \<longleftrightarrow> [CHR 0x0A] \<in> set (messages reads)"
      using c1(3,4) c2(2,3) by simp_all
    moreover have "ch_loop (tc_channel ?c) = loops ! ((i + 1) mod 4)" "ch_fd (tc_channel ?c) = fst (peers ! i)"
      by (simp_all add: accepted_conn_def tc_queue_def srv_set_callbacks_def TcpConnection_new_def Channel_new_def)
    ultimately show ?thesis using o c1(1) c2(1) by blast
  qed
  then show ?thesis using s(1,3,4) s'(1,2) by blast
qed

theorem greeting_server_serves_witness:
  "\<exists>s s' c c1 c2. sub_loops_main False 3 0 0 g_logger = Inr (g_logger\<lparr>lg_level := TRACE\<rparr>, s)
    \<and> accept_all [(7, zero_addr), (8, zero_addr)] (s\<lparr>srv_subLoops := fold sl_thread_ready [10, 11, 12, 13] (srv_subLoops s)\<rparr>) = Inr s'
    \<and> objs s' ! 1 = Live (srv_conn_name ''tcp_server'' 2) c \<and> ch_loop (tc_channel c) = 12
    \<and> run_functors (greeting_program (Wrote 0)) (\<lambda>f. Wrote 0) (tc_functors c) (c\<lparr>tc_functors := []\<rparr>) = Inr c1
    \<and> greeting_passes [(Timestamp 1, ''hi'', 20), (Timestamp 2, [CHR 0x0A], 20), (Timestamp 3, ''hi'', 20)] c1 = Inr c2
    \<and> tc_sent c2 = ''Hello word!!!'' \<and> tc_fin c2"
proof -
  let ?reads = "[(Timestamp 1, ''hi'', 20 :: nat), (Timestamp 2, [CHR 0x0A], 20), (Timestamp 3, ''hi'', 20)]"
  have r: "\<forall>(t, bytes, n) \<in> set ?reads. bytes \<noteq> [] \<and> 13 \<le> n" by simp
  have g: "greetings (messages ?reads) = ''Hello word!!!''" "[CHR 0x0A] \<in> set (messages ?reads)" by (simp_all add: greetings_def hello_def)
  let ?conn = "\<lambda>s' i. \<exists>c c1 c2. objs s' ! i = Live (srv_conn_name ''tcp_server'' (int i + 1)) c
        \<and> ch_loop (tc_channel c) = [10, 11, 12, 13] ! ((i + 1) mod 4) \<and> ch_fd (tc_channel c) = fst ([(7, zero_addr), (8, zero_addr)] ! i)
        \<and> run_functors (greeting_program (Wrote 0)) (\<lambda>f. Wrote 0) (tc_functors c) (c\<lparr>tc_functors := []\<rparr>) = Inr c1
        \<and> greeting_passes ?reads c1 = Inr c2 \<and> tc_sent c2 = greetings (messages ?reads)
        \<and> (tc_fin c2 \<longleftrightarrow> [CHR 0x0A] \<in> set (messages ?reads))"
  have "\<exists>s s'. sub_loops_main False 3 0 0 g_logger = Inr (g_logger\<lparr>lg_level := TRACE\<rparr>, s)
    \<and> ac_listening (srv_acceptor s) \<and> srv_ipPort s = getIpPort (Endpoint_ip ''192.168.158.12'' 9981)
    \<and> accept_all [(7, zero_addr), (8, zero_addr)] (s\<lparr>srv_subLoops := fold sl_thread_ready [10, 11, 12, 13] (srv_subLoops s)\<rparr>) = Inr s'
    \<and> length (objs s') = length [(7 :: int, zero_addr), (8, zero_addr)]
    \<and> (\<forall>i < length [(7 :: int, zero_addr), (8, zero_addr)]. ?conn s' i)"
    by (rule greeting_server_serves [OF _ _ _ _ _ r]) simp_all
  then obtain s s' where s: "sub_loops_main False 3 0 0 g_logger = Inr (g_logger\<lparr>lg_level := TRACE\<rparr>, s)"
    "accept_all [(7, zero_addr), (8, zero_addr)] (s\<lparr>srv_subLoops := fold sl_thread_ready [10, 11, 12, 13] (srv_subLoops s)\<rparr>) = Inr s'"
    and all: "\<forall>i < length [(7 :: int, zero_addr), (8, zero_addr)]. ?conn s' i"
    by (elim exE conjE) (rule that)
  have "(1 :: nat) < length [(7 :: int, zero_addr), (8, zero_addr)]" by simp
  with all have "?conn s' 1" by blast
  then obtain c c1 c2 where c: "objs s' ! 1 = Live (srv_conn_name ''tcp_server'' (int 1 + 1)) c"
    "ch_loop (tc_channel c) = [10, 11, 12, 13] ! ((1 + 1) mod 4)"
    "run_functors (greeting_program (Wrote 0)) (\<lambda>f. Wrote 0) (tc_functors c) (c\<lparr>tc_functors := []\<rparr>) = Inr c1"
    "greeting_passes ?reads c1 = Inr c2" "tc_sent c2 = greetings (messages ?reads)" "tc_fin c2 \<longleftrightarrow> [CHR 0x0A] \<in> set (messages ?reads)"
    by (elim exE conjE) (rule that)
  have "objs s' ! 1 = Live (srv_conn_name ''tcp_server'' 2) c" using c(1) by simp
  moreover have "ch_loop (tc_channel c) = 12" using c(2) by simp
  moreover have "tc_sent c2 = ''Hello word!!!''" using c(5) unfolding g(1) .
  moreover have "tc_fin c2" using c(6) g(2) by (rule iffD2)
  ultimately show ?thesis using s c(3,4)
    by (intro exI [of _ s] exI [of _ s'] exI [of _ c] exI [of _ c1] exI [of _ c2] conjI)
qed

end
