(* ===== verification/PageServers.thy ===== *)
theory PageServers
  imports HttpConnections
begin

text \<open>
  The web server of net/http/tests/wf_http_server_test.cc: its handler, its \<open>main\<close>, and what its clients get.
  The files it serves and the time at which it handles a request are parameters.
\<close>

section \<open>The program\<close>

text \<open>The bytes a stream reads from a file; none when it cannot be opened.\<close>

definition stream_contents :: "(char list \<Rightarrow> char list option) \<Rightarrow> char list \<Rightarrow> char list" where
  "stream_contents files path = (case files path of Some bytes \<Rightarrow> bytes | None \<Rightarrow> [])"

definition page_onRequest ::
  "(int \<Rightarrow> tm) \<Rightarrow> (HttpRequest \<Rightarrow> Timestamp) \<Rightarrow> (char list \<Rightarrow> char list option) \<Rightarrow> HttpCallback" where
  "page_onRequest gmtime clock files req resp =
     (if req_path req = ''/'' then
        let resp = setStatusCode k200ok resp;
            resp = setStatusMessage ''OK'' resp;
            resp = setContentType ''text/html'' resp;
            resp = addResponseHeader ''Server'' ''Winterfell'' resp;
            now = ts_toFormattedString gmtime True (clock req)
        in setBody (''<html><head><title>This is title</title></head>'' @ ''<body><h1>Hello</h1>Now is '' @ now @ ''</body></html>'') resp
      else if req_path req = ''/image'' then
        let resp = setContentType ''image/png'' (setStatusMessage ''OK'' (setStatusCode k200ok resp))
        in setBody (stream_contents files ''image/dog.png'') resp
      else if req_path req = ''/video'' then
        let resp = setContentType ''video/mp4'' (setStatusMessage ''OK'' (setStatusCode k200ok resp))
        in setBody (stream_contents files ''video/cat.mp4'') resp
      else
        setCloseConnection True (setStatusMessage ''Not Found'' (setStatusCode k404NotFound resp)))"

text \<open>\<open>main\<close> up to \<open>loop()\<close>, with the results of its system calls.\<close>

definition page_main ::
  "(int \<Rightarrow> tm) \<Rightarrow> (HttpRequest \<Rightarrow> Timestamp) \<Rightarrow> (char list \<Rightarrow> char list option) \<Rightarrow> bool \<Rightarrow> int \<Rightarrow> int \<Rightarrow> int \<Rightarrow> HttpServer res" where
  "page_main gmtime clock files started sockfd bind_ret listen_ret =
     rbind (HttpServer_new started 0 (Endpoint_port 8000) ''dummy'' sockfd bind_ret) (\<lambda>server.
     let server = hs_setHttpCallback (page_onRequest gmtime clock files) server in
     rbind (hs_setThreadNum True 4 server) (hs_start listen_ret))"

section \<open>What a path stands for\<close>

definition page :: "char list \<Rightarrow> (char list \<Rightarrow> char list option) \<Rightarrow> char list \<Rightarrow> HttpStatusCode \<times> char list" where
  "page now files path =
     (if path = ''/'' then (k200ok, ''<html><head><title>This is title</title></head><body><h1>Hello</h1>Now is '' @ now @ ''</body></html>'')
      else if path = ''/image'' then (k200ok, stream_contents files ''image/dog.png'')
      else if path = ''/video'' then (k200ok, stream_contents files ''video/cat.mp4'')
      else (k404NotFound, []))"

text \<open>The responses that are sent: none after the first that closes.\<close>

fun until_close :: "HttpResponse list \<Rightarrow> HttpResponse list" where
  "until_close [] = []"
| "until_close (r # rs) = r # (if rs_closeConnection r then [] else until_close rs)"

lemma wire_until_close:
  "wire (concat (List.map (\<lambda>r. Send (response_bytes r) # (if rs_closeConnection r then [Shutdown] else [])) rs))
     = concat (List.map response_bytes (until_close rs))"
  by (induction rs) auto

lemma page_answer:
  fixes files clock gmtime q close
  defines "r \<equiv> page_onRequest gmtime clock files q (HttpResponse_new close)"
    and "pg \<equiv> page (ts_toFormattedString gmtime True (clock q)) files (req_path q)"
  shows "rs_statusCode r = fst pg" "rs_body r = snd pg" "rs_closeConnection r \<longleftrightarrow> close \<or> fst pg = k404NotFound"
  by (simp_all add: r_def pg_def page_onRequest_def page_def setStatusCode_def setStatusMessage_def setContentType_def addResponseHeader_def
      setBody_def setCloseConnection_def HttpResponse_new_def Let_def)

lemma page_small_bodies:
  assumes "\<forall>path bytes. files path = Some bytes \<longrightarrow> length bytes < 10 ^ 13"
  shows "small_bodies (page_onRequest gmtime clock files)"
proof -
  have f: "length (stream_contents files path) < 10 ^ 13" for path
    using assms by (auto simp: stream_contents_def split: option.splits)
  have l: "length (ts_toFormattedString gmtime True t) < 64" for t
    by (simp add: ts_toFormattedString_def snprintf_buf_def Let_def)
  have "length (snd (page (ts_toFormattedString gmtime True t) files path)) < 10 ^ 13" for t path
    using f l [of t] by (simp add: page_def)
  then show ?thesis by (simp add: small_bodies_def page_answer(2))
qed

lemma page_main_ok:
  assumes "0 \<le> sockfd" "0 \<le> bind_ret" "0 \<le> listen_ret"
  shows "\<exists>server. page_main gmtime clock files started sockfd bind_ret listen_ret = Inr server
    \<and> hs_httpCallback server = page_onRequest gmtime clock files \<and> ac_listening (srv_acceptor (hs_server server))
    \<and> srv_ipPort (hs_server server) = getIpPort (Endpoint_port 8000) \<and> sl_threads (srv_subLoops (hs_server server)) = 4"
proof -
  obtain s where s: "HttpServer_new started 0 (Endpoint_port 8000) ''dummy'' sockfd bind_ret = Inr s"
    "\<not> ac_listening (srv_acceptor (hs_server s))" "srv_subLoops (hs_server s) = SubLoops_new"
    "srv_ipPort (hs_server s) = getIpPort (Endpoint_port 8000)"
    using assms(1,2) by (simp add: HttpServer_new_def TcpServer_new_def Acceptor_new_def createNonblocking_def sockets_bind_def
        srv_setMessageCallback_def srv_setConnectionCallback_def)
  let ?cb = "page_onRequest gmtime clock files"
  obtain t where t: "hs_setThreadNum True 4 (hs_setHttpCallback ?cb s) = Inr t" "hs_httpCallback t = ?cb"
    "\<not> ac_listening (srv_acceptor (hs_server t))" "srv_subLoops (hs_server t) = SubLoops_new\<lparr>sl_numThreads := 4\<rparr>"
    "srv_ipPort (hs_server t) = getIpPort (Endpoint_port 8000)"
    using s(2-4) by (simp add: hs_setThreadNum_def hs_setHttpCallback_def srv_setThreadNum_def sl_setThreadNum_def SubLoops_new_def)
  obtain u where "hs_start listen_ret t = Inr u" "hs_httpCallback u = ?cb" "ac_listening (srv_acceptor (hs_server u))"
    "srv_ipPort (hs_server u) = getIpPort (Endpoint_port 8000)" "sl_threads (srv_subLoops (hs_server u)) = 4"
    using t(2-5) assms(3) by (cases "srv_started (hs_server t)")
      (simp_all add: hs_start_def srv_start_def ac_listen_def sockets_listen_def sl_start_def SubLoops_new_def Let_def)
  then show ?thesis using s(1) t(1) by (simp add: page_main_def Let_def)
qed

section \<open>Properties\<close>

text \<open>C23: The web server, from \<open>main\<close> to the wire. When the system gives it a socket and
  the calls on it succeed, \<open>main\<close> leaves a server that listens on port 8000 and whose callback
  is its handler. The conditions: each request is well formed and arrives in reads of its own, cut anywhere,
  none of them empty and none with bytes of two requests; the files are below 10^13 bytes; and the system
  takes every answer whole. On a new connection a series of such requests is answered in order, each by the
  page its path stands for: the greeting with the time, the image, the video, or status 404, which closes.
  What is on the wire are the responses up to the first that closes, byte for byte, and the connection is
  shut down exactly if there is one.\<close>

theorem page_server_serves:
  assumes "0 \<le> sockfd" and "0 \<le> bind_ret" and "0 \<le> listen_ret" and "http_ready h" and "\<forall>rq \<in> set rqs. sends_request rq"
    and "\<forall>path bytes. files path = Some bytes \<longrightarrow> length bytes < 10 ^ 13"
    and "\<forall>q close. length (response_bytes (page_onRequest gmtime clock files q (HttpResponse_new close))) \<le> n"
  shows "\<exists>server h' resps. page_main gmtime clock files started sockfd bind_ret listen_ret = Inr server
    \<and> ac_listening (srv_acceptor (hs_server server)) \<and> srv_ipPort (hs_server server) = getIpPort (Endpoint_port 8000)
    \<and> http_conn_reads (hs_httpCallback server) (List.map (\<lambda>(t, bytes). (t, bytes, n)) (all_reads rqs)) h = Some (Inr h')
    \<and> list_all2 (\<lambda>(r, hs, reads) resp. \<exists>t. (rs_statusCode resp, rs_body resp) = page (ts_toFormattedString gmtime True t) files (req_path r)
         \<and> (rs_statusCode resp = k404NotFound \<longrightarrow> rs_closeConnection resp)) rqs resps
    \<and> tc_sent (hc_conn h') = tc_sent (hc_conn h) @ concat (List.map response_bytes (until_close resps))
    \<and> (tc_fin (hc_conn h') \<longleftrightarrow> (\<exists>resp \<in> set resps. rs_closeConnection resp))"
proof -
  let ?cb = "page_onRequest gmtime clock files"
  obtain server where server: "page_main gmtime clock files started sockfd bind_ret listen_ret = Inr server" "hs_httpCallback server = ?cb"
    "ac_listening (srv_acceptor (hs_server server))" "srv_ipPort (hs_server server) = getIpPort (Endpoint_port 8000)"
    using page_main_ok [OF assms(1-3)] by blast
  obtain qs h' where h': "http_conn_reads ?cb (List.map (\<lambda>(t, bytes). (t, bytes, n)) (all_reads rqs)) h = Some (Inr h')"
    "list_all2 received rqs qs" "tc_sent (hc_conn h') = tc_sent (hc_conn h) @ wire (concat (List.map (answer ?cb) qs))"
    "tc_fin (hc_conn h') \<longleftrightarrow> (\<exists>q \<in> set qs. Shutdown \<in> set (answer ?cb q))"
    using http_conversation_ok [OF page_small_bodies [OF assms(6)] assms(4,5,7)] by blast
  let ?resp = "\<lambda>q. ?cb q (HttpResponse_new (wants_close q))"
  have a: "answer ?cb = (\<lambda>r. Send (response_bytes r) # (if rs_closeConnection r then [Shutdown] else [])) \<circ> ?resp"
    by (rule ext) (simp add: answer_def Let_def)
  have "wire (concat (List.map (answer ?cb) qs)) = concat (List.map response_bytes (until_close (List.map ?resp qs)))"
    unfolding a List.map_map [symmetric] by (rule wire_until_close)
  moreover have "(\<exists>q \<in> set qs. Shutdown \<in> set (answer ?cb q)) \<longleftrightarrow> (\<exists>resp \<in> set (List.map ?resp qs). rs_closeConnection resp)"
    by (auto simp: a)
  moreover have "list_all2 (\<lambda>(r, hs, reads) resp. \<exists>t. (rs_statusCode resp, rs_body resp) = page (ts_toFormattedString gmtime True t) files (req_path r)
      \<and> (rs_statusCode resp = k404NotFound \<longrightarrow> rs_closeConnection resp)) rqs (List.map ?resp qs)"
    unfolding list.rel_map
  proof (rule list_all2_mono [OF h'(2)])
    fix rq q
    assume "received rq q"
    then show "(\<lambda>(r, hs, reads) resp. \<exists>t. (rs_statusCode resp, rs_body resp) = page (ts_toFormattedString gmtime True t) files (req_path r)
      \<and> (rs_statusCode resp = k404NotFound \<longrightarrow> rs_closeConnection resp)) rq (?resp q)"
      using page_answer [of gmtime clock files q "wants_close q"]
      by (cases rq) (auto simp: received_def intro!: exI [of _ "clock q"])
  qed
  ultimately show ?thesis using server h'(1,3,4)
    by (intro exI [of _ server] exI [of _ h'] exI [of _ "List.map ?resp qs"]) simp
qed

text \<open>An image of three bytes.\<close>

lemma length_response:
  assumes "length (rs_body r) < 10 ^ 13"
  shows "length (response_bytes r) \<le> 100 + length (rs_statusMessage r) + length (concat (List.map header_line (rs_headers r))) + length (rs_body r)"
  using length_dec_status [of "rs_statusCode r"] length_dec_le [of "length (rs_body r)" 13] assms
  by (simp add: response_bytes_def status_line_def sent_headers_def header_line_def kCRLF_def)

definition example_tm :: tm where
  "example_tm = \<lparr>tm_year = 123, tm_mon = 1, tm_mday = 25, tm_hour = 15, tm_min = 48, tm_sec = 39\<rparr>"

definition example_files :: "char list \<Rightarrow> char list option" where
  "example_files path = (if path = ''image/dog.png'' then Some ''PNG'' else None)"

definition path_request :: "char list \<Rightarrow> HttpRequest" where
  "path_request path = HttpRequest_new\<lparr>req_method := kGet, req_path := path, req_version := kHttp11\<rparr>"

definition example_page :: "HttpRequest \<Rightarrow> bool \<Rightarrow> HttpResponse" where
  "example_page q close = page_onRequest (\<lambda>s. example_tm) (\<lambda>q. Timestamp 7250000) example_files q (HttpResponse_new close)"

lemma example_page_lengths: "length (response_bytes (example_page q close)) \<le> 400"
proof -
  let ?r = "example_page q close" and ?now = "ts_toFormattedString (\<lambda>s. example_tm) True (Timestamp 7250000)"
  have now: "length ?now < 64" by (simp add: ts_toFormattedString_def snprintf_buf_def Let_def)
  have "length (rs_body ?r) + length (rs_statusMessage ?r) + length (concat (List.map header_line (rs_headers ?r))) \<le> 300"
    using now by (simp add: example_page_def page_onRequest_def setStatusCode_def setStatusMessage_def setContentType_def addResponseHeader_def
        setBody_def setCloseConnection_def HttpResponse_new_def stream_contents_def example_files_def header_line_def kCRLF_def Let_def)
  then show ?thesis using length_response [of ?r] by simp
qed

theorem page_server_serves_witness:
  "\<exists>server h h' resp. page_main (\<lambda>s. example_tm) (\<lambda>q. Timestamp 7250000) example_files False 3 0 0 = Inr server
    \<and> http_conn_reads (hs_httpCallback server) [(Timestamp 1, ''GET /im'', 400), (Timestamp 2, ''age HTTP/1.1'' @ kCRLF @ kCRLF, 400)] h = Some (Inr h')
    \<and> tc_sent (hc_conn h) = [] \<and> tc_sent (hc_conn h') = response_bytes resp \<and> rs_statusCode resp = k200ok \<and> rs_body resp = ''PNG''"
proof -
  let ?reads = "[(Timestamp 1, ''GET /im''), (Timestamp 2, ''age HTTP/1.1'' @ kCRLF @ kCRLF)]"
  obtain h where h: "http_ready h" "tc_sent (hc_conn h) = []" using new_connection_ready [of 0 5] by blast
  have "wf_request (path_request ''/image'')" by (simp add: wf_request_def path_request_def HttpRequest_new_def)
  moreover have "concat (List.map snd ?reads) = print_request (path_request ''/image'') []" by code_simp
  ultimately have r: "\<forall>rq \<in> set [(path_request ''/image'', [], ?reads)]. sends_request rq" by (simp add: sends_request_def)
  have f: "\<forall>path bytes. example_files path = Some bytes \<longrightarrow> length bytes < 10 ^ 13" by (simp add: example_files_def)
  have n: "\<forall>q close. length (response_bytes (page_onRequest (\<lambda>s. example_tm) (\<lambda>q. Timestamp 7250000) example_files q (HttpResponse_new close))) \<le> 400"
    using example_page_lengths unfolding example_page_def by blast
  have pg: "page now example_files ''/image'' = (k200ok, ''PNG'')" for now
    by (simp add: page_def stream_contents_def example_files_def)
  have "(0 :: int) \<le> 3" "(0 :: int) \<le> 0" by simp_all
  from page_server_serves [OF this this(2) h(1) r f n, where started = False]
  obtain server h' resps where w: "page_main (\<lambda>s. example_tm) (\<lambda>q. Timestamp 7250000) example_files False 3 0 0 = Inr server"
    "http_conn_reads (hs_httpCallback server) (List.map (\<lambda>(t, bytes). (t, bytes, 400)) (all_reads [(path_request ''/image'', [], ?reads)])) h = Some (Inr h')"
    "list_all2 (\<lambda>(r, hs, reads) resp. \<exists>t. (rs_statusCode resp, rs_body resp) = page (ts_toFormattedString (\<lambda>s. example_tm) True t) example_files (req_path r)
         \<and> (rs_statusCode resp = k404NotFound \<longrightarrow> rs_closeConnection resp)) [(path_request ''/image'', [] :: (char list \<times> char list) list, ?reads)] resps"
    "tc_sent (hc_conn h') = tc_sent (hc_conn h) @ concat (List.map response_bytes (until_close resps))"
    by blast
  from w(3) obtain resp where "resps = [resp]" "rs_statusCode resp = k200ok" "rs_body resp = ''PNG''"
    by (auto simp: list_all2_Cons1 path_request_def pg)
  moreover have "List.map (\<lambda>(t, bytes). (t, bytes, 400 :: nat)) (all_reads [(path_request ''/image'', [], ?reads)])
      = [(Timestamp 1, ''GET /im'', 400), (Timestamp 2, ''age HTTP/1.1'' @ kCRLF @ kCRLF, 400)]"
    by (simp add: all_reads_def)
  ultimately show ?thesis using w(1,2,4) h(2)
    by (intro exI [of _ server] exI [of _ h] exI [of _ h'] exI [of _ resp]) simp
qed

end
