(* ===== verification/SelfTests.thy ===== *)
theory SelfTests
  imports Programs TimerQueues
begin

text \<open>
  Three of the repository's test programs, run to their end on the model: net/tests/wf_buffer_test.cc,
  base/tests/wf_rate_test.cc and net/tests/wf_timer_queue_test.cc. Every reading of the clock is an input.
\<close>

section \<open>The test of the buffer\<close>

text \<open>The results of the expectations, in order; one that fails is reported and the test goes on.\<close>

definition testBufferAppendRetrieve :: "bool list res" where
  "testBufferAppendRetrieve =
     rbind Buffer_new (\<lambda>buf.
     let e1 = [readableBytes buf = 0, writableBytes buf = kInitialSize, prependableBytes buf = kCheapPrepend];
         str = replicate 200 (CHR ''x'') in
     rbind (append_buf str buf) (\<lambda>buf.
     let e2 = [readableBytes buf = int (length str), writableBytes buf = kInitialSize - int (length str),
           prependableBytes buf = kCheapPrepend] in
     rbind (retrieveAsString 50 buf) (\<lambda>(str2, buf).
     Inr (e1 @ e2 @ [length str2 = 50, readableBytes buf = int (length str) - int (length str2),
       writableBytes buf = kInitialSize - int (length str), prependableBytes buf = kCheapPrepend + int (length str2),
       str2 = replicate 50 (CHR ''x'')]))))"

lemma buffer_test_passes: "testBufferAppendRetrieve = Inr (replicate 11 True)"
  by code_simp

section \<open>The test of the rate limiter\<close>

text \<open>The delays it prints, and the time it sleeps.\<close>

definition rate_test_main :: "(nat \<Rightarrow> int) \<Rightarrow> int list res" where
  "rate_test_main clk =
     (let now = (\<lambda>i. Timestamp (clk i)) in
      rbind (cast_int64 (rnd (rnd (1 / 10) * of_int kMicroSecondsPerSecond))) (\<lambda>us.
      let limiter = Limiter_new (Every (Timestamp us)) 2 in
      rbind (reserveN 3 (now 0) (now 1) limiter) (\<lambda>(reserv, limiter).
      rassert (\<not> rv_ok reserv) (
      rbind (reserve (now 2) (now 3) limiter) (\<lambda>(reserv, limiter).
      rassert (rv_ok reserv) (
      rbind (delay (now 4) reserv) (\<lambda>d.
      rassert (secondsSinceEpoch d = 0) (
      rbind (delay (now 5) reserv) (\<lambda>d1.
      rbind (reserveN 2 (now 6) (now 7) limiter) (\<lambda>(reserv, limiter).
      rbind (delay (now 8) reserv) (\<lambda>d2.
      rbind (delay (now 9) reserv) (\<lambda>pause.
      rbind (reserveN 2 (now 10) (now 11) limiter) (\<lambda>(reserv, limiter).
      rbind (delay (now 12) reserv) (\<lambda>d3.
      Inr (List.map microSecondsSinceEpoch [d1, d2, pause, d3])))))))))))))))"

text \<open>The limiter of the test, whatever the time of its last reservation.\<close>

definition test_limiter :: "int \<Rightarrow> Limiter" where
  "test_limiter l = setLast (Timestamp l) (Limiter_new 10 2)"

lemma duration_of_test:
  assumes "0 < y" "y \<le> of_int n" "0 \<le> n" "n \<le> 3"
  shows "\<exists>us. durationFromTokens 10 y = Inr (Timestamp us) \<and> 0 \<le> us \<and> us \<le> 100000 * n"
proof -
  let ?us = "trunc (rnd (rnd (y / 10) * 1000000))"
  have "0 \<le> rnd (y / 10) * 1000000" using assms(1) rnd_pos [of "y / 10"] by simp
  then have "rnd 0 \<le> rnd (rnd (y / 10) * 1000000)" by (rule rnd_mono)
  then have p: "0 \<le> ?us" using trunc_mono [of 0 "rnd (rnd (y / 10) * 1000000)"] by (simp add: trunc_def)
  have "of_int (100000 * n) / 1000000 = (of_int n / 10 :: rat)" by simp
  moreover have "trunc (rnd (rnd (of_int (100000 * n) / 1000000) * 1000000)) \<in> {100000 * n - 1, 100000 * n}"
    by (rule duration_error) (use assms(3,4) in simp_all)
  ultimately have u: "trunc (rnd (rnd (of_int n / 10) * 1000000)) \<le> 100000 * n" by auto
  have "rnd (rnd (y / 10) * 1000000) \<le> rnd (rnd (of_int n / 10) * 1000000)"
    using assms(2) by (intro rnd_mono mult_right_mono divide_right_mono) simp_all
  then have "?us \<le> trunc (rnd (rnd (of_int n / 10) * 1000000))" by (rule trunc_mono)
  with u have le: "?us \<le> 100000 * n" by simp
  then have "in_int64 ?us" using p assms(4) by (simp add: in_int64_def)
  then show ?thesis using p le by (simp add: durationFromTokens_def cast_int64_def kMicroSecondsPerSecond_def)
qed

lemma addTime_of_test:
  assumes "0 \<le> us" "us \<le> 300000" "0 \<le> a" "a < 2 ^ 62"
  shows "\<exists>w. addTime (Timestamp a) (secondsSinceEpochDouble (Timestamp us)) = Inr (Timestamp (a + w)) \<and> us - 1 \<le> w \<and> w \<le> us"
proof -
  have s: "secondsSinceEpochDouble (Timestamp us) = rnd (of_int us / 1000000)" using assms(1,2) by (intro seconds_of_int) simp
  let ?w = "trunc (rnd (rnd (of_int us / 1000000) * 1000000))"
  have "?w \<in> {us - 1, us}" using assms(1,2) by (intro duration_error) simp_all
  then have "us - 1 \<le> ?w" "?w \<le> us" by auto
  then show ?thesis using assms
    by (intro exI [of _ ?w]) (simp add: addTime_def s kMicroSecondsPerSecond_def cast_int64_def in_int64_def int64_def)
qed

text \<open>A reservation of the test, and its delay at a later time.\<close>

lemma reserveN_of_test:
  assumes n: "1 \<le> n" "n \<le> 3" and t: "0 \<le> a" "a < 2 ^ 62" "0 \<le> b" "b < 2 ^ 62" "0 \<le> l" "l < 2 ^ 62"
  shows "\<exists>r w. reserveN n (Timestamp a) (Timestamp b) (test_limiter l) = Inr (r, if n \<le> 2 then test_limiter a else test_limiter l)
    \<and> rv_ok r = (n \<le> 2) \<and> (n \<le> 2 \<longrightarrow> rv_timeToAct r = Timestamp (a + w)) \<and> -1 \<le> w \<and> w \<le> 100000 * n"
proof -
  let ?L = "test_limiter l" and ?e = "elapsed (Timestamp b) (test_limiter l)"
  have L: "lm_limit ?L = 10" "lm_burst ?L = 2" "lm_tokens ?L = 0" "lm_last ?L = Timestamp l"
    by (simp_all add: test_limiter_def setLast_def Limiter_new_def)
  have e: "0 \<le> ?e" "in_int64 ?e" using t by (auto simp: elapsed_def L in_int64_def)
  let ?x = "min (rnd (rnd (10 * secondsSinceEpochDouble (Timestamp ?e)))) 2"
  have adv: "tokensAt (Timestamp b) ?L = Inr ?x" using advance_eq [OF e(2)] by (simp add: tokensAt_def L)
  have x: "0 \<le> ?x" "?x \<le> 2" using seconds_nonneg [OF e(1)] by (auto intro!: fp.round_nonneg)
  let ?y = "rnd (?x - of_int n)"
  have "rnd (of_int (- n)) \<le> ?y" using x(1) by (intro rnd_mono) simp
  then have y1: "- of_int n \<le> ?y" using rnd_int [of "- n"] n by simp
  have "?y \<le> rnd (of_int (2 - n))" using x(2) by (intro rnd_mono) simp
  then have y2: "?y \<le> of_int (2 - n)" using rnd_int [of "2 - n"] n by simp
  have "trunc (of_int (- n)) \<le> trunc ?y" "trunc ?y \<le> trunc (of_int (2 - n))" using y1 y2 by (intro trunc_mono; simp)+
  then have c: "cast_int32 ?y = Inr (trunc ?y)" using n unfolding trunc_int by (simp add: cast_int32_def in_int32_def)
  obtain us where us: "(if ?y < 0 then durationFromTokens 10 (- ?y) else Inr ts_default) = Inr (Timestamp us)" "0 \<le> us" "us \<le> 100000 * n"
  proof (cases "?y < 0")
    case True
    then show ?thesis using duration_of_test [of "- ?y" n] y1 n that by auto
  next
    case False
    then show ?thesis using that [of 0] n by (simp add: ts_default_def)
  qed
  obtain w where w: "addTime (Timestamp a) (secondsSinceEpochDouble (Timestamp us)) = Inr (Timestamp (a + w))" "us - 1 \<le> w" "w \<le> us"
    using addTime_of_test [OF us(2) _ t(1,2)] us(3) n by auto
  have dur: "?y < 0 \<Longrightarrow> durationFromTokens 10 (- ?y) = Inr (Timestamp us)" using us(1) by simp
  have zero: "\<not> ?y < 0 \<Longrightarrow> us = 0" using us(1) by (simp add: ts_default_def)
  have sl: "setLast (Timestamp a) ?L = test_limiter a" by (simp add: test_limiter_def setLast_def)
  have ne: "(10 :: rat) \<noteq> Inf_limit" by (simp add: Inf_limit_def DBL_MAX_def)
  show ?thesis
  proof (cases "n \<le> 2")
    case True
    then have "reserveN n (Timestamp a) (Timestamp b) ?L = Inr (\<lparr>rv_ok = True, rv_tokens = trunc ?y, rv_timeToAct = Timestamp (a + w)\<rparr>, test_limiter a)"
      using w(1) zero by (cases "?y < 0") (simp_all add: reserveN_def L adv Let_def dur c sl ne)
    then show ?thesis using True w(2,3) us(2,3)
      by (intro exI [of _ "\<lparr>rv_ok = True, rv_tokens = trunc ?y, rv_timeToAct = Timestamp (a + w)\<rparr>"] exI [of _ w]) simp
  next
    case False
    then have "reserveN n (Timestamp a) (Timestamp b) ?L = Inr (\<lparr>rv_ok = False, rv_tokens = trunc ?y, rv_timeToAct = ts_default\<rparr>, ?L)"
      by (cases "?y < 0") (simp_all add: reserveN_def L adv Let_def dur c ne)
    then show ?thesis using False n by (intro exI [of _ "\<lparr>rv_ok = False, rv_tokens = trunc ?y, rv_timeToAct = ts_default\<rparr>"] exI [of _ 0]) simp
  qed
qed

lemma delay_of_test:
  assumes "rv_ok r" "rv_timeToAct r = Timestamp (a + w)" "a \<le> d" "0 \<le> a" "d < 2 ^ 62" "-1 \<le> w" "w \<le> u" "0 \<le> u" "u \<le> 300000"
  shows "\<exists>x. delay (Timestamp d) r = Inr (Timestamp x) \<and> 0 \<le> x \<and> x \<le> u"
  using assms by (auto simp: delay_def ts_sub_def int64_def in_int64_def)

section \<open>The test of the timers\<close>

text \<open>The callbacks of the test, and \<open>main\<close> up to \<open>loop()\<close>.\<close>

datatype timer_test = RunAt5 | RunEvery3 | RunAfter4

definition timer_test_main :: "(nat \<Rightarrow> int) \<Rightarrow> timer_test TimerQueue res" where
  "timer_test_main clk =
     (let (now, q) = read_clock clk TimerQueue_new in
      rbind (addTime (Timestamp now) 5) (\<lambda>t.
      rbind (runAt clk t RunAt5 q) (\<lambda>q.
      rbind (runEvery clk 3 RunEvery3 q) (\<lambda>q.
      runAfter clk 4 RunAfter4 q))))"

lemma add_seconds:
  assumes "0 \<le> a" "a < 2 ^ 62"
  shows "addTime (Timestamp a) 3 = Inr (Timestamp (a + 3000000))" "addTime (Timestamp a) 4 = Inr (Timestamp (a + 4000000))"
    "addTime (Timestamp a) 5 = Inr (Timestamp (a + 5000000))"
proof -
  have "rnd 3000000 = 3000000" "rnd 4000000 = 4000000" "rnd 5000000 = 5000000"
    using rnd_int [of 3000000] rnd_int [of 4000000] rnd_int [of 5000000] by simp_all
  moreover have "trunc 3000000 = 3000000" "trunc 4000000 = 4000000" "trunc 5000000 = 5000000"
    using trunc_int [of 3000000] trunc_int [of 4000000] trunc_int [of 5000000] by simp_all
  ultimately show "addTime (Timestamp a) 3 = Inr (Timestamp (a + 3000000))" "addTime (Timestamp a) 4 = Inr (Timestamp (a + 4000000))"
    "addTime (Timestamp a) 5 = Inr (Timestamp (a + 5000000))"
    using assms by (simp_all add: addTime_def kMicroSecondsPerSecond_def cast_int64_def in_int64_def int64_def)
qed

text \<open>Adding a timer whose time is yet to come.\<close>

lemma add_future_timer:
  assumes "tm_when timer = Timestamp w" "clk (tq_ticks q) < w" "w < 2 ^ 63" "0 \<le> clk (tq_ticks q)"
  shows "addTimerInLoop clk timer q = Inr (q\<lparr>tq_ticks := tq_ticks q + 2,
    tq_timerfd := Armed (clk (tq_ticks q + 1) + w - clk (tq_ticks q)), tq_heap := mm_insert (Timestamp w) timer (tq_heap q)\<rparr>)"
  using assms timerfd_settime_us [of "clk (tq_ticks q + 1)" "w - clk (tq_ticks q)" "tq_timerfd q"]
  by (simp add: addTimerInLoop_def read_clock_def int64_def in_int64_def Let_def)

text \<open>What \<open>main\<close> leaves: the timers in the order of their times, the descriptor set for the one added last.\<close>

lemma timer_test_main_eq:
  assumes clk: "mono clk" "0 \<le> clk 0" "clk 8 < clk 0 + 1000000" "clk 8 < 2 ^ 61"
  shows "timer_test_main clk = Inr \<lparr>tq_heap =
      [(Timestamp (clk 3 + 3000000), Timer_new (Timestamp (clk 3 + 3000000)) 3 RunEvery3),
       (Timestamp (clk 6 + 4000000), Timer_new (Timestamp (clk 6 + 4000000)) 0 RunAfter4),
       (Timestamp (clk 0 + 5000000), Timer_new (Timestamp (clk 0 + 5000000)) 0 RunAt5)],
    tq_timerfd = Armed (clk 8 + clk 6 + 4000000 - clk 7), tq_ticks = 9, tq_ran = []\<rparr>"
proof -
  have r: "0 \<le> clk i" "clk i < clk 0 + 1000000" "clk i < 2 ^ 61" "clk 0 \<le> clk i" if "i \<le> 8" for i
    using clk monoD [OF clk(1), of 0 i] monoD [OF clk(1), of i 8] that by auto
  have le: "clk 0 \<le> clk 3" "clk 3 \<le> clk 6" "clk 6 \<le> clk 7" using clk(1) by (auto intro: monoD)
  note b = r [of 0] r [of 1] r [of 3] r [of 4] r [of 6] r [of 7]
  show ?thesis using b le
    by (simp add: timer_test_main_def read_clock_def TimerQueue_new_def runAt_def runEvery_def runAfter_def add_seconds
        add_future_timer [where w = "clk 0 + 5000000"] add_future_timer [where w = "clk 3 + 3000000"]
        add_future_timer [where w = "clk 6 + 4000000"] Timer_new_def Timestamp_less_iff Let_def numeral_eq_Suc)
qed

section \<open>The test of the log\<close>

text \<open>A statement of \<open>main\<close>: a threshold that is set, or a line that is logged, with its place in the file.\<close>

datatype log_op = SetLevel LoggerLevel | LogLine LoggerLevel "char list" nat

text \<open>The output, and how the program ended. \<open>now n\<close> is the time at line \<open>n\<close> as it is printed.\<close>

fun log_run :: "(nat \<Rightarrow> char list) \<Rightarrow> nat \<Rightarrow> char list \<Rightarrow> log_op list \<Rightarrow> Logger \<Rightarrow> char list \<Rightarrow> char list \<times> unit res" where
  "log_run now thread_id file [] logger out = (out, Inr ())"
| "log_run now thread_id file (SetLevel l # ops) logger out = log_run now thread_id file ops (setLoggerLevel l logger) out"
| "log_run now thread_id file (LogLine l message n # ops) logger out =
     (case log_stmt logger l (now n) thread_id file n message out of
        (out, Inl e) \<Rightarrow> (out, Inl e)
      | (out, Inr u) \<Rightarrow> log_run now thread_id file ops logger out)"

definition log_test_main :: "log_op list" where
  "log_test_main =
     [SetLevel DEBUG,
      LogLine DEBUG ''debug print'' 12, LogLine INFO ''info print'' 13, LogLine WARN ''warn prrint'' 14, LogLine ERROR ''error print'' 15,
      SetLevel INFO,
      LogLine DEBUG ''debug not print'' 18, LogLine INFO ''info print'' 19, LogLine WARN ''warn prrint'' 20, LogLine ERROR ''error print'' 21,
      SetLevel WARN,
      LogLine DEBUG ''debug not print'' 24, LogLine INFO ''info not print'' 25, LogLine WARN ''warn prrint'' 26, LogLine ERROR ''error print'' 27,
      SetLevel FATAL,
      LogLine DEBUG ''debug not print'' 30, LogLine INFO ''info not print'' 31, LogLine WARN ''warn not prrint'' 32,
      LogLine ERROR ''error not print'' 33, LogLine FATAL ''fatal and abort'' 34]"

text \<open>The line a statement prints.\<close>

definition log_line :: "(nat \<Rightarrow> char list) \<Rightarrow> nat \<Rightarrow> char list \<Rightarrow> LoggerLevel \<Rightarrow> char list \<Rightarrow> nat \<Rightarrow> char list" where
  "log_line now thread_id file l message n =
     getLevelString l @ '' ['' @ now n @ ''] '' @ dec thread_id @ '' '' @ message @ '' - '' @ file @ '':'' @ dec n @ [CHR 0x0A]"

lemma log_step:
  assumes "plain (now n)" "plain file" "plain message"
  shows "log_run now thread_id file (LogLine l message n # ops) logger out =
    (if lg_level logger \<le> l
     then if l = FATAL then (out @ log_line now thread_id file l message n, Inl Aborted)
          else log_run now thread_id file ops logger (out @ log_line now thread_id file l message n)
     else log_run now thread_id file ops logger out)"
  using destroy_exact [OF assms(1,2), where level = l and thread_id = thread_id and lineno = n and message = message and out = out] assms(3) by (simp add: log_stmt_def log_line_def)

section \<open>The test of the acceptor\<close>

record acceptor_out =
  ao_written :: "(int \<times> char list) list"
  ao_closed :: "int list"

text \<open>The callback owns the socket it is given, which is closed when it returns; \<open>n\<close> is what the system takes
  of the write.\<close>

definition acceptor_newConnection :: "nat \<Rightarrow> int \<Rightarrow> sockaddr_in \<Rightarrow> acceptor_out \<Rightarrow> acceptor_out res" where
  "acceptor_newConnection n fd peerAddr s =
     (let sock = Socket_new fd in
      rbind (Socket_fd sock) (\<lambda>fd.
      Inr (s\<lparr>ao_written := ao_written s @ [(fd, take n (''How are you?'' @ [CHR 0x0A]))],
             ao_closed := ao_closed s @ Socket_destroy sock\<rparr>)))"

definition acceptor_test_main :: "int \<Rightarrow> int \<Rightarrow> int \<Rightarrow> (sockaddr_in \<times> Acceptor) res" where
  "acceptor_test_main sockfd bind_ret listen_ret =
     rbind (Acceptor_new 0 sockfd bind_ret) (\<lambda>acceptor.
     rbind (ac_listen True listen_ret acceptor) (\<lambda>acceptor. Inr (Endpoint_port 9981, acceptor)))"

text \<open>The loop, for what \<open>accept\<close> returns each time, the peer, and what is taken of the greeting.\<close>

fun acceptor_passes :: "(int \<times> sockaddr_in \<times> nat) list \<Rightarrow> acceptor_out \<Rightarrow> acceptor_out res" where
  "acceptor_passes [] s = Inr s"
| "acceptor_passes ((connfd, peer, n) # ps) s =
     rbind (ac_handleRead (Some (acceptor_newConnection n)) True connfd peer zero_addr s) (\<lambda>(s, closed).
     acceptor_passes ps (s\<lparr>ao_closed := ao_closed s @ closed\<rparr>))"

text \<open>A refused \<open>accept\<close> gives a socket object of its own, whose descriptor, -1, is closed as well.\<close>

lemma acceptor_passes_ok:
  "acceptor_passes ps s = Inr (s\<lparr>ao_written := ao_written s @ List.map (\<lambda>(fd, peer, n). (fd, take n (''How are you?'' @ [CHR 0x0A]))) (filter (\<lambda>(fd, peer, n). 0 \<le> fd) ps),
     ao_closed := ao_closed s @ List.map fst ps\<rparr>)"
proof (induction ps arbitrary: s)
  case (Cons p ps)
  then show ?case
    by (cases p) (simp add: ac_handleRead_def Socket_accept_def sockets_accept_def Socket_move_def Socket_fd_def Socket_new_def
        Socket_destroy_def acceptor_newConnection_def Let_def)
qed simp

section \<open>Properties\<close>

text \<open>The test of the rate limiter runs to its end whatever the clock, as long as it does not go back: no
  conversion between doubles and integers overflows, neither of its assertions nor the one that the
  first delay is below a second fails, and the delays it prints are at most a tenth of a second for each
  event reserved.\<close>

theorem rate_test_passes:
  assumes "mono clk" and "0 \<le> clk 0" and "clk 12 < 2 ^ 62"
  shows "\<exists>d1 d2 pause d3. rate_test_main clk = Inr [d1, d2, pause, d3] \<and> 0 \<le> d1 \<and> d1 \<le> 100000 \<and> 0 \<le> d2 \<and> d2 \<le> 200000
    \<and> 0 \<le> pause \<and> pause \<le> 200000 \<and> 0 \<le> d3 \<and> d3 \<le> 200000"
proof -
  have c: "0 \<le> clk i" "clk i < 2 ^ 62" if "i \<le> 12" for i
    using assms monoD [OF assms(1), of 0 i] monoD [OF assms(1), of i 12] that by auto
  have le: "clk i \<le> clk j" if "i \<le> j" for i j using monoD [OF assms(1) that] .
  have L: "Limiter_new 10 2 = test_limiter 0" by (simp add: test_limiter_def setLast_def Limiter_new_def)
  obtain us where us: "cast_int64 (rnd (rnd (1 / 10) * of_int kMicroSecondsPerSecond)) = Inr us" "Limiter_new (Every (Timestamp us)) 2 = test_limiter 0"
    using echo_rate_limiter_value by (auto simp: echo_rate_limiter_def rbind_Inr_iff L)
  obtain r0 where r0: "reserveN 3 (Timestamp (clk 0)) (Timestamp (clk 1)) (test_limiter 0) = Inr (r0, test_limiter 0)" "\<not> rv_ok r0"
    using reserveN_of_test [of 3 "clk 0" "clk 1" 0] c [of 0] c [of 1] by auto
  obtain r1 w1 where r1: "reserveN 1 (Timestamp (clk 2)) (Timestamp (clk 3)) (test_limiter 0) = Inr (r1, test_limiter (clk 2))"
    "rv_ok r1" "rv_timeToAct r1 = Timestamp (clk 2 + w1)" "-1 \<le> w1" "w1 \<le> 100000"
    using reserveN_of_test [of 1 "clk 2" "clk 3" 0] c [of 2] c [of 3] by auto
  obtain r2 w2 where r2: "reserveN 2 (Timestamp (clk 6)) (Timestamp (clk 7)) (test_limiter (clk 2)) = Inr (r2, test_limiter (clk 6))"
    "rv_ok r2" "rv_timeToAct r2 = Timestamp (clk 6 + w2)" "-1 \<le> w2" "w2 \<le> 200000"
    using reserveN_of_test [of 2 "clk 6" "clk 7" "clk 2"] c [of 2] c [of 6] c [of 7] by auto
  obtain r3 w3 where r3: "reserveN 2 (Timestamp (clk 10)) (Timestamp (clk 11)) (test_limiter (clk 6)) = Inr (r3, test_limiter (clk 10))"
    "rv_ok r3" "rv_timeToAct r3 = Timestamp (clk 10 + w3)" "-1 \<le> w3" "w3 \<le> 200000"
    using reserveN_of_test [of 2 "clk 10" "clk 11" "clk 6"] c [of 6] c [of 10] c [of 11] by auto
  obtain d where d: "delay (Timestamp (clk 4)) r1 = Inr (Timestamp d)" "0 \<le> d" "d \<le> 100000"
    using delay_of_test [OF r1(2,3) le [of 2 4] _ _ r1(4,5)] c [of 2] c [of 4] by auto
  then have s: "secondsSinceEpoch (Timestamp d) = 0" by (simp add: secondsSinceEpoch_def kMicroSecondsPerSecond_def sdiv_nonneg)
  obtain d1 where d1: "delay (Timestamp (clk 5)) r1 = Inr (Timestamp d1)" "0 \<le> d1" "d1 \<le> 100000"
    using delay_of_test [OF r1(2,3) le [of 2 5] _ _ r1(4,5)] c [of 2] c [of 5] by auto
  obtain d2 where d2: "delay (Timestamp (clk 8)) r2 = Inr (Timestamp d2)" "0 \<le> d2" "d2 \<le> 200000"
    using delay_of_test [OF r2(2,3) le [of 6 8] _ _ r2(4,5)] c [of 6] c [of 8] by auto
  obtain p where p: "delay (Timestamp (clk 9)) r2 = Inr (Timestamp p)" "0 \<le> p" "p \<le> 200000"
    using delay_of_test [OF r2(2,3) le [of 6 9] _ _ r2(4,5)] c [of 6] c [of 9] by auto
  obtain d3 where d3: "delay (Timestamp (clk 12)) r3 = Inr (Timestamp d3)" "0 \<le> d3" "d3 \<le> 200000"
    using delay_of_test [OF r3(2,3) le [of 10 12] _ _ r3(4,5)] c [of 10] c [of 12] by auto
  have "rate_test_main clk = Inr [d1, d2, p, d3]"
    by (simp add: rate_test_main_def us r0 reserve_def r1(1,2) d(1) s d1(1) r2(1) d2(1) p(1) r3(1) d3(1) Let_def del: One_nat_def)
  then show ?thesis using d1 d2 p d3 by blast
qed

theorem rate_test_passes_witness:
  "\<exists>d1 d2 pause d3. rate_test_main (\<lambda>i. 1676805561000000 + int i) = Inr [d1, d2, pause, d3] \<and> d1 \<le> 100000"
proof -
  have "mono (\<lambda>i. 1676805561000000 + int i)" by (simp add: mono_def)
  from rate_test_passes [OF this] show ?thesis by auto
qed

text \<open>C38: In the test of the timers, two of the three timers are late by a second or more. The clock
  never goes back and moves between the callback's first two readings of it and stays between 0 and 2^61
  microseconds, \<open>main\<close> adds the timers within one second, the loop gets to the callback four
  seconds after that and before the fifth second is over, and the callback itself takes less than three.
  Then \<open>main\<close> leaves the descriptor set for the timer added last, four seconds ahead, so that
  the timer of three seconds is not run before; and the callback that then runs it and the timer of four
  seconds sets the descriptor for the next turn of the former, so that it is not readable again before the
  seventh second, when the timer of five seconds, which is still filed, is overdue by two.\<close>

theorem timer_test_late:
  assumes "mono clk" and "0 \<le> clk 0" and "clk 8 < clk 0 + 1000000" and "clk 13 < 2 ^ 61"
    and "clk 8 + 4000000 \<le> clk 9" and "clk 9 < clk 10" and "clk 10 \<le> clk 0 + 5000000" and "clk 12 < clk 11 + 3000000"
  shows "\<exists>q0 d0 q1 d1. timer_test_main clk = Inr q0 \<and> tq_timerfd q0 = Armed d0 \<and> clk 0 + 4000000 \<le> d0 \<and> d0 \<le> clk 9
    \<and> timerQueueCallBack clk (\<lambda>cb t. []) q0 = Inr q1 \<and> tq_ran q1 = [RunEvery3, RunAfter4]
    \<and> (Timestamp (clk 0 + 5000000), Timer_new (Timestamp (clk 0 + 5000000)) 0 RunAt5) \<in> set (tq_heap q1)
    \<and> tq_timerfd q1 = Armed d1 \<and> clk 0 + 7000000 \<le> d1"
proof -
  let ?every = "\<lambda>w. Timer_new (Timestamp w) 3 RunEvery3" and ?at5 = "Timer_new (Timestamp (clk 0 + 5000000)) 0 RunAt5"
  let ?q0 = "\<lparr>tq_heap = [(Timestamp (clk 3 + 3000000), ?every (clk 3 + 3000000)),
       (Timestamp (clk 6 + 4000000), Timer_new (Timestamp (clk 6 + 4000000)) 0 RunAfter4), (Timestamp (clk 0 + 5000000), ?at5)],
    tq_timerfd = Armed (clk 8 + clk 6 + 4000000 - clk 7), tq_ticks = 9, tq_ran = []\<rparr>"
  have le: "clk 0 \<le> clk 3" "clk 3 \<le> clk 6" "clk 0 \<le> clk 6" "clk 6 \<le> clk 7" "clk 7 \<le> clk 8" "clk 8 \<le> clk 13" "clk 10 \<le> clk 11"
    "clk 11 \<le> clk 12" "clk 12 \<le> clk 13" "clk 11 \<le> clk 13" "clk 0 \<le> clk 12"
    using assms(1) by (auto intro: monoD)
  have m: "timer_test_main clk = Inr ?q0" using assms(4) le(6) by (intro timer_test_main_eq assms(1-3)) simp
  have past: "clk 3 + 3000000 < clk 10" "clk 6 + 4000000 < clk 10" using assms(5,6) le by linarith+
  let ?q1 = "\<lparr>tq_heap = [(Timestamp (clk 0 + 5000000), ?at5), (Timestamp (clk 11 + 3000000), ?every (clk 11 + 3000000))],
    tq_timerfd = Armed (clk 13 + (clk 11 + 3000000) - clk 12), tq_ticks = 14, tq_ran = [RunEvery3, RunAfter4]\<rparr>"
  have r: "0 \<le> clk 11" "clk 11 < 2 ^ 61" "clk 0 + 5000000 < clk 11 + 3000000" using le past assms(2-4) by linarith+
  have "timerQueueCallBack clk (\<lambda>cb t. []) ?q0 = Inr ?q1"
    using past r le assms(2,7,8)
    by (simp add: timerQueueCallBack_def read_clock_def mm_before_def mm_from_def Timestamp_less_iff runTcb_def updateWhen_def add_seconds
        add_future_timer [where w = "clk 11 + 3000000"] Timer_new_def Let_def numeral_eq_Suc)
  moreover have "clk 0 + 4000000 \<le> clk 8 + clk 6 + 4000000 - clk 7" "clk 8 + clk 6 + 4000000 - clk 7 \<le> clk 9"
    "clk 0 + 7000000 \<le> clk 13 + (clk 11 + 3000000) - clk 12"
    using le past assms(5) by linarith+
  ultimately show ?thesis using m
    by (intro exI [of _ ?q0] exI [of _ "clk 8 + clk 6 + 4000000 - clk 7"] exI [of _ ?q1] exI [of _ "clk 13 + (clk 11 + 3000000) - clk 12"]) simp
qed

theorem timer_test_late_witness:
  "\<exists>q0 q1. timer_test_main (\<lambda>i. if i \<le> 8 then int i else 4000000 + int i) = Inr q0
    \<and> timerQueueCallBack (\<lambda>i. if i \<le> 8 then int i else 4000000 + int i) (\<lambda>cb t. []) q0 = Inr q1 \<and> tq_ran q1 = [RunEvery3, RunAfter4]"
proof -
  have "mono (\<lambda>i :: nat. if i \<le> 8 then int i else 4000000 + int i)" by (auto simp: mono_def)
  from timer_test_late [OF this] show ?thesis by auto
qed

text \<open>The test of the log prints what its statements say. With a time and a file name that have no percent
  sign, the program prints, in order and each in full, the four lines from DEBUG on, the three from
  INFO on, the two from WARN on and the fatal line, and nothing else, and then aborts.\<close>

theorem log_test_prints:
  assumes "\<forall>n. plain (now n)" and "plain file"
  shows "log_run now thread_id file log_test_main logger [] =
    (concat (List.map (\<lambda>(l, message, n). log_line now thread_id file l message n)
       [(DEBUG, ''debug print'', 12), (INFO, ''info print'', 13), (WARN, ''warn prrint'', 14), (ERROR, ''error print'', 15),
        (INFO, ''info print'', 19), (WARN, ''warn prrint'', 20), (ERROR, ''error print'', 21),
        (WARN, ''warn prrint'', 26), (ERROR, ''error print'', 27), (FATAL, ''fatal and abort'', 34)]), Inl Aborted)"
proof -
  have p: "plain (now n)" for n using assms(1) by blast
  show ?thesis unfolding log_test_main_def
    by (simp add: log_step [OF p assms(2)] setLoggerLevel_def less_eq_LoggerLevel_def del: log_run.simps(3))
qed

theorem log_test_prints_witness:
  "\<exists>out. log_run (\<lambda>n. ''15:41:22'') 7 ''wf_log_test.cc'' log_test_main g_logger [] = (out, Inl Aborted) \<and> out \<noteq> []"
proof -
  have "\<forall>n :: nat. plain ''15:41:22''" "plain ''wf_log_test.cc''" by simp_all
  from log_test_prints [OF this, of 7 g_logger] show ?thesis by (simp add: log_line_def)
qed

text \<open>The test of the acceptor greets and closes every connection. When the system calls of \<open>main\<close> succeed, it
  listens; then, when the system takes each write whole, every accepted connection is sent the greeting
  once and closed once, in the order of acceptance: by the callback that owns it, and by no one else.\<close>

theorem acceptor_test_greets:
  assumes "0 \<le> sockfd" and "0 \<le> bind_ret" and "0 \<le> listen_ret" and "\<forall>p \<in> set ps. 0 \<le> fst p \<and> 13 \<le> snd (snd p)"
  shows "\<exists>a s. acceptor_test_main sockfd bind_ret listen_ret = Inr (Endpoint_port 9981, a) \<and> ac_listening a
    \<and> acceptor_passes ps \<lparr>ao_written = [], ao_closed = []\<rparr> = Inr s
    \<and> ao_written s = List.map (\<lambda>p. (fst p, ''How are you?'' @ [CHR 0x0A])) ps
    \<and> ao_closed s = List.map fst ps"
proof -
  have f: "filter (\<lambda>(fd, peer, n). 0 \<le> fd) ps = ps" using assms(4) by (auto simp: filter_id_conv)
  have w: "List.map (\<lambda>(fd, peer, n). (fd, take n (''How are you?'' @ [CHR 0x0A]))) ps = List.map (\<lambda>p. (fst p, ''How are you?'' @ [CHR 0x0A])) ps"
    by (rule map_cong [OF refl]) (use assms(4) in \<open>auto simp: split_beta\<close>)
  obtain a where "acceptor_test_main sockfd bind_ret listen_ret = Inr (Endpoint_port 9981, a)" "ac_listening a"
    using assms(1-3) by (simp add: acceptor_test_main_def Acceptor_new_def createNonblocking_def sockets_bind_def ac_listen_def sockets_listen_def)
  then show ?thesis using acceptor_passes_ok [of ps "\<lparr>ao_written = [], ao_closed = []\<rparr>"] f w by simp
qed

theorem acceptor_test_greets_witness:
  "\<exists>s. acceptor_passes [(7, zero_addr, 13), (8, zero_addr, 20)] \<lparr>ao_written = [], ao_closed = []\<rparr> = Inr s \<and> ao_closed s = [7, 8]"
proof -
  have "\<forall>p \<in> set [(7 :: int, zero_addr, 13 :: nat), (8, zero_addr, 20)]. 0 \<le> fst p \<and> 13 \<le> snd (snd p)"
    by simp
  from acceptor_test_greets [OF _ _ _ this, of 3 0 0] obtain s where
    "acceptor_passes [(7, zero_addr, 13), (8, zero_addr, 20)] \<lparr>ao_written = [], ao_closed = []\<rparr> = Inr s"
    "ao_closed s = List.map fst [(7 :: int, zero_addr, 13 :: nat), (8, zero_addr, 20)]" by auto
  then show ?thesis by simp
qed

end
