(* ===== verification/Spec2Isabelle.thy ===== *)
theory Spec2Isabelle
  imports FileServers Programs GreetingClients ConnPollers Sockets TimerQueues EventLoops Reactors Anys CounterThreads Resources Greetings PageServers SelfTests
begin

text \<open>
  \<^bold>\<open>A verification development of winterfell\<close>, a C++ network library in the style of a reactor: one event
  loop per thread, non-blocking sockets, TCP servers and clients with callbacks, an HTTP server on top.
  The paths below are those of the repository, under src/.

  \<^bold>\<open>The parts of the program and how they meet.\<close> An \<open>EventLoop\<close> waits in \<open>poll\<close> through its \<open>PollPoller\<close>, which
  keeps an array of descriptors and marks the \<open>Channel\<close>s with events; each marked channel calls back its
  owner: an \<open>Acceptor\<close>, a \<open>Connector\<close>, a \<open>TcpConnection\<close> or the \<open>TimerQueue\<close>. Then the loop runs the functors
  that its own and other threads queued. A \<open>TcpServer\<close> gets descriptors from its acceptor, gives each a
  connection on one of its \<open>SubLoops\<close> and keeps the connections by name; a \<open>TcpClient\<close> has one connection,
  made by its connector. A connection reads into one \<open>Buffer\<close>, writes from another, and calls the user's
  callbacks; those of the \<open>HttpServer\<close> parse the input buffer with an \<open>HttpContext\<close> and print an
  \<open>HttpResponse\<close>. The example servers are callbacks of the same kind.

  \<^bold>\<open>How the code is modelled.\<close> A class is a \<open>record\<close> with the fields of the class (a field kept by the model
  for what the code hands to the system, such as the bytes sent, is said to be one where it is declared);
  a method is a function from the state to a result. The result \<open>'a res\<close> of Prelude is a fault or a
  value: each \<open>assert\<close>, \<open>abort\<close>, uncaught exception, access out of bounds, use of a null or freed pointer,
  overflow of a signed integer or cast of a double out of range is a constructor of \<open>fault\<close>, and \<open>rbind\<close>
  is the sequencing of statements. Results of system calls (\<open>read\<close>, \<open>write\<close>, \<open>poll\<close>, \<open>connect\<close>,
  \<open>getsockopt\<close>, the clock) are arguments of the operation that makes the call. What the user's callbacks do
  is a parameter: a list of calls on the connection (\<open>program\<close>), or, for a channel, any function on the
  state. Signed machine integers are \<open>int\<close> with an explicit range check (\<open>int32\<close>, \<open>int64\<close>), event masks and
  network-order integers are words, doubles are rationals rounded to 53 bits.

  \<^bold>\<open>Theories, from the bottom up.\<close>
  \<^item> \<^bold>\<open>Prelude\<close>: faults, results, slices of a vector, \<open>std::find\<close> and \<open>std::search\<close>; the collections
    \<open>result_simps\<close>, \<open>queue_simps\<close>, \<open>inv_intros\<close>. \<^bold>\<open>Formats\<close>: decimal numbers, padding, \<open>snprintf\<close>.
    \<^bold>\<open>StepSystems\<close>: reachable states, and the locales \<open>invariant_system\<close> (an invariant that holds
    initially and at every step) and \<open>simulated_system\<close> (that, and a simulation by a simpler system).
  \<^item> \<^bold>\<open>StdMaps\<close>: \<open>std::map\<close> and \<open>std::multimap\<close> as lists in key order. Locales \<open>key_map\<close> and \<open>ordered_map\<close>:
    the laws of find after put and erase, and that the order of insertion cannot be seen; interpreted as
    \<open>sm\<close>.
  \<^item> \<^bold>\<open>ByteQueues\<close>, \<^bold>\<open>Buffers\<close> (net/wf_buffer.h, .cc): the locale \<open>byte_queue\<close> is what the parser and the
    connections rely on; \<open>Buffer\<close> provides it (interpretation \<open>bq\<close>). Lemmas: each operation keeps
    \<open>Buffer_inv\<close> (8 bytes in front, reader at most writer, writer within the vector) and does to \<open>contents\<close>
    what it says; runs of operations are first-in first-out and fault exactly on overdraw.
  \<^item> \<^bold>\<open>Timestamps\<close> (base/wf_timestamp.h, .cc), \<^bold>\<open>Doubles\<close> and \<^bold>\<open>RateLimiters\<close> (base/wf_rate.h, .cc): the order,
    printing and double arithmetic of times; the locale \<open>rounding\<close> (monotone, exact on integers below
    2 to the 53) is interpreted as \<open>fp\<close> by the round-to-even of \<open>Doubles\<close>; the limiter's tokens stay between
    what is stored and the burst, and grow with time.
  \<^item> \<^bold>\<open>HttpRequests\<close>, \<^bold>\<open>HttpContexts\<close>, \<^bold>\<open>HttpResponses\<close>, \<^bold>\<open>HttpServers\<close> (net/http/): the request and its header
    map, the incremental parser, the response and its printing, the callbacks of the server.
    \<open>parseRequest\<close> is the loop of the code over pointers into the buffer; \<open>http_parse\<close> is a reference
    parser over a list of bytes. The first refines the second, and everything else is proved of the
    second: independence of how the bytes are cut into reads, round trip with the printed request, types
    of the fields. \<open>http_serve\<close> composes parser, buffer and response over a sequence of reads.
    \<^bold>\<open>HttpConnections\<close> puts the server on its TCP server and these callbacks on a connection:
    \<open>http_conversation\<close> speaks of the bytes that arrive and the bytes on the wire.
  \<^item> \<^bold>\<open>Channels\<close> (net/wf_channel.h, .cc), \<^bold>\<open>PollPollers\<close> (net/wf_poller.h, .cc, poller/wf_poll_poller.h, .cc): the
    masks and the dispatch of events, and the poller on a heap of channels. The locale \<open>poller\<close> is what the
    owner of a channel relies on: while the interest is not empty the system watches exactly what was
    asked last; interpreted as \<open>pl\<close>.
  \<^item> \<^bold>\<open>EventLoops\<close> (net/wf_event_loop.h, .cc): the loop as a step relation in which its own steps (poll,
    drain the event descriptor, swap the functors out, run one) interleave with the steps of other threads
    (queue a functor, write the wakeup, quit), and in which the loop's own thread also queues and quits
    while it is not in \<open>loop()\<close>, for which the code writes no wakeup. Interpretation \<open>el\<close> of
    \<open>simulated_system\<close>: it runs like a plain queue. \<^bold>\<open>TimerQueues\<close> (net/wf_timer.h, .cc, wf_timer_queue.h, .cc): the timers filed by time, and
    the timer descriptor. \<^bold>\<open>Reactors\<close>: the construction of a loop with its poller and its two channels,
    and a pass of the loop over the channels that \<open>poll\<close> reports.
  \<^item> \<^bold>\<open>TcpConnections\<close> (net/wf_tcp_connection.h, .cc): the states of a connection, its two buffers, the
    queue of its functors. Interpretations \<open>cq\<close> and \<open>ca\<close> of \<open>invariant_system\<close>, one for each close callback
    (the client's queues the end, the server's ends at once). \<^bold>\<open>ConnClosures\<close>: the locale \<open>conn_closure\<close>, by which
    a reflexive and transitive relation that holds of a connection's few kinds of update holds of all
    its operations; interpreted in ConnObjects (\<open>ck\<close>), ConnPollers (\<open>cf\<close>) and Programs (\<open>cb\<close>).
    \<^bold>\<open>ConnPollers\<close>: a connection beside the poller of its loop, which carries out the updates and the
    removal that the connection has made and recorded, in their order.
  \<^item> \<^bold>\<open>Endpoints\<close> (net/wf_endpoint.h, .cc, wf_sockets_ops.h, .cc, wf_socket.h, .cc): addresses in network order,
    their text, sockets as values. \<^bold>\<open>Sockets\<close>: socket objects with their pointer, and the record of the system
    calls made through them and through the wrappers; \<open>kernel\<close> says which records touch open descriptors
    only, \<open>held\<close> what the objects amount to; interpretations \<open>sk\<close> and \<open>sr\<close> of \<open>invariant_system\<close>, the second for
    the closes of a negative number after a refused accept. \<^bold>\<open>Connectors\<close> (net/wf_connector.h, .cc): connecting, retries
    with backoff; interpretation \<open>cn\<close>.
  \<^item> \<^bold>\<open>ConnObjects\<close>: connections as reference-counted objects. An object is destroyed, and its descriptor
    closed, when neither its owner nor a queued functor holds it; an event that runs on a destroyed one is
    a fault. The locale \<open>conn_owner\<close> says what an owner must keep for every event and every batch of functors
    to keep its invariant; \<^bold>\<open>TcpServers\<close> (net/wf_tcp_server.h, .cc, wf_acceptor.h, .cc, wf_sub_loops.h, .cc)
    interprets it as \<open>so\<close>, and its step relation as \<open>ss\<close>. \<^bold>\<open>TcpClients\<close> (net/wf_tcp_client.h, .cc).
  \<^item> \<^bold>\<open>Anys\<close> (util/wf_any.h): pointers to cloned holders, refined to plain values. \<^bold>\<open>Logs\<close> (base/wf_log.h, .cc,
    util/wf_singleton.h): levels as a linear order, threshold, the line printed. \<^bold>\<open>Syncs\<close> (base/wf_mutex.h,
    wf_condition.h, wf_thread.h, .cc): the mutex with its holder field as a step relation of the threads
    (interpretation \<open>mx\<close>), the condition, the life of a thread. \<^bold>\<open>CounterThreads\<close>
    (base/tests/wf_synchronization_test.cc, first block of \<open>main\<close>): two threads that share a counter under the mutex.
    \<^bold>\<open>Resources\<close> (the second block): producers and a consumer on the condition, with the race of the subtraction that
    the consumer makes outside the mutex.
  \<^item> \<^bold>\<open>Applications\<close> (example/ftp/ftp_server.cc, example/echo/server.cc, example/echo_rate/server.cc): the
    callbacks of the programs built on the library. \<^bold>\<open>Programs\<close>: the echo servers from \<open>main\<close> on. \<^bold>\<open>Greetings\<close>
    (net/tests/wf_sub_loops_test.cc, wf_tcp_server_test.cc): the greeting servers, over several loops.
    \<^bold>\<open>PageServers\<close> (net/http/tests/wf_http_server_test.cc): the web server. \<^bold>\<open>SelfTests\<close>: the tests of the buffer, the
    rate limiter, the timers, the log and the acceptor, run on the model (wf_buffer_test.cc, wf_rate_test.cc,
    wf_timer_queue_test.cc, wf_log_test.cc, wf_acceptor_test.cc).
    \<^bold>\<open>PacedClients\<close> (example/echo_rate/client.cc): the client that sends when a write is complete
    (interpretation \<open>pc\<close>). \<^bold>\<open>GreetingClients\<close> (net/tests/wf_tcp_client_test.cc): the client that sends once
    (interpretation \<open>gc\<close>). \<^bold>\<open>FileServers\<close>: the file server on its HTTP server, and the command loop of
    example/ftp/ftp_client.cc.

  \<^bold>\<open>What the properties show.\<close> The claims are numbered in the order of their importance, each in the theory
  of its component. Streams of bytes and functors arrive complete, in order and once: \<open>http_conversation\<close>,
  \<open>buffer_fifo\<close>, \<open>conn_stream_integrity\<close>, \<open>no_lost_wakeup\<close>, \<open>functors_fifo_once\<close>, \<open>pending_functors_run\<close>,
  \<open>shutdown_flushes\<close>; and whole programs keep their streams: \<open>echo_server_serves\<close>,
  \<open>greeting_server_serves\<close>, \<open>ftp_listing_on_wire\<close>, \<open>page_server_serves\<close>, \<open>rate_client_paces\<close>. The parser is its reference, returns, is independent of the
  cutting of its input and reads back what is printed: \<open>parseRequest_refines_reference\<close>,
  \<open>parse_in_chunks\<close>, \<open>parse_print_roundtrip\<close>, \<open>response_reads_back\<close>, \<open>http_serve_safe\<close>,
  \<open>parseRequest_terminates_iff\<close>, \<open>parseRequest_typed\<close>. Resources are accounted for: \<open>server_registry\<close>,
  \<open>any_refines_values\<close>, \<open>sockets_accounted\<close>, \<open>sockets_raii\<close>, \<open>accept_hands_over\<close>, \<open>client_peer_close_safe\<close>.
  The poller watches what is asked, for a connection exactly what its state needs, and the loop runs what is
  due: \<open>channel_life\<close>, \<open>connection_watched\<close>, \<open>loop_pass_runs_due\<close>. Threads that use
  the mutex exclude each other, do not deadlock and end: \<open>counter_test_passes\<close>, \<open>consumer_waits_safely\<close>. And, just as
  precisely, where the program fails: \<open>server_peer_close_use_after_free\<close>, \<open>later_timer_lost\<close>,
  \<open>timer_test_late\<close>, \<open>count_says_nothing\<close>, \<open>http_two_reads_abort\<close> and \<open>ftp_get_never_answers\<close> each exhibit a fault or a loss
  that the code as written has in all circumstances their hypotheses name; so do, beside the numbered
  claims, \<open>mutex_holder_wrong\<close>, \<open>send_lost_while_pending\<close>, \<open>disabled_channel_lost\<close>, \<open>reading_is_forever\<close>,
  \<open>quit_before_loop_lost\<close> and \<open>functor_before_loop_waits\<close>. The conditions of a property are named in the text before it; for
  the servers on the wire the main one is that the system takes each answer whole, since \<open>sendInLoop\<close> drops what
  the program sends while output waits.

  \<^bold>\<open>Bounds and loops.\<close> There is no fuel. The loop of \<open>parseRequest\<close> is \<open>while_option\<close>, so that not
  returning is the value \<open>None\<close>, and \<open>parseRequest_terminates_iff\<close> says exactly when it returns. The loop
  of \<open>EventLoop\<close>, which need not end, is a step relation. All other loops of the code are structural
  recursions or recursions on the length of the input. The buffers that the code prints into
  have their sizes in the model (32 bytes for names, header lines and times, 64 for a date), and \<open>snprintf\<close>
  truncates as it does in C.

  \<^bold>\<open>Idealisations.\<close> One call of a method by another thread is atomic, except where the code gives way
  between two of its own steps (the queue and the wakeup of \<open>queueInLoop\<close>, the holder and the owner of a
  mutex); the locks around single accesses are then left out, and data races in the library that result
  from missing locks are listed as findings, not modelled. Memory does not run out, so \<open>new\<close> and the growth of a vector
  succeed; sizes of containers are not bounded by \<open>size_t\<close>. Doubles are
  finite (the theory says why no infinity or NaN matters). The machine is little-endian. The functors of
  one connection run in their order; those of different connections commute, as each touches its own
  connection only. \<open>poll\<close>, \<open>eventfd\<close>, \<open>timerfd\<close>, \<open>inet_pton\<close>, \<open>inet_ntoa\<close>, \<open>printf\<close> and the pthread
  primitives are modelled after their manuals; \<open>gmtime_r\<close> is a parameter. One sequence of readings stands for the
  time of day, which the timers are compared with, and for the monotonic clock of the timer descriptor. In a
  pass of the loop over its channels (Reactors) the callbacks change the state of the program and the interests of
  channels; callbacks that make or destroy channels are in the theories of the server and the client.

  \<^bold>\<open>Not modelled.\<close> \<open>EpollPoller\<close> has no body in any operation. \<open>Endpoint::resolve\<close>, \<open>getTcpInfo\<close> and
  \<open>Limiter::cancel\<close> are declared and never defined, or empty. \<open>sockets::connect\<close> only forwards a system call,
  whose result is an input of the connector. util/wf_callbacks.h, wf_noncopyable.h and wf_util.h hold
  type names, a base class and a system call. The other programs under the tests directories (threads that
  log, loops that never end, addresses and times that are printed) call the library by hand and print.
\<close>

end
